(* ===== verification/Go_Prelude.thy ===== *)
theory Go_Prelude
  imports Main "HOL-Library.Sublist" "HOL-Library.Char_ord"
begin

text \<open>
  The shared prelude: Go errors with their wrap chain, the results of fallible calls, and the
  part of Go's package \<^verbatim>\<open>strings\<close> the program uses, on byte strings (a Go string is a sequence
  of bytes, here a \<^typ>\<open>char list\<close>). The lemmas here are what the component theories share.
\<close>

named_theorems go_split \<open>characteristic facts of the result combinators\<close>

section \<open>Errors\<close>

text \<open>
  A Go error value is its message and the sentinels that \<^verbatim>\<open>errors.Is\<close> finds on its wrap chain.
  The sentinels are those of errors.go, of the standard library, and the two of the provider
  package that the retry classification names.
\<close>

datatype sentinel =
    ErrPromptCancelled | ErrAgentStopped | ErrToolLeaked | ErrToolNotFound | ErrCompactFailed
  | ErrInvalidModel | ErrInvalidModelRef | ErrAgentBusy | ErrNoPromptInFlight | ErrSessionNotFound
  | ErrNothingToResume | ErrUnsupportedFeature | ErrDuplicateToolName | ErrUnknownActiveTool
  | ErrInvalidToolSchema | ErrSummaryTruncated
  | CtxCanceled | CtxDeadlineExceeded
  | LlmProviderFatal | LlmContextOverflow
  | FsNotExist | FsPermission | SysENOTDIR | SysEISDIR

record err =
  err_msg :: string
  err_chain :: "sentinel list"

definition errors_is :: "err \<Rightarrow> sentinel \<Rightarrow> bool" where
  "errors_is e s \<longleftrightarrow> s \<in> set (err_chain e)"

definition errors_new :: "string \<Rightarrow> err" where
  "errors_new m = \<lparr>err_msg = m, err_chain = []\<rparr>"

definition wrap_err :: "string \<Rightarrow> err \<Rightarrow> err" where
  "wrap_err pre e = \<lparr>err_msg = pre @ err_msg e, err_chain = err_chain e\<rparr>"

fun sentinel_text :: "sentinel \<Rightarrow> string" where
  "sentinel_text ErrPromptCancelled = ''prompt cancelled by caller context''"
| "sentinel_text ErrAgentStopped = ''prompt stopped by caller''"
| "sentinel_text ErrToolLeaked = ''tool execution leaked goroutine''"
| "sentinel_text ErrToolNotFound = ''tool not found''"
| "sentinel_text ErrCompactFailed = ''compaction failed''"
| "sentinel_text ErrInvalidModel = ''invalid model''"
| "sentinel_text ErrInvalidModelRef = ''invalid model reference''"
| "sentinel_text ErrAgentBusy = ''agent is busy''"
| "sentinel_text ErrNoPromptInFlight = ''no prompt in flight''"
| "sentinel_text ErrSessionNotFound = ''session not found''"
| "sentinel_text ErrNothingToResume = ''nothing to resume''"
| "sentinel_text ErrUnsupportedFeature = ''unsupported feature''"
| "sentinel_text ErrDuplicateToolName = ''duplicate tool name''"
| "sentinel_text ErrUnknownActiveTool = ''active tool not registered''"
| "sentinel_text ErrInvalidToolSchema = ''tool has no valid parameter schema''"
| "sentinel_text ErrSummaryTruncated = ''summary truncated at output token limit''"
| "sentinel_text CtxCanceled = ''context canceled''"
| "sentinel_text CtxDeadlineExceeded = ''context deadline exceeded''"
| "sentinel_text LlmProviderFatal = ''provider fatal''"
| "sentinel_text LlmContextOverflow = ''context overflow''"
| "sentinel_text FsNotExist = ''file does not exist''"
| "sentinel_text FsPermission = ''permission denied''"
| "sentinel_text SysENOTDIR = ''not a directory''"
| "sentinel_text SysEISDIR = ''is a directory''"

definition sentinel_err :: "sentinel \<Rightarrow> err" where
  "sentinel_err s = \<lparr>err_msg = sentinel_text s, err_chain = [s]\<rparr>"

lemma errors_is_wrap [simp]: "errors_is (wrap_err p e) s = errors_is e s"
  by (simp add: errors_is_def wrap_err_def)

lemma errors_is_sentinel [simp]: "errors_is (sentinel_err t) s \<longleftrightarrow> s = t"
  by (simp add: errors_is_def sentinel_err_def)

lemma errors_is_new [simp]: "\<not> errors_is (errors_new m) s"
  by (simp add: errors_is_def errors_new_def)

section \<open>Package strings\<close>

text \<open>\<open>strings_index s sub\<close> is the first byte offset of \<open>sub\<close> in \<open>s\<close>; \<open>None\<close> is Go's -1.\<close>

definition has_prefix :: "string \<Rightarrow> string \<Rightarrow> bool" where
  "has_prefix s p \<longleftrightarrow> take (length p) s = p"

definition has_suffix :: "string \<Rightarrow> string \<Rightarrow> bool" where
  "has_suffix s p \<longleftrightarrow> length p \<le> length s \<and> drop (length s - length p) s = p"

definition trim_prefix :: "string \<Rightarrow> string \<Rightarrow> string" where
  "trim_prefix s p = (if has_prefix s p then drop (length p) s else s)"

fun strings_index :: "string \<Rightarrow> string \<Rightarrow> nat option" where
  "strings_index [] sub = (if sub = [] then Some 0 else None)"
| "strings_index (c # s) sub =
     (if has_prefix (c # s) sub then Some 0 else map_option Suc (strings_index s sub))"

text \<open>
  \<open>replace_all\<close> and \<open>count_sub\<close> scan left to right without overlaps. The counter \<open>k\<close> is how many
  bytes of the last match are still to be skipped, so the recursion is structural. They are used
  with a non-empty \<open>old\<close> only.
\<close>

fun replace_from :: "nat \<Rightarrow> string \<Rightarrow> string \<Rightarrow> string \<Rightarrow> string" where
  "replace_from k old new [] = []"
| "replace_from (Suc k) old new (c # s) = replace_from k old new s"
| "replace_from 0 old new (c # s) =
     (if old \<noteq> [] \<and> has_prefix (c # s) old then new @ replace_from (length old - 1) old new s
      else c # replace_from 0 old new s)"

definition replace_all :: "string \<Rightarrow> string \<Rightarrow> string \<Rightarrow> string" where
  "replace_all s old new = replace_from 0 old new s"

fun count_from :: "nat \<Rightarrow> string \<Rightarrow> string \<Rightarrow> nat" where
  "count_from k sub [] = 0"
| "count_from (Suc k) sub (c # s) = count_from k sub s"
| "count_from 0 sub (c # s) =
     (if sub \<noteq> [] \<and> has_prefix (c # s) sub then Suc (count_from (length sub - 1) sub s)
      else count_from 0 sub s)"

definition strings_count :: "string \<Rightarrow> string \<Rightarrow> nat" where
  "strings_count s sub = count_from 0 sub s"

text \<open>\<open>split_on c s\<close> is \<^verbatim>\<open>strings.Split\<close> with a one-byte separator; never empty.\<close>

fun split_on :: "char \<Rightarrow> string \<Rightarrow> string list" where
  "split_on sep [] = [[]]"
| "split_on sep (c # s) =
     (if c = sep then [] # split_on sep s
      else (case split_on sep s of [] \<Rightarrow> [[c]] | x # xs \<Rightarrow> (c # x) # xs))"

fun strings_join :: "string list \<Rightarrow> string \<Rightarrow> string" where
  "strings_join [] sep = []"
| "strings_join [x] sep = x"
| "strings_join (x # y # xs) sep = x @ sep @ strings_join (y # xs) sep"

abbreviation newline :: char where
  "newline \<equiv> CHR 0x0A"

subsection \<open>Lemmas on prefixes, search and splitting\<close>

lemma has_prefix_Nil [simp]: "has_prefix s []"
  by (simp add: has_prefix_def)

lemma has_prefix_append [simp]: "has_prefix (p @ s) p"
  by (simp add: has_prefix_def)

lemma has_prefixE: "has_prefix s p \<Longrightarrow> \<exists>r. s = p @ r"
  by (metis append_take_drop_id has_prefix_def)

lemma has_prefix_Cons [simp]: "has_prefix (c # s) (d # p) \<longleftrightarrow> c = d \<and> has_prefix s p"
  by (auto simp: has_prefix_def)

lemma has_prefix_Nil_iff [simp]: "has_prefix [] p \<longleftrightarrow> p = []"
  by (auto simp: has_prefix_def)

lemma strings_index_Some:
  "strings_index s sub = Some i \<Longrightarrow>
     i + length sub \<le> length s \<and> take (length sub) (drop i s) = sub"
proof (induction s arbitrary: i)
  case Nil
  then show ?case by (auto split: if_splits)
next
  case (Cons c s)
  then show ?case
    by (auto simp: has_prefix_def split: if_splits dest: arg_cong [of _ _ length])
qed

lemma strings_index_None:
  "strings_index s sub = None \<Longrightarrow> take (length sub) (drop i s) \<noteq> sub"
proof (induction s arbitrary: i)
  case Nil
  then show ?case by (auto split: if_splits)
next
  case (Cons c s)
  then show ?case
    by (cases i) (auto simp: has_prefix_def split: if_splits)
qed

lemma strings_index_least:
  "strings_index s sub = Some i \<Longrightarrow> j < i \<Longrightarrow> take (length sub) (drop j s) \<noteq> sub"
proof (induction s arbitrary: i j)
  case Nil
  then show ?case by (auto split: if_splits)
next
  case (Cons c s)
  then show ?case
    by (cases j) (auto simp: has_prefix_def split: if_splits)
qed

lemma split_on_not_Nil [simp]: "split_on sep s \<noteq> []"
  by (induction s) (auto split: list.splits)

lemma join_split_on: "strings_join (split_on sep s) [sep] = s"
proof (induction s)
  case (Cons c s)
  obtain x xs where "split_on sep s = x # xs" by (cases "split_on sep s") auto
  with Cons show ?case by (cases xs) auto
qed simp

lemma split_on_no_sep: "x \<in> set (split_on sep s) \<Longrightarrow> sep \<notin> set x"
  by (induction s arbitrary: x) (auto split: list.splits if_splits)

lemma split_on_append_sep:
  "sep \<notin> set x \<Longrightarrow> split_on sep (x @ sep # s) = x # split_on sep s"
  by (induction x) auto

lemma split_on_single: "sep \<notin> set x \<Longrightarrow> split_on sep x = [x]"
  by (induction x) auto

lemma split_on_join:
  "xs \<noteq> [] \<Longrightarrow> \<forall>x \<in> set xs. sep \<notin> set x \<Longrightarrow> split_on sep (strings_join xs [sep]) = xs"
proof (induction xs "[sep]" rule: strings_join.induct)
  case (3 x y xs)
  then show ?case by (simp add: split_on_append_sep)
qed (auto simp: split_on_single)

lemma length_strings_join:
  "xs \<noteq> [] \<Longrightarrow>
     length (strings_join xs [sep]) = sum_list (map length xs) + (length xs - 1)"
  by (induction xs "[sep]" rule: strings_join.induct) auto

lemma strings_join_append:
  "xs \<noteq> [] \<Longrightarrow> ys \<noteq> [] \<Longrightarrow>
     strings_join (xs @ ys) sep = strings_join xs sep @ sep @ strings_join ys sep"
proof (induction xs sep rule: strings_join.induct)
  case (2 x sep)
  then show ?case by (cases ys) auto
qed auto

section \<open>Decimal rendering\<close>

text \<open>\<open>itoa\<close> is \<^verbatim>\<open>strconv.Itoa\<close> (and the verb \<^verbatim>\<open>%d\<close>).\<close>

definition digit_char :: "nat \<Rightarrow> char" where
  "digit_char d = char_of (48 + d)"

fun itoa_nat :: "nat \<Rightarrow> string" where
  "itoa_nat n = (if n < 10 then [digit_char n] else itoa_nat (n div 10) @ [digit_char (n mod 10)])"

declare itoa_nat.simps [simp del]

definition itoa :: "int \<Rightarrow> string" where
  "itoa i = (if i < 0 then CHR ''-'' # itoa_nat (nat (- i)) else itoa_nat (nat i))"

definition is_digit :: "char \<Rightarrow> bool" where
  "is_digit c \<longleftrightarrow> 48 \<le> (of_char c :: nat) \<and> (of_char c :: nat) \<le> 57"

definition digit_val :: "char \<Rightarrow> nat" where
  "digit_val c = of_char c - 48"

definition nat_of_digits :: "string \<Rightarrow> nat" where
  "nat_of_digits ds = foldl (\<lambda>n c. 10 * n + digit_val c) 0 ds"

lemma of_char_digit_char [simp]: "d < 10 \<Longrightarrow> (of_char (digit_char d) :: nat) = 48 + d"
  by (simp add: digit_char_def)

lemma digit_val_digit_char [simp]: "d < 10 \<Longrightarrow> digit_val (digit_char d) = d"
  by (simp add: digit_val_def)

lemma is_digit_digit_char [simp]: "d < 10 \<Longrightarrow> is_digit (digit_char d)"
  by (simp add: is_digit_def)

lemma nat_of_digits_snoc: "nat_of_digits (ds @ [c]) = 10 * nat_of_digits ds + digit_val c"
  by (simp add: nat_of_digits_def)

lemma nat_of_digits_itoa [simp]: "nat_of_digits (itoa_nat n) = n"
proof (induction n rule: itoa_nat.induct)
  case (1 n)
  then show ?case
    by (subst itoa_nat.simps) (simp add: nat_of_digits_snoc, simp add: nat_of_digits_def)
qed

lemma itoa_nat_digits: "\<forall>c \<in> set (itoa_nat n). is_digit c"
proof (induction n rule: itoa_nat.induct)
  case (1 n)
  then show ?case by (subst itoa_nat.simps) auto
qed

lemma itoa_nat_not_Nil [simp]: "itoa_nat n \<noteq> []"
  by (subst itoa_nat.simps) simp

lemma digit_char_eq_iff: "d < 10 \<Longrightarrow> e < 10 \<Longrightarrow> digit_char d = digit_char e \<longleftrightarrow> d = e"
  by (metis digit_val_digit_char)

lemma digit_char_0: "digit_char 0 = CHR ''0''"
  by code_simp

lemma itoa_nat_no_leading_zero: "n \<noteq> 0 \<Longrightarrow> hd (itoa_nat n) \<noteq> CHR ''0''"
proof (induction n rule: itoa_nat.induct)
  case (1 n)
  show ?case
  proof (cases "n < 10")
    case True
    with 1 show ?thesis
      by (simp add: itoa_nat.simps digit_char_eq_iff flip: digit_char_0)
  next
    case False
    with 1 show ?thesis by (subst itoa_nat.simps) simp
  qed
qed

end
