(* ===== verification/Go_Utf8.thy ===== *)
theory Go_Utf8
  imports Go_Prelude
begin

text \<open>
  Go's package \<^verbatim>\<open>unicode/utf8\<close> on byte strings: \<open>decode_rune\<close> is \<^verbatim>\<open>utf8.DecodeRuneInString\<close> (the
  rune and how many bytes it takes; an ill-formed sequence is \<open>rune_error\<close> with width 1),
  \<open>encode_rune\<close> is \<^verbatim>\<open>utf8.EncodeRune\<close>. \<open>runes\<close> cuts a string into its runes with the bytes of each,
  as \<^verbatim>\<open>for range\<close>, \<^verbatim>\<open>strings.Map\<close>, \<^verbatim>\<open>strings.TrimSpace\<close> and the JSON encoder walk it.
\<close>

abbreviation byte :: "char \<Rightarrow> nat" where
  "byte c \<equiv> of_char c"

definition rune_error :: nat where
  "rune_error = 0xFFFD"

definition is_cont :: "char \<Rightarrow> bool" where
  "is_cont c \<longleftrightarrow> 0x80 \<le> byte c \<and> byte c \<le> 0xBF"

text \<open>The accepted range of the second byte, by first byte (the acceptRanges table).\<close>

definition second_lo :: "nat \<Rightarrow> nat" where
  "second_lo b = (if b = 0xE0 then 0xA0 else if b = 0xF0 then 0x90 else 0x80)"

definition second_hi :: "nat \<Rightarrow> nat" where
  "second_hi b = (if b = 0xED then 0x9F else if b = 0xF4 then 0x8F else 0xBF)"

definition ok_second :: "char \<Rightarrow> char \<Rightarrow> bool" where
  "ok_second c0 c1 \<longleftrightarrow> second_lo (byte c0) \<le> byte c1 \<and> byte c1 \<le> second_hi (byte c0)"

fun decode2 :: "char \<Rightarrow> string \<Rightarrow> nat \<times> nat" where
  "decode2 c0 (c1 # s) =
     (if ok_second c0 c1 then ((byte c0 - 0xC0) * 64 + (byte c1 - 0x80), 2) else (rune_error, 1))"
| "decode2 c0 [] = (rune_error, 1)"

fun decode3 :: "char \<Rightarrow> string \<Rightarrow> nat \<times> nat" where
  "decode3 c0 (c1 # c2 # s) =
     (if ok_second c0 c1 \<and> is_cont c2
      then ((byte c0 - 0xE0) * 4096 + (byte c1 - 0x80) * 64 + (byte c2 - 0x80), 3)
      else (rune_error, 1))"
| "decode3 c0 s = (rune_error, 1)"

fun decode4 :: "char \<Rightarrow> string \<Rightarrow> nat \<times> nat" where
  "decode4 c0 (c1 # c2 # c3 # s) =
     (if ok_second c0 c1 \<and> is_cont c2 \<and> is_cont c3
      then ((byte c0 - 0xF0) * 262144 + (byte c1 - 0x80) * 4096 + (byte c2 - 0x80) * 64
              + (byte c3 - 0x80), 4)
      else (rune_error, 1))"
| "decode4 c0 s = (rune_error, 1)"

fun decode_rune :: "string \<Rightarrow> nat \<times> nat" where
  "decode_rune [] = (rune_error, 0)"
| "decode_rune (c0 # s) =
     (if byte c0 < 0x80 then (byte c0, 1)
      else if 0xC2 \<le> byte c0 \<and> byte c0 \<le> 0xDF then decode2 c0 s
      else if 0xE0 \<le> byte c0 \<and> byte c0 \<le> 0xEF then decode3 c0 s
      else if 0xF0 \<le> byte c0 \<and> byte c0 \<le> 0xF4 then decode4 c0 s
      else (rune_error, 1))"

abbreviation chr :: "nat \<Rightarrow> char" where
  "chr n \<equiv> char_of n"

definition encode_rune :: "nat \<Rightarrow> string" where
  "encode_rune r =
     (if r \<le> 0x7F then [chr r]
      else if r \<le> 0x7FF then [chr (0xC0 + r div 64), chr (0x80 + r mod 64)]
      else if 0x10FFFF < r \<or> (0xD800 \<le> r \<and> r \<le> 0xDFFF) then [chr 0xEF, chr 0xBF, chr 0xBD]
      else if r \<le> 0xFFFF
        then [chr (0xE0 + r div 4096), chr (0x80 + r div 64 mod 64), chr (0x80 + r mod 64)]
      else [chr (0xF0 + r div 262144), chr (0x80 + r div 4096 mod 64), chr (0x80 + r div 64 mod 64),
            chr (0x80 + r mod 64)])"

declare decode_rune.simps [simp del]

section \<open>The width of a rune\<close>

lemma decode2_width: "snd (decode2 c s) = 1 \<or> snd (decode2 c s) = 2 \<and> s \<noteq> []"
  by (cases s) auto

lemma decode3_width: "snd (decode3 c s) = 1 \<or> snd (decode3 c s) = 3 \<and> 2 \<le> length s"
  by (induction c s rule: decode3.induct) auto

lemma decode4_width: "snd (decode4 c s) = 1 \<or> snd (decode4 c s) = 4 \<and> 3 \<le> length s"
  by (induction c s rule: decode4.induct) auto

lemma decode_rune_width:
  "s \<noteq> [] \<Longrightarrow> 1 \<le> snd (decode_rune s) \<and> snd (decode_rune s) \<le> length s"
proof (cases s)
  case (Cons c t)
  then show ?thesis
    using decode2_width [of c t] decode3_width [of c t] decode4_width [of c t]
    by (auto simp: decode_rune.simps Suc_le_eq numeral_eq_Suc)
qed simp

section \<open>Cutting a string into runes\<close>

function runes :: "string \<Rightarrow> (nat \<times> string) list" where
  "runes s =
     (if s = [] then []
      else (fst (decode_rune s), take (snd (decode_rune s)) s) # runes (drop (snd (decode_rune s)) s))"
  by pat_completeness auto
termination
proof (relation "measure length")
  fix s :: string
  assume "s \<noteq> []"
  then show "(drop (snd (decode_rune s)) s, s) \<in> measure length"
    using decode_rune_width [of s] by simp
qed simp

declare runes.simps [simp del]

lemma runes_Nil [simp]: "runes [] = []"
  by (simp add: runes.simps)

lemma runes_concat: "concat (map snd (runes s)) = s"
proof (induction s rule: runes.induct)
  case (1 s)
  then show ?case by (cases "s = []") (simp_all add: runes.simps [of s])
qed

text \<open>A chunk is ill-formed when it is \<open>rune_error\<close> of one byte.\<close>

definition bad_chunk :: "nat \<times> string \<Rightarrow> bool" where
  "bad_chunk c \<longleftrightarrow> fst c = rune_error \<and> length (snd c) = 1"

definition valid_utf8 :: "string \<Rightarrow> bool" where
  "valid_utf8 s \<longleftrightarrow> (\<forall>c \<in> set (runes s). \<not> bad_chunk c)"

lemma runes_Cons_ascii:
  "byte c < 0x80 \<Longrightarrow> runes (c # s) = (byte c, [c]) # runes s"
  by (simp add: runes.simps [of "c # s"] decode_rune.simps)

lemma valid_utf8_Nil [simp]: "valid_utf8 []"
  by (simp add: valid_utf8_def)

lemma valid_utf8_Cons_ascii:
  "byte c < 0x80 \<Longrightarrow> valid_utf8 (c # s) = valid_utf8 s"
  by (simp add: valid_utf8_def runes_Cons_ascii bad_chunk_def rune_error_def)

lemma valid_utf8_ascii: "\<forall>c \<in> set s. byte c < 0x80 \<Longrightarrow> valid_utf8 s"
  by (induction s) (auto simp: valid_utf8_Cons_ascii)

section \<open>Decoding and encoding agree\<close>

lemma byte_less [simp]: "byte c < 256"
  by (simp add: of_char_def)

lemma chr_byte: "byte c = n \<Longrightarrow> chr n = c"
  by auto

lemma div_mod_64 [simp]:
  "z < 64 \<Longrightarrow> (64 * a + z) div 64 = (a::nat)" "z < 64 \<Longrightarrow> (64 * a + z) mod 64 = (z::nat)"
  by simp_all

lemma div_4096: "(n::nat) div 4096 = n div 64 div 64"
  by (simp add: div_mult2_eq [symmetric])

lemma div_262144: "(n::nat) div 262144 = n div 64 div 64 div 64"
  by (simp add: div_mult2_eq [symmetric])

lemma encode_decode2:
  assumes "0xC2 \<le> byte c0" "byte c0 \<le> 0xDF" "ok_second c0 c1"
  shows "encode_rune ((byte c0 - 0xC0) * 64 + (byte c1 - 0x80)) = [c0, c1]"
proof -
  define x y where xy: "x = byte c0 - 0xC0" "y = byte c1 - 0x80"
  have b: "byte c0 = 0xC0 + x" "byte c1 = 0x80 + y" "2 \<le> x" "x \<le> 31" "y < 64"
    using assms by (auto simp: xy ok_second_def second_lo_def second_hi_def split: if_splits)
  have "(x * 64 + y) div 64 = x" "(x * 64 + y) mod 64 = y" "0x7F < x * 64 + y" "x * 64 + y \<le> 0x7FF"
    using b(3-5) div_mod_64 [of y x] by (simp_all add: mult.commute)
  then have "encode_rune (x * 64 + y) = [chr (0xC0 + x), chr (0x80 + y)]"
    by (simp add: encode_rune_def)
  also have "\<dots> = [c0, c1]" using b by (simp add: chr_byte)
  finally show ?thesis by (simp add: xy)
qed

lemma encode_decode3:
  assumes "0xE0 \<le> byte c0" "byte c0 \<le> 0xEF" "ok_second c0 c1" "is_cont c2"
  shows "encode_rune ((byte c0 - 0xE0) * 4096 + (byte c1 - 0x80) * 64 + (byte c2 - 0x80)) = [c0, c1, c2]"
proof -
  define x y z where xyz: "x = byte c0 - 0xE0" "y = byte c1 - 0x80" "z = byte c2 - 0x80"
  let ?r = "x * 4096 + y * 64 + z"
  have b: "byte c0 = 0xE0 + x" "byte c1 = 0x80 + y" "byte c2 = 0x80 + z" "x \<le> 15" "y < 64" "z < 64"
    "x = 0 \<Longrightarrow> 32 \<le> y" "x = 13 \<Longrightarrow> y < 32"
    using assms
    by (auto simp: xyz ok_second_def second_lo_def second_hi_def is_cont_def split: if_splits)
  have e: "?r = 64 * (64 * x + y) + z" by simp
  have d: "?r div 4096 = x" "?r div 64 = 64 * x + y" "?r mod 64 = z" "(64 * x + y) mod 64 = y"
    unfolding e div_4096 using b(5,6) by (simp_all only: div_mod_64)
  have r1: "0x7FF < ?r" "?r \<le> 0xFFFF" using b(4-8) by linarith+
  have "x \<le> 12 \<or> x = 13 \<or> 14 \<le> x" by linarith
  then have r2: "\<not> (0xD800 \<le> ?r \<and> ?r \<le> 0xDFFF)" using b(5-8) by (elim disjE) linarith+
  note r = r1 r2
  have "encode_rune ?r = [chr (0xE0 + x), chr (0x80 + y), chr (0x80 + z)]"
    using r d by (simp add: encode_rune_def)
  also have "\<dots> = [c0, c1, c2]"
    using b by (simp add: chr_byte)
  finally show ?thesis by (simp add: xyz)
qed
lemma encode_decode4:
  assumes "0xF0 \<le> byte c0" "byte c0 \<le> 0xF4" "ok_second c0 c1" "is_cont c2" "is_cont c3"
  shows "encode_rune ((byte c0 - 0xF0) * 262144 + (byte c1 - 0x80) * 4096 + (byte c2 - 0x80) * 64
           + (byte c3 - 0x80)) = [c0, c1, c2, c3]"
proof -
  define x y z w where xyz: "x = byte c0 - 0xF0" "y = byte c1 - 0x80" "z = byte c2 - 0x80" "w = byte c3 - 0x80"
  let ?r = "x * 262144 + y * 4096 + z * 64 + w"
  have b: "byte c0 = 0xF0 + x" "byte c1 = 0x80 + y" "byte c2 = 0x80 + z" "byte c3 = 0x80 + w"
    "x \<le> 4" "y < 64" "z < 64" "w < 64" "x = 0 \<Longrightarrow> 16 \<le> y" "x = 4 \<Longrightarrow> y < 16"
    using assms
    by (auto simp: xyz ok_second_def second_lo_def second_hi_def is_cont_def split: if_splits)
  have e: "?r = 64 * (64 * (64 * x + y) + z) + w" by simp
  have d: "?r div 262144 = x" "?r div 4096 = 64 * x + y" "?r div 64 = 64 * (64 * x + y) + z"
    "?r mod 64 = w" "(64 * x + y) mod 64 = y" "(64 * (64 * x + y) + z) mod 64 = z"
    unfolding e div_4096 div_262144 using b(6-8) by (simp_all only: div_mod_64)
  have r: "0xFFFF < ?r" "?r \<le> 0x10FFFF"
    using b(5-10) by linarith+
  have "encode_rune ?r = [chr (0xF0 + x), chr (0x80 + y), chr (0x80 + z), chr (0x80 + w)]"
    using r d by (simp add: encode_rune_def)
  also have "\<dots> = [c0, c1, c2, c3]"
    using b by (simp add: chr_byte)
  finally show ?thesis by (simp add: xyz)
qed


lemma decode2_ok:
  "decode2 c s = (r, n) \<Longrightarrow> \<not> (r = rune_error \<and> n = 1) \<Longrightarrow>
     \<exists>c1 t. s = c1 # t \<and> n = 2 \<and> ok_second c c1 \<and> r = (byte c - 0xC0) * 64 + (byte c1 - 0x80)"
  by (cases s) (simp_all split: if_splits)

lemma decode3_ok:
  "decode3 c s = (r, n) \<Longrightarrow> \<not> (r = rune_error \<and> n = 1) \<Longrightarrow>
     \<exists>c1 c2 t. s = c1 # c2 # t \<and> n = 3 \<and> ok_second c c1 \<and> is_cont c2 \<and>
       r = (byte c - 0xE0) * 4096 + (byte c1 - 0x80) * 64 + (byte c2 - 0x80)"
  by (induction c s rule: decode3.induct) (simp_all split: if_splits)

lemma decode4_ok:
  "decode4 c s = (r, n) \<Longrightarrow> \<not> (r = rune_error \<and> n = 1) \<Longrightarrow>
     \<exists>c1 c2 c3 t. s = c1 # c2 # c3 # t \<and> n = 4 \<and> ok_second c c1 \<and> is_cont c2 \<and> is_cont c3 \<and>
       r = (byte c - 0xF0) * 262144 + (byte c1 - 0x80) * 4096 + (byte c2 - 0x80) * 64 + (byte c3 - 0x80)"
  by (induction c s rule: decode4.induct) (simp_all split: if_splits)

text \<open>The shapes of a well-formed rune at the front of a string.\<close>

lemma decode_rune_cases:
  assumes "decode_rune s = (r, n)" "s \<noteq> []" "\<not> (r = rune_error \<and> n = 1)"
  obtains (one) c t where "s = c # t" "byte c < 0x80" "r = byte c" "n = 1"
  | (two) c0 c1 t where "s = c0 # c1 # t" "0xC2 \<le> byte c0" "byte c0 \<le> 0xDF" "ok_second c0 c1" "n = 2"
      "r = (byte c0 - 0xC0) * 64 + (byte c1 - 0x80)"
  | (three) c0 c1 c2 t where "s = c0 # c1 # c2 # t" "0xE0 \<le> byte c0" "byte c0 \<le> 0xEF"
      "ok_second c0 c1" "is_cont c2" "n = 3"
      "r = (byte c0 - 0xE0) * 4096 + (byte c1 - 0x80) * 64 + (byte c2 - 0x80)"
  | (four) c0 c1 c2 c3 t where "s = c0 # c1 # c2 # c3 # t" "0xF0 \<le> byte c0" "byte c0 \<le> 0xF4"
      "ok_second c0 c1" "is_cont c2" "is_cont c3" "n = 4"
      "r = (byte c0 - 0xF0) * 262144 + (byte c1 - 0x80) * 4096 + (byte c2 - 0x80) * 64 + (byte c3 - 0x80)"
proof (cases s)
  case (Cons c t)
  consider "byte c < 0x80" "(r, n) = (byte c, 1)"
    | "0xC2 \<le> byte c" "byte c \<le> 0xDF" "decode2 c t = (r, n)"
    | "0xE0 \<le> byte c" "byte c \<le> 0xEF" "decode3 c t = (r, n)"
    | "0xF0 \<le> byte c" "byte c \<le> 0xF4" "decode4 c t = (r, n)"
    using assms(1,3) unfolding Cons decode_rune.simps
    by (auto simp only: split: if_splits)
  then show ?thesis
  proof cases
    case 1
    then show ?thesis using one Cons by blast
  next
    case 2
    then show ?thesis using two Cons decode2_ok [OF 2(3) assms(3)] by blast
  next
    case 3
    then show ?thesis using three Cons decode3_ok [OF 3(3) assms(3)] by blast
  next
    case 4
    then show ?thesis using four Cons decode4_ok [OF 4(3) assms(3)] by blast
  qed
qed (use assms in simp)

lemma encode_decode:
  assumes "decode_rune s = (r, n)" "s \<noteq> []" "\<not> (r = rune_error \<and> n = 1)"
  shows "encode_rune r = take n s"
  using assms
proof (cases rule: decode_rune_cases)
  case one
  then show ?thesis by (simp add: encode_rune_def)
next
  case two
  then show ?thesis by (simp only: encode_decode2) simp
next
  case three
  then show ?thesis by (simp only: encode_decode3) simp
next
  case four
  then show ?thesis by (simp only: encode_decode4) simp
qed

lemma decode_rune_append:
  assumes "decode_rune s = (r, n)" "s \<noteq> []" "\<not> (r = rune_error \<and> n = 1)"
  shows "decode_rune (take n s @ t) = (r, n)"
  using assms by (cases rule: decode_rune_cases) (simp_all add: decode_rune.simps)

lemma runes_step:
  assumes "s \<noteq> []" "decode_rune s = (r, n)"
  shows "runes s = (r, take n s) # runes (drop n s)"
  using assms by (simp add: runes.simps [of s])

text \<open>A well-formed string starts with a well-formed rune, and the rest is well-formed.\<close>

lemma valid_utf8_step:
  assumes "valid_utf8 s" "s \<noteq> []" "decode_rune s = (r, n)"
  shows "\<not> (r = rune_error \<and> n = 1)" "valid_utf8 (drop n s)" "encode_rune r = take n s" "1 \<le> n"
    "n \<le> length s"
proof -
  have n: "1 \<le> n" "n \<le> length s"
    using decode_rune_width [OF assms(2)] assms(3) by simp_all
  show nb: "\<not> (r = rune_error \<and> n = 1)"
    using assms n by (auto simp: valid_utf8_def runes_step bad_chunk_def)
  show "valid_utf8 (drop n s)"
    using assms by (auto simp: valid_utf8_def runes_step)
  show "encode_rune r = take n s"
    using encode_decode assms(2,3) nb by blast
  show "1 \<le> n" "n \<le> length s" by (fact n)+
qed

section \<open>Walking the runes of a string\<close>

text \<open>
  \<open>strings_map f s\<close> is \<^verbatim>\<open>strings.Map\<close>: \<open>None\<close> drops the rune (Go's negative result), and an
  ill-formed byte is mapped as \<open>rune_error\<close> and written back in its three-byte encoding.
\<close>

definition map_chunk :: "(nat \<Rightarrow> nat option) \<Rightarrow> nat \<times> string \<Rightarrow> string" where
  "map_chunk f c = (case f (fst c) of None \<Rightarrow> [] | Some r \<Rightarrow> encode_rune r)"

definition strings_map :: "(nat \<Rightarrow> nat option) \<Rightarrow> string \<Rightarrow> string" where
  "strings_map f s = concat (map (map_chunk f) (runes s))"

definition is_space :: "nat \<Rightarrow> bool" where
  "is_space r \<longleftrightarrow> r \<in> {0x09, 0x0A, 0x0B, 0x0C, 0x0D, 0x20, 0x85, 0xA0, 0x1680, 0x2028, 0x2029, 0x202F,
     0x205F, 0x3000} \<or> (0x2000 \<le> r \<and> r \<le> 0x200A)"

definition trim_left :: "string \<Rightarrow> string" where
  "trim_left s = concat (map snd (dropWhile (\<lambda>c. is_space (fst c)) (runes s)))"

definition trim_right :: "string \<Rightarrow> string" where
  "trim_right s = concat (map snd (rev (dropWhile (\<lambda>c. is_space (fst c)) (rev (runes s)))))"

definition trim_space :: "string \<Rightarrow> string" where
  "trim_space s = trim_right (trim_left s)"

lemma trim_right_prefix: "\<exists>t. s = trim_right s @ t"
proof -
  let ?P = "\<lambda>c::nat \<times> string. is_space (fst c)"
  have "runes s = rev (takeWhile ?P (rev (runes s)) @ dropWhile ?P (rev (runes s)))"
    by simp
  then have "concat (map snd (runes s))
      = trim_right s @ concat (map snd (rev (takeWhile ?P (rev (runes s)))))"
    unfolding trim_right_def by (metis concat_append map_append rev_append)
  then show ?thesis by (auto simp: runes_concat)
qed

lemma length_trim_right: "length (trim_right s) \<le> length s"
  using trim_right_prefix [of s] by (metis le_add1 length_append)

end
