(* ===== verification/Go_Json.thy ===== *)
theory Go_Json
  imports Go_Utf8
begin

text \<open>
  Go's package \<^verbatim>\<open>encoding/json\<close>, as far as the program uses it: the compact encoder with its HTML
  escaping (\<open>json_print\<close>), the decoder into a syntax tree (\<open>json_unmarshal\<close>), the decoding of
  tree nodes into Go values of the field types the program declares, and base64 for byte slices.
  The tree keeps number literals as text, as \<^verbatim>\<open>json.RawMessage\<close> would. The decoder's limit on
  nesting (10000 levels) is not modelled.
\<close>

datatype json =
    JNull | JBool bool | JNum string | JStr string | JArr "json list"
  | JObj "(string \<times> json) list"

section \<open>Strings\<close>

definition hex_char :: "nat \<Rightarrow> char" where
  "hex_char d = (if d < 10 then char_of (48 + d) else char_of (87 + d))"

definition hex_val :: "char \<Rightarrow> nat option" where
  "hex_val c =
     (if 48 \<le> byte c \<and> byte c \<le> 57 then Some (byte c - 48)
      else if 97 \<le> byte c \<and> byte c \<le> 102 then Some (byte c - 87)
      else if 65 \<le> byte c \<and> byte c \<le> 70 then Some (byte c - 55) else None)"

abbreviation backslash :: char where
  "backslash \<equiv> CHR 0x5C"

abbreviation dquote :: char where
  "dquote \<equiv> CHR 0x22"

definition u_escape :: "nat \<Rightarrow> string" where
  "u_escape r = [backslash, CHR ''u'', hex_char (r div 4096 mod 16), hex_char (r div 256 mod 16),
     hex_char (r div 16 mod 16), hex_char (r mod 16)]"

text \<open>\<open>esc_byte\<close> is the encoder's treatment of an ASCII byte, \<open>esc_chunk\<close> of a rune.\<close>

definition esc_byte :: "char \<Rightarrow> string" where
  "esc_byte c =
     (if byte c = 0x5C \<or> byte c = 0x22 then [backslash, c]
      else if byte c = 0x08 then [backslash, CHR ''b'']
      else if byte c = 0x0C then [backslash, CHR ''f'']
      else if byte c = 0x0A then [backslash, CHR ''n'']
      else if byte c = 0x0D then [backslash, CHR ''r'']
      else if byte c = 0x09 then [backslash, CHR ''t'']
      else if byte c < 0x20 \<or> byte c = 0x3C \<or> byte c = 0x3E \<or> byte c = 0x26 then u_escape (byte c)
      else [c])"

definition esc_chunk :: "nat \<times> string \<Rightarrow> string" where
  "esc_chunk c =
     (if fst c < 0x80 then concat (map esc_byte (snd c))
      else if bad_chunk c then u_escape rune_error
      else if fst c = 0x2028 \<or> fst c = 0x2029 then u_escape (fst c)
      else snd c)"

definition json_string :: "string \<Rightarrow> string" where
  "json_string s = dquote # concat (map esc_chunk (runes s)) @ [dquote]"

text \<open>The decoder's side: \<open>get_u4\<close> reads four hex digits, \<open>parse_esc\<close> what follows a backslash.\<close>

fun get_u4 :: "string \<Rightarrow> (nat \<times> string) option" where
  "get_u4 (a # b # c # d # t) =
     (case (hex_val a, hex_val b, hex_val c, hex_val d) of
        (Some w, Some x, Some y, Some z) \<Rightarrow> Some (w * 4096 + x * 256 + y * 16 + z, t)
      | _ \<Rightarrow> None)"
| "get_u4 _ = None"

definition is_surrogate :: "nat \<Rightarrow> bool" where
  "is_surrogate r \<longleftrightarrow> 0xD800 \<le> r \<and> r \<le> 0xDFFF"

fun low_surrogate :: "string \<Rightarrow> (nat \<times> string) option" where
  "low_surrogate (b # u # t) =
     (if b = backslash \<and> u = CHR ''u'' then
        (case get_u4 t of
           Some (r, t') \<Rightarrow> if 0xDC00 \<le> r \<and> r \<le> 0xDFFF then Some (r, t') else None
         | None \<Rightarrow> None)
      else None)"
| "low_surrogate _ = None"

definition parse_u :: "string \<Rightarrow> (string \<times> string) option" where
  "parse_u t =
     (case get_u4 t of
        None \<Rightarrow> None
      | Some (r, t') \<Rightarrow>
          if is_surrogate r then
            (case (if r < 0xDC00 then low_surrogate t' else None) of
               Some (r2, t'') \<Rightarrow> Some (encode_rune ((r - 0xD800) * 1024 + (r2 - 0xDC00) + 0x10000), t'')
             | None \<Rightarrow> Some (encode_rune rune_error, t'))
          else Some (encode_rune r, t'))"

fun parse_esc :: "string \<Rightarrow> (string \<times> string) option" where
  "parse_esc [] = None"
| "parse_esc (c # t) =
     (if c = dquote \<or> c = backslash \<or> c = CHR ''/'' then Some ([c], t)
      else if c = CHR ''b'' then Some ([chr 0x08], t)
      else if c = CHR ''f'' then Some ([chr 0x0C], t)
      else if c = CHR ''n'' then Some ([chr 0x0A], t)
      else if c = CHR ''r'' then Some ([chr 0x0D], t)
      else if c = CHR ''t'' then Some ([chr 0x09], t)
      else if c = CHR ''u'' then parse_u t
      else None)"

lemma get_u4_length: "get_u4 t = Some (r, t') \<Longrightarrow> length t' + 4 = length t"
  by (induction t rule: get_u4.induct) (auto split: option.splits)

lemma low_surrogate_length: "low_surrogate t = Some (r, t') \<Longrightarrow> length t' < length t"
  by (induction t rule: low_surrogate.induct)
    (auto dest: get_u4_length split: if_splits option.splits prod.splits)

lemma parse_u_length: "parse_u t = Some (b, t') \<Longrightarrow> length t' < length t"
  by (auto simp: parse_u_def dest!: get_u4_length low_surrogate_length
      split: option.splits prod.splits if_splits)

lemma parse_esc_length: "parse_esc t = Some (b, t') \<Longrightarrow> length t' < length t"
  by (cases t) (auto dest: parse_u_length split: if_splits)

text \<open>\<open>parse_str\<close> reads a string literal after its opening quote: the value and what follows.\<close>

function parse_str :: "string \<Rightarrow> (string \<times> string) option" where
  "parse_str [] = None"
| "parse_str (c # t) =
     (if c = dquote then Some ([], t)
      else if c = backslash then
        (case parse_esc t of
           None \<Rightarrow> None
         | Some (b, t') \<Rightarrow> map_option (\<lambda>(x, r). (b @ x, r)) (parse_str t'))
      else if byte c < 0x20 then None
      else map_option (\<lambda>(x, r). (encode_rune (fst (decode_rune (c # t))) @ x, r))
             (parse_str (drop (snd (decode_rune (c # t))) (c # t))))"
  by pat_completeness auto
termination
proof (relation "measure length")
  fix c t p b t'
  assume "parse_esc t = Some p" "(b, t') = p"
  then show "(t', c # t) \<in> measure length" using parse_esc_length by fastforce
next
  fix c :: char and t :: string
  show "(drop (snd (decode_rune (c # t))) (c # t), c # t) \<in> measure length"
    using decode_rune_width [of "c # t"] by simp
qed simp

declare parse_str.simps [simp del]

section \<open>Numbers\<close>

definition digits_of :: "string \<Rightarrow> string \<times> string" where
  "digits_of s = (takeWhile is_digit s, dropWhile is_digit s)"

definition num_int :: "string \<Rightarrow> (string \<times> string) option" where
  "num_int s =
     (case s of [] \<Rightarrow> None
      | c # t \<Rightarrow> if c = CHR ''0'' then Some ([c], t)
                else if is_digit c then Some (digits_of s) else None)"

definition num_frac :: "string \<Rightarrow> (string \<times> string) option" where
  "num_frac s =
     (case s of [] \<Rightarrow> Some ([], s)
      | c # t \<Rightarrow> if c = CHR ''.'' then
                   (case digits_of t of (ds, r) \<Rightarrow> if ds = [] then None else Some (c # ds, r))
                 else Some ([], s))"

definition num_sign :: "string \<Rightarrow> string \<times> string" where
  "num_sign s =
     (case s of [] \<Rightarrow> ([], s)
      | c # t \<Rightarrow> if c = CHR ''+'' \<or> c = CHR ''-'' then ([c], t) else ([], s))"

definition num_exp :: "string \<Rightarrow> (string \<times> string) option" where
  "num_exp s =
     (case s of [] \<Rightarrow> Some ([], s)
      | c # t \<Rightarrow> if c = CHR ''e'' \<or> c = CHR ''E'' then
                   (case num_sign t of (sg, t') \<Rightarrow>
                     (case digits_of t' of (ds, r) \<Rightarrow> if ds = [] then None else Some (c # sg @ ds, r)))
                 else Some ([], s))"

definition num_minus :: "string \<Rightarrow> string \<times> string" where
  "num_minus s =
     (case s of [] \<Rightarrow> ([], s) | c # t \<Rightarrow> if c = CHR ''-'' then ([c], t) else ([], s))"

definition parse_num :: "string \<Rightarrow> (string \<times> string) option" where
  "parse_num s =
     (case num_minus s of (m, s0) \<Rightarrow>
      (case num_int s0 of None \<Rightarrow> None
       | Some (i, s1) \<Rightarrow>
         (case num_frac s1 of None \<Rightarrow> None
          | Some (f, s2) \<Rightarrow>
            (case num_exp s2 of None \<Rightarrow> None
             | Some (e, s3) \<Rightarrow> Some (m @ i @ f @ e, s3)))))"

section \<open>Values\<close>

definition is_ws :: "char \<Rightarrow> bool" where
  "is_ws c \<longleftrightarrow> byte c = 0x20 \<or> byte c = 0x09 \<or> byte c = 0x0A \<or> byte c = 0x0D"

abbreviation skip_ws :: "string \<Rightarrow> string" where
  "skip_ws s \<equiv> dropWhile is_ws s"

text \<open>
  The printer. The three functions print a value, the elements of an array and the members of an
  object; \<^verbatim>\<open>json.Marshal\<close> of a Go map has its keys sorted, which the callers' literal lists are.
\<close>

function json_print :: "json \<Rightarrow> string"
  and print_elems :: "json list \<Rightarrow> string"
  and print_members :: "(string \<times> json) list \<Rightarrow> string" where
  "json_print JNull = ''null''"
| "json_print (JBool b) = (if b then ''true'' else ''false'')"
| "json_print (JNum l) = l"
| "json_print (JStr s) = json_string s"
| "json_print (JArr vs) = CHR ''['' # print_elems vs @ '']''"
| "json_print (JObj ms) = CHR ''{'' # print_members ms @ ''}''"
| "print_elems [] = []"
| "print_elems (v # vs) = json_print v @ (if vs = [] then [] else CHR '','' # print_elems vs)"
| "print_members [] = []"
| "print_members ((k, v) # ms) =
     json_string k @ '':'' @ json_print v @ (if ms = [] then [] else CHR '','' # print_members ms)"
  by pat_completeness auto
termination
  by (relation "measure (case_sum size
        (case_sum (size_list size) (size_list (size_prod (\<lambda>_. 0) size))))") auto

text \<open>The decoder, with fuel; \<open>json_unmarshal\<close> supplies enough (see \<open>parse_fuel\<close>).\<close>

fun parse_value :: "nat \<Rightarrow> string \<Rightarrow> (json \<times> string) option"
  and parse_elems :: "nat \<Rightarrow> string \<Rightarrow> (json list \<times> string) option"
  and parse_members :: "nat \<Rightarrow> string \<Rightarrow> ((string \<times> json) list \<times> string) option" where
  "parse_value 0 s = None"
| "parse_value (Suc f) s =
     (case skip_ws s of
        [] \<Rightarrow> None
      | c # t \<Rightarrow>
          if c = dquote then map_option (\<lambda>(x, r). (JStr x, r)) (parse_str t)
          else if c = CHR ''['' then
            (case skip_ws t of
               [] \<Rightarrow> None
             | d # u \<Rightarrow> if d = CHR '']'' then Some (JArr [], u)
                       else map_option (\<lambda>(x, r). (JArr x, r)) (parse_elems f t))
          else if c = CHR ''{'' then
            (case skip_ws t of
               [] \<Rightarrow> None
             | d # u \<Rightarrow> if d = CHR ''}'' then Some (JObj [], u)
                       else map_option (\<lambda>(x, r). (JObj x, r)) (parse_members f t))
          else if has_prefix (c # t) ''null'' then Some (JNull, drop 4 (c # t))
          else if has_prefix (c # t) ''true'' then Some (JBool True, drop 4 (c # t))
          else if has_prefix (c # t) ''false'' then Some (JBool False, drop 5 (c # t))
          else map_option (\<lambda>(x, r). (JNum x, r)) (parse_num (c # t)))"
| "parse_elems 0 s = None"
| "parse_elems (Suc f) s =
     (case parse_value f s of
        None \<Rightarrow> None
      | Some (v, r) \<Rightarrow>
          (case skip_ws r of
             [] \<Rightarrow> None
           | d # u \<Rightarrow> if d = CHR '']'' then Some ([v], u)
                     else if d = CHR '','' then map_option (\<lambda>(vs, x). (v # vs, x)) (parse_elems f u)
                     else None))"
| "parse_members 0 s = None"
| "parse_members (Suc f) s =
     (case skip_ws s of
        [] \<Rightarrow> None
      | q # t \<Rightarrow>
          if q \<noteq> dquote then None
          else
            (case parse_str t of
               None \<Rightarrow> None
             | Some (k, r) \<Rightarrow>
                 (case skip_ws r of
                    [] \<Rightarrow> None
                  | col # r1 \<Rightarrow>
                      if col \<noteq> CHR '':'' then None
                      else
                        (case parse_value f r1 of
                           None \<Rightarrow> None
                         | Some (v, r2) \<Rightarrow>
                             (case skip_ws r2 of
                                [] \<Rightarrow> None
                              | d # u \<Rightarrow>
                                  if d = CHR ''}'' then Some ([(k, v)], u)
                                  else if d = CHR '','' then
                                    map_option (\<lambda>(ms, x). ((k, v) # ms, x)) (parse_members f u)
                                  else None)))))"

definition json_unmarshal :: "string \<Rightarrow> json option" where
  "json_unmarshal s =
     (case parse_value (2 * length s + 2) s of
        Some (v, r) \<Rightarrow> if skip_ws r = [] then Some v else None
      | None \<Rightarrow> None)"

definition json_valid :: "string \<Rightarrow> bool" where
  "json_valid s \<longleftrightarrow> json_unmarshal s \<noteq> None"

section \<open>Strings round-trip\<close>

lemma hex_val_hex_char [simp]: "d < 16 \<Longrightarrow> hex_val (hex_char d) = Some d"
  by (simp add: hex_char_def hex_val_def)

lemma hex_digits_sum:
  assumes "(r::nat) < 65536"
  shows "r div 4096 mod 16 * 4096 + r div 256 mod 16 * 256 + r div 16 mod 16 * 16 + r mod 16 = r"
proof -
  define a b c where abc: "a = r div 16" "b = a div 16" "c = b div 16"
  define x y z where xyz: "x = r mod 16" "y = a mod 16" "z = b mod 16"
  have "c < 16" using assms by (simp add: abc div_mult2_eq [symmetric] div_less_iff_less_mult)
  then have "c mod 16 = c" by simp
  moreover have "r div 4096 = c" "r div 256 = b" by (simp_all add: abc div_mult2_eq [symmetric])
  ultimately have h: "r div 4096 mod 16 = c" "r div 256 mod 16 = z" "r div 16 mod 16 = y" "r mod 16 = x"
    by (simp_all only: xyz abc(1))
  have "r = 16 * a + x" "a = 16 * b + y" "b = 16 * c + z"
    unfolding abc xyz by (simp_all only: mult_div_mod_eq)
  then show ?thesis unfolding h by linarith
qed

lemma get_u4_u_escape: "r < 65536 \<Longrightarrow> get_u4 (drop 2 (u_escape r) @ t) = Some (r, t)"
  using hex_digits_sum [of r] by (simp add: u_escape_def)

lemma parse_str_u_escape:
  assumes "r < 65536" "\<not> is_surrogate r"
  shows "parse_str (u_escape r @ t) = map_option (\<lambda>(x, u). (encode_rune r @ x, u)) (parse_str t)"
proof -
  have e: "u_escape r @ t = backslash # CHR ''u'' # (drop 2 (u_escape r) @ t)"
    by (simp add: u_escape_def)
  show ?thesis
    unfolding e by (simp add: parse_str.simps(2) [of backslash] parse_u_def get_u4_u_escape assms)
qed

lemma parse_str_esc_byte:
  assumes "byte c < 0x80"
  shows "parse_str (esc_byte c @ t) = map_option (\<lambda>(x, u). (c # x, u)) (parse_str t)"
proof -
  have u: "parse_str (u_escape (byte c) @ t) = map_option (\<lambda>(x, u). (c # x, u)) (parse_str t)"
    using assms by (subst parse_str_u_escape) (simp_all add: is_surrogate_def encode_rune_def)
  have bs: "parse_str (backslash # d # t) = map_option (\<lambda>(x, u). (b @ x, u)) (parse_str t)"
    if "parse_esc (d # t) = Some (b, t)" for b d
    using that by (simp add: parse_str.simps(2) [of backslash])
  have c: "chr n = c" if "byte c = n" for n using that by auto
  have q: "c = dquote \<longleftrightarrow> byte c = 0x22" "c = backslash \<longleftrightarrow> byte c = 0x5C"
    by (auto simp: of_char_eq_iff [symmetric, where 'a = nat] simp del: of_char_eq_iff)
  show ?thesis
  proof (cases "byte c = 0x5C \<or> byte c = 0x22")
    case True
    then show ?thesis using q bs [of c "[c]"] by (auto simp: esc_byte_def)
  next
    case False
    consider "byte c \<in> {8, 12, 10, 13, 9}" | "byte c \<notin> {8, 12, 10, 13, 9}" by blast
    then show ?thesis
    proof cases
      case 1
      then consider "c = chr 8" | "c = chr 12" | "c = chr 10" | "c = chr 13" | "c = chr 9"
        using c by fastforce
      then show ?thesis by cases (simp_all add: esc_byte_def bs)
    next
      case 2
      then show ?thesis using False u q assms
        by (auto simp: esc_byte_def parse_str.simps(2) [of c] decode_rune.simps encode_rune_def)
    qed
  qed
qed

lemma parse_str_esc_chunk:
  assumes "s \<noteq> []" "valid_utf8 s" "decode_rune s = (r, n)"
  shows "parse_str (esc_chunk (r, take n s) @ t)
           = map_option (\<lambda>(x, u). (take n s @ x, u)) (parse_str t)"
proof -
  note st = valid_utf8_step [OF assms(2,1,3)]
  have nb: "\<not> bad_chunk (r, take n s)"
    using st(1,4,5) by (auto simp: bad_chunk_def)
  show ?thesis
  proof (cases "r < 0x80")
    case True
    then have e: "take n s = [chr r]" using st(3) by (simp add: encode_rune_def)
    have "byte (chr r) = r" using True by simp
    then show ?thesis
      unfolding e using True parse_str_esc_byte [of "chr r" t] by (simp add: esc_chunk_def)
  next
    case False
    show ?thesis
    proof (cases "r = 0x2028 \<or> r = 0x2029")
      case True
      then have "parse_str (u_escape r @ t) = map_option (\<lambda>(x, u). (encode_rune r @ x, u)) (parse_str t)"
        by (intro parse_str_u_escape) (auto simp: is_surrogate_def)
      with True False nb st(3) show ?thesis by (simp add: esc_chunk_def)
    next
      case nu: False
      obtain c u where cu: "take n s = c # u" using st(4,5) assms(1) by (cases s; cases n) auto
      have d: "decode_rune (c # u @ t) = (r, n)"
        using decode_rune_append [OF assms(3,1) st(1), of t] cu by simp
      have hi: "0x80 \<le> byte c"
      proof (rule ccontr)
        assume "\<not> 0x80 \<le> byte c"
        then have "r = byte c" using d by (simp add: decode_rune.simps)
        with False \<open>\<not> 0x80 \<le> byte c\<close> show False by simp
      qed
      then have "c \<noteq> dquote" "c \<noteq> backslash" "\<not> byte c < 0x20" by auto
      moreover have "length (c # u) = n" using cu st(5) by (metis length_take min.absorb2)
      then have "drop n (c # u @ t) = t" by auto
      ultimately have "parse_str (c # u @ t) = map_option (\<lambda>(x, w). (encode_rune r @ x, w)) (parse_str t)"
        by (simp add: parse_str.simps(2) [of c] d)
      then show ?thesis using False nb nu cu st(3) by (simp add: esc_chunk_def)
    qed
  qed
qed

lemma parse_str_escaped:
  "valid_utf8 s \<Longrightarrow> parse_str (concat (map esc_chunk (runes s)) @ dquote # t) = Some (s, t)"
proof (induction s rule: runes.induct)
  case (1 s)
  show ?case
  proof (cases "s = []")
    case True
    then show ?thesis by (simp add: parse_str.simps)
  next
    case False
    obtain r n where rn: "decode_rune s = (r, n)" by fastforce
    note st = valid_utf8_step [OF "1.prems" False rn]
    have "parse_str (concat (map esc_chunk (runes (drop n s))) @ dquote # t) = Some (drop n s, t)"
      using 1 False rn st(2) by simp
    then show ?thesis
      by (simp add: runes_step [OF False rn] parse_str_esc_chunk [OF False "1.prems" rn])
  qed
qed
section \<open>Numbers round-trip\<close>

definition delim :: "string \<Rightarrow> bool" where
  "delim r \<longleftrightarrow> r = [] \<or> hd r \<in> {CHR '','', CHR '']'', CHR ''}''}"

lemma delim_simps [simp]:
  "delim []" "delim (CHR '','' # r)" "delim (CHR '']'' # r)" "delim (CHR ''}'' # r)"
  by (simp_all add: delim_def)

lemma delim_char: "delim (c # r) \<longleftrightarrow> c \<in> {CHR '','', CHR '']'', CHR ''}''}"
  by (simp add: delim_def)

lemma digits_of_append:
  "delim r \<Longrightarrow> digits_of (s @ r) = (fst (digits_of s), snd (digits_of s) @ r)"
proof (induction s)
  case Nil
  then show ?case by (cases r) (auto simp: digits_of_def delim_char is_digit_def)
qed (auto simp: digits_of_def)

lemma num_int_append:
  "num_int s = Some (i, s') \<Longrightarrow> delim r \<Longrightarrow> num_int (s @ r) = Some (i, s' @ r)"
  using digits_of_append [of r s]
  by (auto simp: num_int_def split: list.splits if_splits)

lemma num_frac_append:
  "num_frac s = Some (i, s') \<Longrightarrow> delim r \<Longrightarrow> num_frac (s @ r) = Some (i, s' @ r)"
  using digits_of_append [of r "tl s"]
  by (cases s; cases r) (auto simp: num_frac_def delim_char split: if_splits prod.splits)

lemma num_sign_append:
  "delim r \<Longrightarrow> num_sign (s @ r) = (fst (num_sign s), snd (num_sign s) @ r)"
  by (cases s; cases r) (auto simp: num_sign_def delim_char)

lemma num_exp_append:
  "num_exp s = Some (i, s') \<Longrightarrow> delim r \<Longrightarrow> num_exp (s @ r) = Some (i, s' @ r)"
  using digits_of_append [of r "snd (num_sign (tl s))"] num_sign_append [of r "tl s"]
  by (cases s; cases r) (auto simp: num_exp_def delim_char split: if_splits prod.splits)

lemma num_minus_append:
  "s \<noteq> [] \<Longrightarrow> num_minus (s @ r) = (fst (num_minus s), snd (num_minus s) @ r)"
  by (cases s) (auto simp: num_minus_def)

lemma parse_num_append:
  assumes "parse_num s = Some (l, s')" "delim r"
  shows "parse_num (s @ r) = Some (l, s' @ r)"
proof -
  have ne: "s \<noteq> []" using assms(1) by (auto simp: parse_num_def num_minus_def num_int_def)
  obtain m s0 where m: "num_minus s = (m, s0)" by fastforce
  with assms(1) obtain i s1 f s2 e where
    h: "num_int s0 = Some (i, s1)" "num_frac s1 = Some (f, s2)" "num_exp s2 = Some (e, s')"
      "l = m @ i @ f @ e"
    by (auto simp: parse_num_def split: option.splits)
  show ?thesis
    using num_minus_append [OF ne, of r] m h(4)
      num_int_append [OF h(1) assms(2)] num_frac_append [OF h(2) assms(2)] num_exp_append [OF h(3) assms(2)]
    by (simp add: parse_num_def)
qed

lemma parse_num_first:
  "parse_num (c # t) = Some (l, r) \<Longrightarrow> c = CHR ''-'' \<or> is_digit c"
  by (auto simp: parse_num_def num_minus_def num_int_def is_digit_def split: if_splits option.splits list.splits)

lemma parse_num_itoa: "parse_num (itoa i) = Some (itoa i, [])"
proof -
  have d: "digits_of (itoa_nat n) = (itoa_nat n, [])" for n
    using itoa_nat_digits [of n] by (auto simp: digits_of_def takeWhile_eq_all_conv)
  have n: "num_int (itoa_nat n) = Some (itoa_nat n, [])" for n
  proof (cases "n = 0")
    case True
    then show ?thesis by (simp add: itoa_nat.simps [of 0] digit_char_0 num_int_def)
  next
    case False
    obtain c t where ct: "itoa_nat n = c # t" by (cases "itoa_nat n") auto
    then show ?thesis
      using itoa_nat_no_leading_zero [OF False] itoa_nat_digits [of n] d [of n]
      by (auto simp: num_int_def)
  qed
  have m: "num_minus (itoa_nat n) = ([], itoa_nat n)" for n
    using itoa_nat_digits [of n] by (cases "itoa_nat n") (auto simp: num_minus_def is_digit_def)
  show ?thesis
    by (auto simp: itoa_def parse_num_def m n num_frac_def num_exp_def) (simp_all add: num_minus_def n num_frac_def num_exp_def)
qed

section \<open>Values round-trip\<close>

text \<open>Trees whose strings are well-formed UTF-8 and whose number literals are JSON numbers.\<close>

fun wf_json :: "json \<Rightarrow> bool" where
  "wf_json JNull = True"
| "wf_json (JBool b) = True"
| "wf_json (JNum l) = (parse_num l = Some (l, []))"
| "wf_json (JStr s) = valid_utf8 s"
| "wf_json (JArr vs) = list_all wf_json vs"
| "wf_json (JObj ms) = list_all (\<lambda>m. valid_utf8 (fst m) \<and> wf_json (snd m)) ms"

lemma json_print_first:
  "wf_json v \<Longrightarrow> \<exists>c t. json_print v = c # t \<and> \<not> is_ws c \<and> c \<noteq> CHR '']'' \<and> c \<noteq> CHR ''}''"
proof (cases v)
  case (JNum l)
  assume "wf_json v"
  with JNum have l: "parse_num l = Some (l, [])" by simp
  then obtain c t where ct: "l = c # t"
    by (cases l) (auto simp: parse_num_def num_minus_def num_int_def)
  with l parse_num_first [of c t] show ?thesis
    using JNum by (auto simp: is_ws_def is_digit_def)
qed (auto simp: is_ws_def json_string_def)

lemma skip_ws_print: "wf_json v \<Longrightarrow> skip_ws (json_print v @ r) = json_print v @ r"
  using json_print_first [of v] by auto

lemma parse_value_literal:
  assumes "parse_num l = Some (l, [])" "delim r"
  shows "parse_value (Suc f) (l @ r) = Some (JNum l, r)"
proof -
  obtain c t where ct: "l = c # t"
    using assms(1) by (cases l) (auto simp: parse_num_def num_minus_def num_int_def)
  have c: "c = CHR ''-'' \<or> is_digit c" using parse_num_first assms(1) ct by blast
  then have ws: "\<not> is_ws c" and q: "c \<noteq> dquote" "c \<noteq> CHR ''[''" "c \<noteq> CHR ''{''"
      "c \<noteq> CHR ''n''" "c \<noteq> CHR ''t''" "c \<noteq> CHR ''f''"
    by (auto simp: is_ws_def is_digit_def)
  have "parse_num (c # t @ r) = Some (l, r)" using parse_num_append [OF assms] ct by simp
  with ct ws q show ?thesis by simp
qed

lemma parse_value_str:
  "valid_utf8 s \<Longrightarrow> parse_value (Suc f) (json_string s @ r) = Some (JStr s, r)"
  by (simp add: json_string_def is_ws_def parse_str_escaped)

theorem parse_print:
  "wf_json v \<Longrightarrow> delim r \<Longrightarrow> 2 * length (json_print v) \<le> f \<Longrightarrow>
     parse_value f (json_print v @ r) = Some (v, r)"
  "vs \<noteq> [] \<Longrightarrow> list_all wf_json vs \<Longrightarrow> 2 * length (print_elems vs) < f \<Longrightarrow>
     parse_elems f (print_elems vs @ CHR '']'' # r) = Some (vs, r)"
  "ms \<noteq> [] \<Longrightarrow> list_all (\<lambda>m. valid_utf8 (fst m) \<and> wf_json (snd m)) ms \<Longrightarrow>
     2 * length (print_members ms) < f \<Longrightarrow>
     parse_members f (print_members ms @ CHR ''}'' # r) = Some (ms, r)"
proof (induction v and vs and ms arbitrary: r f and r f and r f
    rule: json_print_print_elems_print_members.induct)
  case 1
  then show ?case by (cases f) (auto simp: is_ws_def)
next
  case (2 b)
  then show ?case by (cases f; cases b) (auto simp: is_ws_def)
next
  case (3 l)
  then show ?case
    by (cases f) (auto simp del: parse_value.simps simp: parse_value_literal parse_num_def num_minus_def num_int_def)
next
  case (4 s)
  then show ?case by (cases f) (simp_all del: parse_value.simps add: parse_value_str, simp add: json_string_def)
next
  case (5 vs)
  then obtain g where f: "f = Suc g" by (cases f) auto
  show ?case
  proof (cases vs)
    case Nil
    then show ?thesis using f by (simp add: is_ws_def)
  next
    case (Cons w ws)
    then obtain c t where "json_print w = c # t" "\<not> is_ws c" "c \<noteq> CHR '']''"
      using json_print_first [of w] 5 by auto
    moreover have "parse_elems g (print_elems vs @ CHR '']'' # r) = Some (vs, r)"
      using 5 Cons f by simp
    ultimately show ?thesis using f Cons by (simp add: is_ws_def)
  qed
next
  case (6 ms)
  then obtain g where f: "f = Suc g" by (cases f) auto
  show ?case
  proof (cases ms)
    case Nil
    then show ?thesis using f by (simp add: is_ws_def)
  next
    case (Cons m ms')
    obtain k w where m: "m = (k, w)" by fastforce
    have "parse_members g (print_members ms @ CHR ''}'' # r) = Some (ms, r)"
      using 6 Cons f by simp
    then show ?thesis using f Cons m by (simp add: is_ws_def json_string_def)
  qed
next
  case 7
  then show ?case by simp
next
  case (8 v vs)
  then obtain g where f: "f = Suc g" by (cases f) auto
  show ?case
  proof (cases "vs = []")
    case True
    have "parse_value g (json_print v @ CHR '']'' # r) = Some (v, CHR '']'' # r)"
      using 8 True f by simp
    then show ?thesis using True f by (simp add: is_ws_def)
  next
    case False
    have "parse_value g (json_print v @ CHR '','' # (print_elems vs @ CHR '']'' # r))
        = Some (v, CHR '','' # (print_elems vs @ CHR '']'' # r))"
      using 8 False f by simp
    moreover have "parse_elems g (print_elems vs @ CHR '']'' # r) = Some (vs, r)"
      using 8 False f by simp
    ultimately show ?thesis using False f by (simp add: is_ws_def)
  qed
next
  case 9
  then show ?case by simp
next
  case (10 k v ms)
  then obtain g where f: "f = Suc g" by (cases f) auto
  let ?tail = "(if ms = [] then [] else CHR '','' # print_members ms) @ CHR ''}'' # r"
  have v: "parse_value g (json_print v @ ?tail) = Some (v, ?tail)"
    using 10 f by (cases "ms = []") simp_all
  have ms: "ms \<noteq> [] \<Longrightarrow> parse_members g (print_members ms @ CHR ''}'' # r) = Some (ms, r)"
    using 10 f by simp
  have k: "parse_str (concat (map esc_chunk (runes k)) @ dquote # CHR '':'' # json_print v @ ?tail)
      = Some (k, CHR '':'' # json_print v @ ?tail)"
    using 10 by (intro parse_str_escaped) simp
  show ?case
    using v ms k f by (cases "ms = []") (simp_all add: json_string_def is_ws_def)
qed

theorem unmarshal_print: "wf_json v \<Longrightarrow> json_unmarshal (json_print v) = Some v"
  using parse_print(1) [of v "[]" "2 * length (json_print v) + 2"] by (simp add: json_unmarshal_def)

section \<open>The fuel is enough\<close>

lemma parse_str_length: "parse_str s = Some (x, r) \<Longrightarrow> length r \<le> length s"
proof (induction s arbitrary: x r rule: parse_str.induct)
  case (2 c t)
  consider "c = dquote" | "c \<noteq> dquote" "c = backslash" | "c \<noteq> dquote" "c \<noteq> backslash" "\<not> byte c < 0x20"
    using 2(3) by (auto simp: parse_str.simps(2) [of c] split: if_splits)
  then show ?case
  proof cases
    case 1
    then show ?thesis using 2(3) by (simp add: parse_str.simps(2))
  next
    case b: 2
    then obtain e t' y where e: "parse_esc t = Some (e, t')" "parse_str t' = Some (y, r)"
      using 2(3) by (auto simp: parse_str.simps(2) split: option.splits)
    then show ?thesis using 2(1) [OF b e(1) refl e(2)] parse_esc_length [OF e(1)] by simp
  next
    case 3
    then obtain y where
      y: "parse_str (drop (snd (decode_rune (c # t))) (c # t)) = Some (y, r)"
      using 2(3) by (auto simp: parse_str.simps(2) [of c])
    have "length r \<le> length (drop (snd (decode_rune (c # t))) (c # t))"
      using 2(2) [OF 3 y] .
    then show ?thesis unfolding length_drop by linarith
  qed
qed (simp add: parse_str.simps)

lemma digits_of_length: "length (snd (digits_of s)) \<le> length s"
  by (simp add: digits_of_def length_dropWhile_le)

lemma parse_num_length:
  assumes "parse_num s = Some (l, r)"
  shows "length r \<le> length s"
proof -
  obtain m s0 where m: "num_minus s = (m, s0)" by fastforce
  with assms obtain i s1 f s2 e where
    h: "num_int s0 = Some (i, s1)" "num_frac s1 = Some (f, s2)" "num_exp s2 = Some (e, r)"
    by (auto simp: parse_num_def split: option.splits)
  have "length s0 \<le> length s" using m by (auto simp: num_minus_def split: list.splits if_splits)
  moreover have "length s1 \<le> length s0"
    using h(1) digits_of_length [of s0] by (auto simp: num_int_def split: list.splits if_splits)
  moreover have "length s2 \<le> length s1"
    using h(2) digits_of_length [of "tl s1"] by (auto simp: num_frac_def split: list.splits if_splits prod.splits)
  moreover have sg: "length (snd (num_sign t)) \<le> length t" for t
    by (cases t) (auto simp: num_sign_def)
  have "length r \<le> length s2"
    using h(3) digits_of_length [of "snd (num_sign (tl s2))"] sg [of "tl s2"]
    by (auto simp: num_exp_def split: list.splits if_splits prod.splits)
  ultimately show ?thesis by linarith
qed

lemma skip_wsD: "skip_ws s = c # t \<Longrightarrow> length t < length s"
  by (metis length_Cons length_dropWhile_le less_eq_Suc_le)

lemma parse_length:
  "parse_value f s = Some (v, r) \<Longrightarrow> length r \<le> length s"
  "parse_elems f s = Some (vs, r) \<Longrightarrow> length r \<le> length s"
  "parse_members f s = Some (ms, r) \<Longrightarrow> length r \<le> length s"
proof (induction f arbitrary: s v r vs ms)
  case (Suc f)
  {
    case 1
    then obtain c t where ct: "skip_ws s = c # t" by (cases "skip_ws s") auto
    have lt: "length (c # t) \<le> length s" using ct by (metis length_dropWhile_le)
    have lt': "length t \<le> length s" using lt by simp
    consider (str) x where "parse_str t = Some (x, r)"
      | (arr) x where "parse_elems f t = Some (x, r)"
      | (obj) x where "parse_members f t = Some (x, r)"
      | (empty) d where "skip_ws t = d # r"
      | (lit) "length r \<le> length (c # t)"
      | (num) l where "parse_num (c # t) = Some (l, r)"
      using 1 ct by (auto simp del: parse_elems.simps parse_members.simps split: if_splits list.splits)
    then show ?case
    proof cases
      case str
      then show ?thesis using lt' parse_str_length le_trans by blast
    next
      case arr
      then show ?thesis using lt' Suc.IH(2) le_trans by blast
    next
      case obj
      then show ?thesis using lt' Suc.IH(3) le_trans by blast
    next
      case empty
      then show ?thesis using lt' skip_wsD [OF empty] by simp
    next
      case lit
      then show ?thesis using lt le_trans by blast
    next
      case num
      then show ?thesis using lt parse_num_length le_trans by blast
    qed
  next
    case 2
    then obtain v' r' where v: "parse_value f s = Some (v', r')" by (auto split: option.splits)
    then have l: "length r' \<le> length s" by (rule Suc.IH(1))
    from v 2 obtain d u where u: "skip_ws r' = d # u" by (auto split: list.splits)
    then have "length u < length s" using l skip_wsD [OF u] by simp
    moreover have "parse_elems f u = Some (vs', r) \<Longrightarrow> length r \<le> length u" for vs'
      by (rule Suc.IH(2))
    ultimately show ?case using 2 v u by (fastforce split: if_splits)
  next
    case 3
    then obtain t where t: "skip_ws s = dquote # t" by (auto split: list.splits if_splits)
    with 3 obtain k r1 where k: "parse_str t = Some (k, r1)" by (auto split: option.splits)
    with 3 t obtain r2 where r2: "skip_ws r1 = CHR '':'' # r2" by (auto split: list.splits if_splits)
    with 3 t k obtain v r3 where v: "parse_value f r2 = Some (v, r3)" by (auto split: option.splits)
    with 3 t k r2 obtain d u where u: "skip_ws r3 = d # u" by (auto split: list.splits)
    have "length u \<le> length s"
      using skip_wsD [OF t] parse_str_length [OF k] skip_wsD [OF r2] Suc.IH(1) [OF v] skip_wsD [OF u]
      by linarith
    moreover have "parse_members f u = Some (ms', r) \<Longrightarrow> length r \<le> length u" for ms'
      by (rule Suc.IH(3))
    ultimately show ?case using 3 t k r2 v u by (fastforce split: if_splits)
  }
qed simp_all

text \<open>More fuel than \<open>json_unmarshal\<close> supplies never changes the result.\<close>

lemma parse_value_cong:
  assumes "\<And>c t. skip_ws s = c # t \<Longrightarrow> parse_elems f t = parse_elems g t \<and> parse_members f t = parse_members g t"
  shows "parse_value (Suc f) s = parse_value (Suc g) s"
proof (cases "skip_ws s")
  case (Cons c t)
  then show ?thesis using assms [OF Cons] by (simp only: parse_value.simps list.case if_cancel)
qed (simp only: parse_value.simps list.case)

lemma parse_elems_cong:
  assumes "parse_value f s = parse_value g s"
    "\<And>x r d u. parse_value g s = Some (x, r) \<Longrightarrow> skip_ws r = d # u \<Longrightarrow> parse_elems f u = parse_elems g u"
  shows "parse_elems (Suc f) s = parse_elems (Suc g) s"
proof (cases "parse_value g s")
  case (Some p)
  obtain x r where p: "p = (x, r)" by fastforce
  show ?thesis
  proof (cases "skip_ws r")
    case (Cons d u)
    then show ?thesis using assms Some p by (simp only: parse_elems.simps option.case prod.case list.case)
  qed (use assms Some p in \<open>simp only: parse_elems.simps option.case prod.case list.case\<close>)
qed (use assms in \<open>simp only: parse_elems.simps option.case\<close>)

lemma parse_members_cong:
  assumes "\<And>q t k r1 c r2. skip_ws s = q # t \<Longrightarrow> parse_str t = Some (k, r1) \<Longrightarrow> skip_ws r1 = c # r2 \<Longrightarrow>
      parse_value f r2 = parse_value g r2 \<and>
      (\<forall>x r3 d u. parse_value g r2 = Some (x, r3) \<longrightarrow> skip_ws r3 = d # u \<longrightarrow>
        parse_members f u = parse_members g u)"
  shows "parse_members (Suc f) s = parse_members (Suc g) s"
proof (cases "skip_ws s")
  case (Cons q t)
  show ?thesis
  proof (cases "parse_str t")
    case (Some p)
    obtain k r1 where p: "p = (k, r1)" by fastforce
    show ?thesis
    proof (cases "skip_ws r1")
      case c: (Cons c r2)
      note a = assms [OF Cons Some [unfolded p] c]
      show ?thesis
      proof (cases "parse_value g r2")
        case v: (Some w)
        obtain x r3 where w: "w = (x, r3)" by fastforce
        show ?thesis
        proof (cases "skip_ws r3")
          case (Cons d u)
          then have "parse_members f u = parse_members g u" using a v w by blast
          then show ?thesis using a v w Cons c p Some \<open>skip_ws s = q # t\<close>
            by (simp only: parse_members.simps option.case prod.case list.case)
        qed (use a v w c p Some Cons in \<open>simp only: parse_members.simps option.case prod.case list.case\<close>)
      qed (use a c p Some Cons in \<open>simp only: parse_members.simps option.case prod.case list.case\<close>)
    qed (use p Some Cons in \<open>simp only: parse_members.simps option.case prod.case list.case\<close>)
  qed (use Cons in \<open>simp only: parse_members.simps option.case list.case\<close>)
qed (simp only: parse_members.simps list.case)

lemma parse_fuel:
  "2 * length s < f \<Longrightarrow> parse_value (Suc f) s = parse_value f s"
  "2 * length s + 1 < f \<Longrightarrow> parse_elems (Suc f) s = parse_elems f s"
  "2 * length s + 1 < f \<Longrightarrow> parse_members (Suc f) s = parse_members f s"
proof (induction f arbitrary: s)
  case (Suc f)
  {
    case 1
    show ?case
    proof (rule parse_value_cong)
      fix c t
      assume "skip_ws s = c # t"
      then have "2 * length t + 1 < f" using skip_wsD 1 by fastforce
      then show "parse_elems (Suc f) t = parse_elems f t \<and> parse_members (Suc f) t = parse_members f t"
        using Suc.IH(2,3) by blast
    qed
  next
    case 2
    show ?case
    proof (rule parse_elems_cong)
      show "parse_value (Suc f) s = parse_value f s" using Suc.IH(1) 2 by simp
      fix x r d u
      assume a: "parse_value f s = Some (x, r)" "skip_ws r = d # u"
      have "2 * length u + 1 < f" using skip_wsD [OF a(2)] parse_length(1) [OF a(1)] 2 by simp
      then show "parse_elems (Suc f) u = parse_elems f u" by (rule Suc.IH(2))
    qed
  next
    case 3
    show ?case
    proof (rule parse_members_cong)
      fix q t k r1 c r2
      assume a: "skip_ws s = q # t" "parse_str t = Some (k, r1)" "skip_ws r1 = c # r2"
      have l: "2 * length r2 + 1 < f"
        using skip_wsD [OF a(1)] parse_str_length [OF a(2)] skip_wsD [OF a(3)] 3 by simp
      have "parse_members (Suc f) u = parse_members f u"
        if "parse_value f r2 = Some (x, r3)" "skip_ws r3 = d # u" for x r3 d u
      proof -
        have "2 * length u + 1 < f" using parse_length(1) [OF that(1)] skip_wsD [OF that(2)] l by simp
        then show ?thesis by (rule Suc.IH(3))
      qed
      with l Suc.IH(1) [of r2] show "parse_value (Suc f) r2 = parse_value f r2 \<and>
        (\<forall>x r3 d u. parse_value f r2 = Some (x, r3) \<longrightarrow> skip_ws r3 = d # u \<longrightarrow>
          parse_members (Suc f) u = parse_members f u)" by simp
    qed
  }
qed simp_all

theorem json_unmarshal_fuel:
  assumes "2 * length s + 2 \<le> f"
  shows "parse_value f s = parse_value (2 * length s + 2) s"
  using assms
proof (induction f rule: dec_induct)
  case (step n)
  then show ?case using parse_fuel(1) [of s n] by simp
qed simp

section \<open>The printed form is one line\<close>

lemma esc_byte_no_newline: "newline \<notin> set (esc_byte c)"
  by (auto simp: esc_byte_def u_escape_def hex_char_def of_char_eq_iff [symmetric, where 'a = nat]
      simp del: of_char_eq_iff split: if_splits)

text \<open>
  Any byte string can be printed: \<open>to_valid\<close> is what comes back, each ill-formed byte having become
  U+FFFD.
\<close>

definition to_valid :: "string \<Rightarrow> string" where
  "to_valid s = strings_map Some s"

lemma to_valid_Nil [simp]: "to_valid [] = []"
  by (simp add: to_valid_def strings_map_def)

lemma to_valid_step:
  "s \<noteq> [] \<Longrightarrow> decode_rune s = (r, n) \<Longrightarrow> to_valid s = encode_rune r @ to_valid (drop n s)"
  by (simp add: to_valid_def strings_map_def runes_step map_chunk_def)

lemma to_valid_id: "valid_utf8 s \<Longrightarrow> to_valid s = s"
proof (induction s rule: runes.induct)
  case (1 s)
  show ?case
  proof (cases "s = []")
    case False
    obtain r n where rn: "decode_rune s = (r, n)" by fastforce
    note st = valid_utf8_step [OF "1.prems" False rn]
    show ?thesis
      using 1(1) [OF False] st(2,3) rn by (simp add: to_valid_step [OF False rn])
  qed simp
qed

lemma parse_str_esc_chunk':
  assumes "s \<noteq> []" "decode_rune s = (r, n)"
  shows "parse_str (esc_chunk (r, take n s) @ t)
           = map_option (\<lambda>(x, u). (encode_rune r @ x, u)) (parse_str t)"
proof (cases "r = rune_error \<and> n = 1")
  case True
  then have "esc_chunk (r, take n s) = u_escape rune_error"
    using assms by (cases s) (auto simp: esc_chunk_def bad_chunk_def rune_error_def)
  with True show ?thesis
    using parse_str_u_escape [of rune_error t] by (simp add: is_surrogate_def rune_error_def)
next
  case False
  have "decode_rune (take n s) = (r, n)"
    using decode_rune_append [OF assms(2,1) False, of "[]"] by simp
  moreover have ne: "take n s \<noteq> []"
    using assms decode_rune_width [of s] by (cases s; cases n) auto
  moreover have n: "n \<le> length s" using decode_rune_width [OF assms(1)] assms(2) by simp
  ultimately have v: "valid_utf8 (take n s)"
    using False runes_step [of "take n s" r n] by (auto simp: valid_utf8_def bad_chunk_def)
  show ?thesis
    using parse_str_esc_chunk [OF ne v \<open>decode_rune (take n s) = (r, n)\<close>] n
      encode_decode [OF assms(2,1) False] by simp
qed

lemma parse_str_print:
  "parse_str (concat (map esc_chunk (runes s)) @ dquote # t) = Some (to_valid s, t)"
proof (induction s rule: runes.induct)
  case (1 s)
  show ?case
  proof (cases "s = []")
    case True
    then show ?thesis by (simp add: parse_str.simps)
  next
    case False
    obtain r n where rn: "decode_rune s = (r, n)" by fastforce
    have "parse_str (concat (map esc_chunk (runes (drop n s))) @ dquote # t) = Some (to_valid (drop n s), t)"
      using 1 False rn by simp
    then show ?thesis
      by (simp add: runes_step [OF False rn] parse_str_esc_chunk' [OF False rn] to_valid_step [OF False rn])
  qed
qed

section \<open>Raw text of a value\<close>

text \<open>
  A \<^verbatim>\<open>json.RawMessage\<close> field receives the source text of its value. \<open>raw_members\<close> cuts an object
  into its members with that text; \<open>obj_text\<close> writes an object from members in the given order
  (\<^verbatim>\<open>json.Marshal\<close> of a Go map writes them sorted by key).
\<close>

fun raw_members_from :: "nat \<Rightarrow> string \<Rightarrow> (string \<times> string) list option" where
  "raw_members_from 0 s = None"
| "raw_members_from (Suc f) s =
     (case skip_ws s of
        [] \<Rightarrow> None
      | q # t \<Rightarrow>
          (case parse_str t of
             None \<Rightarrow> None
           | Some (k, r) \<Rightarrow>
               (case parse_value f (tl (skip_ws r)) of
                  None \<Rightarrow> None
                | Some (v, r2) \<Rightarrow>
                    (case skip_ws r2 of
                       [] \<Rightarrow> None
                     | d # u \<Rightarrow>
                         map_option (Cons (k, take (length (skip_ws (tl (skip_ws r))) - length r2)
                                               (skip_ws (tl (skip_ws r)))))
                           (if d = CHR ''}'' then Some [] else raw_members_from f u)))))"

definition raw_members :: "string \<Rightarrow> (string \<times> string) list" where
  "raw_members s =
     (case skip_ws (tl (skip_ws s)) of
        [] \<Rightarrow> []
      | d # u \<Rightarrow> if d = CHR ''}'' then []
                else (case raw_members_from (2 * length s) (tl (skip_ws s)) of
                        None \<Rightarrow> [] | Some ms \<Rightarrow> ms))"

text \<open>\<open>raw_value r v\<close>: the text \<open>r\<close> reads as \<open>v\<close> wherever a value may stand.\<close>

definition raw_value :: "string \<Rightarrow> json \<Rightarrow> bool" where
  "raw_value r v \<longleftrightarrow> r \<noteq> [] \<and> \<not> is_ws (hd r) \<and>
     (\<forall>f t. delim t \<longrightarrow> 2 * length r \<le> f \<longrightarrow> parse_value f (r @ t) = Some (v, t))"

fun members_text :: "(string \<times> string) list \<Rightarrow> string" where
  "members_text [] = []"
| "members_text ((k, r) # ms) =
     json_string k @ '':'' @ r @ (if ms = [] then [] else CHR '','' # members_text ms)"

definition obj_text :: "(string \<times> string) list \<Rightarrow> string" where
  "obj_text ms = CHR ''{'' # members_text ms @ ''}''"

lemma raw_value_unmarshal: "raw_value r v \<Longrightarrow> json_unmarshal r = Some v"
  unfolding raw_value_def json_unmarshal_def
  by (drule conjunct2, drule conjunct2, drule spec [of _ "2 * length r + 2"], drule spec [of _ "[]"]) simp

lemma raw_valueD: "raw_value r v \<Longrightarrow> delim t \<Longrightarrow> 2 * length r \<le> f \<Longrightarrow> parse_value f (r @ t) = Some (v, t)"
  by (simp add: raw_value_def)

lemma raw_value_skip: "raw_value r v \<Longrightarrow> skip_ws (r @ t) = r @ t"
  by (cases r) (auto simp: raw_value_def)

lemma raw_value_not_Nil: "raw_value r v \<Longrightarrow> r \<noteq> []"
  by (simp add: raw_value_def)

lemma raw_value_print: "wf_json v \<Longrightarrow> raw_value (json_print v) v"
  using json_print_first [of v] parse_print(1) [of v] by (auto simp: raw_value_def)

lemma raw_value_string: "raw_value (json_string s) (JStr (to_valid s))"
proof -
  have "parse_value f (json_string s @ t) = Some (JStr (to_valid s), t)" if "2 * length (json_string s) \<le> f" for f t
    using that parse_str_print [of s t] by (cases f) (auto simp: json_string_def is_ws_def)
  then show ?thesis by (simp add: raw_value_def) (simp add: json_string_def is_ws_def)
qed

lemma members_text_parse:
  assumes "ms \<noteq> []" "list_all (\<lambda>m. valid_utf8 (fst m) \<and> raw_value (snd m) (g (snd m))) ms"
    "2 * length (members_text ms) < f"
  shows "parse_members f (members_text ms @ CHR ''}'' # t) = Some (map (\<lambda>(k, r). (k, g r)) ms, t) \<and>
    raw_members_from f (members_text ms @ CHR ''}'' # t) = Some ms"
  using assms
proof (induction ms arbitrary: f)
  case (Cons m ms)
  obtain k r where m: "m = (k, r)" by fastforce
  obtain h where f: "f = Suc h" using Cons.prems(3) by (cases f) auto
  let ?tail = "(if ms = [] then [] else CHR '','' # members_text ms) @ CHR ''}'' # t"
  have r: "raw_value r (g r)" and k: "valid_utf8 k" using Cons.prems m by simp_all
  have d: "delim ?tail" by simp
  have v: "parse_value h (r @ ?tail) = Some (g r, ?tail)"
    using Cons.prems(3) m f by (intro raw_valueD [OF r d]) simp
  have sk: "skip_ws (r @ ?tail) = r @ ?tail" using raw_value_skip [OF r] .
  have ps: "parse_str (concat (map esc_chunk (runes k)) @ dquote # CHR '':'' # r @ ?tail)
      = Some (k, CHR '':'' # r @ ?tail)"
    by (rule parse_str_escaped [OF k])
  have IH: "ms \<noteq> [] \<Longrightarrow> parse_members h (members_text ms @ CHR ''}'' # t) = Some (map (\<lambda>(k, r). (k, g r)) ms, t)"
    "ms \<noteq> [] \<Longrightarrow> raw_members_from h (members_text ms @ CHR ''}'' # t) = Some ms"
    using Cons.IH [of h] Cons.prems m f by simp_all
  have len: "length (r @ ?tail) - length ?tail = length r" by simp
  show ?case
  proof
    show "parse_members f (members_text (m # ms) @ CHR ''}'' # t) = Some (map (\<lambda>(k, r). (k, g r)) (m # ms), t)"
      using v IH(1) ps f m by (cases "ms = []") (simp_all add: json_string_def is_ws_def)
    show "raw_members_from f (members_text (m # ms) @ CHR ''}'' # t) = Some (m # ms)"
      using v IH(2) ps f m sk by (cases "ms = []") (simp_all add: json_string_def is_ws_def)
  qed
qed simp_all

text \<open>Reading back an object written from raw texts gives the members and their texts.\<close>

theorem obj_text_roundtrip:
  assumes "list_all (\<lambda>m. valid_utf8 (fst m) \<and> raw_value (snd m) (g (snd m))) ms"
  shows "raw_value (obj_text ms) (JObj (map (\<lambda>(k, r). (k, g r)) ms))"
    "raw_members (obj_text ms) = ms"
proof -
  have "parse_value f (obj_text ms @ t) = Some (JObj (map (\<lambda>(k, r). (k, g r)) ms), t)"
    if le: "2 * length (obj_text ms) \<le> f" for f t
  proof (cases "ms = []")
    case True
    with le show ?thesis by (cases f) (simp_all add: obj_text_def is_ws_def)
  next
    case False
    obtain h where f: "f = Suc h" using le by (cases f) (auto simp: obj_text_def)
    have "parse_members h (members_text ms @ CHR ''}'' # t) = Some (map (\<lambda>(k, r). (k, g r)) ms, t)"
      using members_text_parse [OF False assms, of h t] le f by (simp add: obj_text_def)
    moreover obtain m ms' where "ms = m # ms'" using False by (cases ms) auto
    ultimately show ?thesis using f by (cases m) (simp add: obj_text_def is_ws_def json_string_def)
  qed
  then show "raw_value (obj_text ms) (JObj (map (\<lambda>(k, r). (k, g r)) ms))"
    by (simp add: raw_value_def) (simp add: obj_text_def is_ws_def)
  show "raw_members (obj_text ms) = ms"
  proof (cases "ms = []")
    case True
    then show ?thesis by (simp add: raw_members_def obj_text_def is_ws_def)
  next
    case False
    then obtain m ms' where m: "ms = m # ms'" by (cases ms) auto
    have "raw_members_from (2 * length (obj_text ms)) (members_text ms @ CHR ''}'' # []) = Some ms"
      by (rule conjunct2 [OF members_text_parse [OF False assms]]) (simp add: obj_text_def)
    moreover obtain u where "members_text ms = dquote # u"
      using m by (cases m) (simp add: json_string_def)
    ultimately show ?thesis by (simp add: raw_members_def obj_text_def is_ws_def)
  qed
qed

end
