(* ===== verification/Go_Compact.thy ===== *)
theory Go_Compact
  imports Go_Json
begin

text \<open>
  The copy \<^verbatim>\<open>json.Marshal\<close> makes of a \<^verbatim>\<open>json.RawMessage\<close> (\<^verbatim>\<open>json.compact\<close> with HTML escaping), and the
  proof that it keeps the meaning of the text: \<open>json_compact_value\<close>.
\<close>

section \<open>The scan\<close>

text \<open>
  \<^verbatim>\<open>json.Marshal\<close> of a \<^verbatim>\<open>json.RawMessage\<close> checks the text and copies it without the white space
  between tokens, escaping \<^verbatim>\<open><\<close>, \<^verbatim>\<open>>\<close>, \<^verbatim>\<open>&\<close>, U+2028 and U+2029. The flag says whether the scan is
  inside a string.
\<close>

fun compact_scan :: "bool \<Rightarrow> string \<Rightarrow> string" where
  "compact_scan q [] = []"
| "compact_scan False (c # t) =
     (if c = dquote then c # compact_scan True t
      else if is_ws c then compact_scan False t
      else c # compact_scan False t)"
| "compact_scan True (c # t) =
     (if c = dquote then c # compact_scan False t
      else if c = backslash then (case t of [] \<Rightarrow> [c] | d # u \<Rightarrow> c # d # compact_scan True u)
      else if c \<in> {CHR ''<'', CHR ''>'', CHR ''&''} then u_escape (byte c) @ compact_scan True t
      else if has_prefix (c # t) [CHR 0xE2, CHR 0x80, CHR 0xA8] then u_escape 0x2028 @ compact_scan True (drop 2 t)
      else if has_prefix (c # t) [CHR 0xE2, CHR 0x80, CHR 0xA9] then u_escape 0x2029 @ compact_scan True (drop 2 t)
      else c # compact_scan True t)"

definition json_compact :: "string \<Rightarrow> string option" where
  "json_compact s = (if json_valid s then Some (compact_scan False s) else None)"


lemma compact_skip: "compact_scan False (skip_ws s) = compact_scan False s"
  by (induction s) (auto simp: is_ws_def)

lemma compact_plain:
  assumes "c \<noteq> dquote" "c \<noteq> backslash" "c \<notin> {CHR ''<'', CHR ''>'', CHR ''&''}"
    "\<And>d. d = CHR 0xA8 \<or> d = CHR 0xA9 \<Longrightarrow> \<not> has_prefix (c # t) [CHR 0xE2, CHR 0x80, d]"
  shows "compact_scan True (c # t) = c # compact_scan True t"
  using assms(1-3) assms(4) [of "CHR 0xA8"] assms(4) [of "CHR 0xA9"]
  by (simp only: compact_scan.simps if_False simp_thms)

definition special_chars :: "char list" where
  "special_chars = [dquote, backslash, CHR ''<'', CHR ''>'', CHR ''&'', CHR 0xE2]"

lemma compact_not_special:
  "c \<notin> set special_chars \<Longrightarrow> compact_scan True (c # t) = c # compact_scan True t"
  by (rule compact_plain) (simp_all add: special_chars_def)

lemma special_not_cont: "list_all (\<lambda>c. \<not> is_cont c) special_chars"
  by code_simp

lemma compact_cont: "is_cont c \<Longrightarrow> compact_scan True (c # t) = c # compact_scan True t"
  using special_not_cont by (intro compact_not_special) (auto simp: list_all_iff)

lemma ok_second_cont: "ok_second c d \<Longrightarrow> is_cont d"
  by (auto simp: ok_second_def is_cont_def second_lo_def second_hi_def split: if_splits)

lemma decode2_cont: "decode2 c s = decode2 c (takeWhile is_cont s)"
  by (cases s) (auto dest: ok_second_cont)

lemma decode3_cont: "decode3 c s = decode3 c (takeWhile is_cont s)"
proof (induction c s rule: decode3.induct)
  case (1 c0 c1 c2 s)
  then show ?case by (auto dest: ok_second_cont)
qed (auto dest: ok_second_cont)

lemma decode4_cont: "decode4 c s = decode4 c (takeWhile is_cont s)"
  by (induction c s rule: decode4.induct) (auto dest: ok_second_cont)

lemma decode_rune_cont: "decode_rune (c # s) = decode_rune (c # takeWhile is_cont s)"
  using decode2_cont [of c s] decode3_cont [of c s] decode4_cont [of c s]
  by (simp only: decode_rune.simps)

lemma compact_escape: "compact_scan True (backslash # d # u) = backslash # d # compact_scan True u"
  by simp

definition hex_byte :: "char \<Rightarrow> bool" where
  "hex_byte c \<longleftrightarrow> hex_val c \<noteq> None"

lemma special_not_hex: "list_all (\<lambda>c. \<not> hex_byte c) special_chars"
  by code_simp

lemma compact_hex: "hex_byte c \<Longrightarrow> compact_scan True (c # t) = c # compact_scan True t"
  using special_not_hex by (intro compact_not_special) (auto simp: list_all_iff)

declare compact_scan.simps [simp del]

lemma get_u4_Some:
  assumes "get_u4 s = Some (r, t)"
  obtains a b c d where "s = a # b # c # d # t" "hex_byte a" "hex_byte b" "hex_byte c" "hex_byte d"
    "\<And>u. get_u4 (a # b # c # d # u) = Some (r, u)"
  using assms by (induction s rule: get_u4.induct) (auto simp: hex_byte_def split: option.splits)

lemma low_surrogate_Some:
  assumes "low_surrogate s = Some (r, t)"
  obtains a b c d where "s = backslash # CHR ''u'' # a # b # c # d # t" "hex_byte a" "hex_byte b" "hex_byte c" "hex_byte d"
    "\<And>u. low_surrogate (backslash # CHR ''u'' # a # b # c # d # u) = Some (r, u)"
proof -
  from assms obtain u where u: "s = backslash # CHR ''u'' # u" and g: "get_u4 u = Some (r, t)"
    and r: "0xDC00 \<le> r" "r \<le> 0xDFFF"
    by (induction s rule: low_surrogate.induct) (auto split: if_splits option.splits)
  from g show thesis
    by (rule get_u4_Some) (use u r that in auto)
qed

lemma hex_not_newline: "hex_byte c \<Longrightarrow> c \<noteq> newline"
  by (auto simp: hex_byte_def hex_val_def)

lemma parse_u_compact:
  assumes "parse_u s = Some (b, t)" "compact_scan True t = q @ z"
    "\<And>w. low_surrogate t = None \<Longrightarrow> low_surrogate (q @ w) = None"
  shows "\<exists>p. compact_scan True s = p @ q @ z \<and> newline \<notin> set p \<and> (\<forall>w. parse_u (p @ q @ w) = Some (b, q @ w)) \<and>
    (\<forall>w. get_u4 s = None \<or> map_option fst (get_u4 (p @ q @ w)) = map_option fst (get_u4 s))"
proof -
  obtain r s' where g: "get_u4 s = Some (r, s')" using assms(1) by (auto simp: parse_u_def split: option.splits)
  from g obtain h1 h2 h3 h4 where h: "s = h1 # h2 # h3 # h4 # s'" "hex_byte h1" "hex_byte h2" "hex_byte h3" "hex_byte h4"
    "\<And>u. get_u4 (h1 # h2 # h3 # h4 # u) = Some (r, u)" by (rule get_u4_Some) blast
  show ?thesis
  proof (cases "is_surrogate r \<and> r < 0xDC00 \<and> low_surrogate s' \<noteq> None")
    case True
    then obtain r2 s'' where l: "low_surrogate s' = Some (r2, s'')" by auto
    then have t: "t = s''" "b = encode_rune ((r - 0xD800) * 1024 + (r2 - 0xDC00) + 0x10000)"
      using assms(1) g True by (auto simp: parse_u_def)
    from l obtain k1 k2 k3 k4 where k: "s' = backslash # CHR ''u'' # k1 # k2 # k3 # k4 # s''"
      "hex_byte k1" "hex_byte k2" "hex_byte k3" "hex_byte k4"
      "\<And>u. low_surrogate (backslash # CHR ''u'' # k1 # k2 # k3 # k4 # u) = Some (r2, u)"
      by (rule low_surrogate_Some) blast
    show ?thesis
      using True h k t assms(2)
      by (intro exI [of _ "[h1, h2, h3, h4, backslash, CHR ''u'', k1, k2, k3, k4]"])
        (simp add: compact_hex compact_escape parse_u_def hex_not_newline [THEN not_sym]
          del: get_u4.simps low_surrogate.simps)
  next
    case False
    then have t: "t = s'" "b = (if is_surrogate r then encode_rune rune_error else encode_rune r)"
      using assms(1) g by (auto simp: parse_u_def split: option.splits if_splits)
    have "low_surrogate (q @ w) = None" if "is_surrogate r" "r < 0xDC00" for w
      using False that t(1) assms(3) [of w] by blast
    then have "parse_u ([h1, h2, h3, h4] @ q @ w) = Some (b, q @ w)" for w
      using t(2) h(6) by (simp add: parse_u_def del: get_u4.simps)
    then show ?thesis
      using h t assms(2)
      by (intro exI [of _ "[h1, h2, h3, h4]"]) (simp add: compact_hex hex_not_newline [THEN not_sym] del: get_u4.simps)
  qed
qed


text \<open>
  Compacting the rest of a string literal: what it reads as does not change, and neither do the
  bytes a look-ahead of the decoder could see.
\<close>

definition str_compact :: "string \<Rightarrow> string \<Rightarrow> string \<Rightarrow> string \<Rightarrow> bool" where
  "str_compact s x r q \<longleftrightarrow> compact_scan True s = q @ compact_scan False r \<and> newline \<notin> set q \<and>
     (\<forall>w. parse_str (q @ w) = Some (x, w) \<and> takeWhile is_cont (q @ w) = takeWhile is_cont s \<and>
          (low_surrogate s = None \<longrightarrow> low_surrogate (q @ w) = None))"

lemma low_surrogate_first: "c \<noteq> backslash \<Longrightarrow> low_surrogate (c # t) = None"
  by (cases t) auto

lemma low_surrogate_escape: "d \<noteq> CHR ''u'' \<Longrightarrow> low_surrogate (c # d # t) = None"
  by auto

lemma low_surrogate_get_u4:
  "map_option fst (get_u4 s) = map_option fst (get_u4 t) \<Longrightarrow>
     low_surrogate (c # d # s) = None \<Longrightarrow> low_surrogate (c # d # t) = None"
  by (auto simp del: get_u4.simps split: if_splits option.splits)

lemma low_surrogate_u_escape:
  "r < 0xDC00 \<Longrightarrow> low_surrogate (u_escape r @ t) = None"
proof -
  assume r: "r < 0xDC00"
  have e: "u_escape r @ t = backslash # CHR ''u'' # (drop 2 (u_escape r) @ t)"
    by (simp add: u_escape_def)
  show ?thesis unfolding e using r get_u4_u_escape [of r t] by (simp del: get_u4.simps)
qed

lemma u_escape_newline: "newline \<notin> set (u_escape r)"
proof -
  have "hex_char d \<noteq> newline" if "d < 16" for d
    using that by (auto simp: hex_char_def of_char_eq_iff [symmetric, where 'a = nat] simp del: of_char_eq_iff)
  then have "hex_char (n mod 16) \<noteq> newline" for n by simp
  from this [THEN not_sym] show ?thesis by (simp add: u_escape_def)
qed

lemma u_escape_cont: "takeWhile is_cont (u_escape r @ t) = []"
  by (simp add: u_escape_def is_cont_def)

lemma str_compact_quote: "str_compact (dquote # t) [] t [dquote]"
  by (simp add: str_compact_def compact_scan.simps parse_str.simps is_cont_def low_surrogate_first)

lemma str_compact_escape:
  assumes e: "parse_esc (d # u) = Some (b, t')" and q: "str_compact t' y r q"
  shows "\<exists>p. str_compact (backslash # d # u) (b @ y) r p"
proof (cases "d = CHR ''u''")
  case False
  then have "t' = u" and e': "parse_esc (d # w) = Some (b, w)" and n: "d \<noteq> newline" for w
    using e by (auto split: if_splits)
  then have "str_compact (backslash # d # u) (b @ y) r (backslash # d # q)"
    using q False e' [of "q @ w" for w]
    by (auto simp: str_compact_def compact_escape parse_str.simps(2) [of backslash] is_cont_def
        low_surrogate_escape simp del: low_surrogate.simps parse_esc.simps)
  then show ?thesis by blast
next
  case True
  then have "parse_u u = Some (b, t')" using e by simp
  then obtain p where p: "compact_scan True u = p @ q @ compact_scan False r" "newline \<notin> set p"
    "\<And>w. parse_u (p @ q @ w) = Some (b, q @ w)"
    "\<And>w. get_u4 u = None \<or> map_option fst (get_u4 (p @ q @ w)) = map_option fst (get_u4 u)"
    using parse_u_compact [of u b t' q "compact_scan False r"] q by (auto simp: str_compact_def)
  have g: "map_option fst (get_u4 u) = map_option fst (get_u4 (p @ q @ w))" for w
    using p(4) [of w] \<open>parse_u u = Some (b, t')\<close> by (auto simp: parse_u_def)
  have "parse_str (backslash # d # p @ q @ w) = Some (b @ y, w)" for w
    using p(3) [of w] q True by (simp add: parse_str.simps(2) [of backslash] str_compact_def)
  moreover have "low_surrogate (backslash # d # u) = None \<longrightarrow> low_surrogate (backslash # d # p @ q @ w) = None" for w
    using low_surrogate_get_u4 [OF g] by blast
  ultimately have "str_compact (backslash # d # u) (b @ y) r (backslash # d # p @ q)"
    using p(1,2) q True by (simp add: str_compact_def compact_escape is_cont_def del: low_surrogate.simps)
  then show ?thesis by blast
qed

lemma str_compact_html:
  assumes "c \<in> {CHR ''<'', CHR ''>'', CHR ''&''}" "str_compact t y r q"
  shows "str_compact (c # t) (c # y) r (u_escape (byte c) @ q)"
proof -
  have "encode_rune (byte c) = [c]" using assms(1) by (auto simp: encode_rune_def)
  moreover have b: "byte c < 0xDC00" "\<not> is_surrogate (byte c)" "\<not> is_cont c" "c \<noteq> backslash" "c \<noteq> dquote"
    using assms(1) by (auto simp: is_surrogate_def is_cont_def)
  ultimately show ?thesis
    using assms low_surrogate_u_escape [OF b(1)]
    by (auto simp: str_compact_def compact_scan.simps parse_str_u_escape u_escape_cont u_escape_newline low_surrogate_first)
qed

lemma str_compact_separator:
  assumes "d = CHR 0xA8 \<and> e = 0x2028 \<or> d = CHR 0xA9 \<and> e = 0x2029" "str_compact t y r q"
  shows "str_compact (CHR 0xE2 # CHR 0x80 # d # t) (encode_rune e @ y) r (u_escape e @ q)"
proof -
  have b: "e < 0xDC00" "e < 65536" "\<not> is_surrogate e" 
    using assms(1) by (auto simp: is_surrogate_def)
  have n: "\<not> is_cont (CHR 0xE2)"
    by (simp add: is_cont_def)
  have c: "compact_scan True (CHR 0xE2 # CHR 0x80 # d # t) = u_escape e @ compact_scan True t"
    using assms(1) by (elim disjE conjE) (simp_all add: compact_scan.simps)
  have q: "compact_scan True t = q @ compact_scan False r" "\<And>w. parse_str (q @ w) = Some (y, w)"
    using assms(2) by (auto simp: str_compact_def)
  have p: "parse_str ((u_escape e @ q) @ w) = Some (encode_rune e @ y, w)" for w
    by (simp add: parse_str_u_escape [OF b(2,3)] q(2))
  have k: "takeWhile is_cont ((u_escape e @ q) @ w) = takeWhile is_cont (CHR 0xE2 # CHR 0x80 # d # t)" for w
    by (simp only: u_escape_cont append.assoc takeWhile.simps n if_False)
  have z: "low_surrogate ((u_escape e @ q) @ w) = None" for w
    by (simp only: append.assoc low_surrogate_u_escape [OF b(1)])
  have nl: "newline \<notin> set (u_escape e @ q)"
    using u_escape_newline [of e] assms(2) by (simp add: str_compact_def)
  show ?thesis
    unfolding str_compact_def c q(1) using p k z nl by (simp only: append.assoc simp_thms)
qed

lemma str_compact_conts:
  "list_all is_cont cs \<Longrightarrow> compact_scan True (cs @ t) = cs @ compact_scan True t"
  by (induction cs) (auto simp: compact_cont)

lemma decode_rune_conts:
  assumes "decode_rune (c # t) = (r, n)" "1 < n"
  shows "\<not> is_cont c" "list_all is_cont (take (n - 1) t)" "n - 1 \<le> length t"
proof -
  have g: "\<not> (r = rune_error \<and> n = 1)" using assms(2) by simp
  have "\<not> is_cont c \<and> list_all is_cont (take (n - 1) t)"
    using assms(1) _ g by (cases rule: decode_rune_cases) (use assms(2) in \<open>auto simp: is_cont_def dest: ok_second_cont\<close>)
  then show "\<not> is_cont c" "list_all is_cont (take (n - 1) t)" by blast+
  show "n - 1 \<le> length t"
    using decode_rune_width [of "c # t"] assms(1) by auto
qed

lemma str_compact_plain:
  assumes "c \<noteq> dquote" "c \<noteq> backslash" "\<not> byte c < 0x20" "c \<notin> {CHR ''<'', CHR ''>'', CHR ''&''}"
    "\<And>d. d = CHR 0xA8 \<or> d = CHR 0xA9 \<Longrightarrow> \<not> has_prefix (c # t) [CHR 0xE2, CHR 0x80, d]"
    "decode_rune (c # t) = (rn, n)" "str_compact (drop n (c # t)) y r q"
  shows "str_compact (c # t) (encode_rune rn @ y) r (take n (c # t) @ q)"
proof -
  have n: "1 \<le> n" "n \<le> length (c # t)" using decode_rune_width [of "c # t"] assms(6) by simp_all
  obtain m where m: "n = Suc m" using n(1) by (cases n) auto
  have conts: "list_all is_cont (take m t)"
    using decode_rune_conts(2) [OF assms(6)] m by (cases m) auto
  have q: "compact_scan True (drop m t) = q @ compact_scan False r"
    "\<And>w. parse_str (q @ w) = Some (y, w)" "\<And>w. takeWhile is_cont (q @ w) = takeWhile is_cont (drop m t)"
    using assms(7) m by (auto simp: str_compact_def)
  have "compact_scan True (take m t @ drop m t) = take m t @ q @ compact_scan False r"
    using str_compact_conts [OF conts] q(1) by metis
  then have 1: "compact_scan True (c # t) = (take n (c # t) @ q) @ compact_scan False r"
    using compact_plain [OF assms(1,2,4,5)] m by simp
  have tw: "takeWhile is_cont (take m t @ q @ w) = takeWhile is_cont t" for w
    using q(3) [of w] takeWhile_append2 [of "take m t" is_cont] conts
    by (metis append_take_drop_id list_all_iff)
  have "decode_rune (c # take m t @ q @ w) = (rn, n)" for w
    using assms(6) decode_rune_cont [of c "take m t @ q @ w"] decode_rune_cont [of c t] tw by simp
  moreover have "drop n (c # take m t @ q @ w) = q @ w" for w
    using m n(2) by simp
  ultimately have 2: "parse_str ((take n (c # t) @ q) @ w) = Some (encode_rune rn @ y, w)" for w
    using assms(1-3) q(2) m by (simp add: parse_str.simps(2))
  have 3: "takeWhile is_cont ((take n (c # t) @ q) @ w) = takeWhile is_cont (c # t)" for w
    using tw [of w] m by simp
  have 4: "low_surrogate ((take n (c # t) @ q) @ w) = None" for w
    using assms(2) m by (simp add: low_surrogate_first)
  have nl: "newline \<noteq> c" "\<not> is_cont newline"
    using assms(3) by (auto simp: is_cont_def)
  have 5: "newline \<notin> set (take n (c # t) @ q)"
    using conts nl assms(7) m by (auto simp: list_all_iff str_compact_def)
  show ?thesis
    unfolding str_compact_def using 1 2 3 4 5 by blast
qed

theorem parse_str_compact:
  "parse_str s = Some (x, r) \<Longrightarrow> \<exists>q. str_compact s x r q"
proof (induction s arbitrary: x r rule: parse_str.induct)
  case (2 c t)
  consider "c = dquote" | "c \<noteq> dquote" "c = backslash" | "c \<noteq> dquote" "c \<noteq> backslash" "\<not> byte c < 0x20"
    using 2(3) by (auto simp: parse_str.simps(2) [of c] split: if_splits)
  then show ?case
  proof cases
    case 1
    then show ?thesis using 2(3) str_compact_quote by (auto simp: parse_str.simps(2))
  next
    case b: 2
    then obtain e t' y where e: "parse_esc t = Some (e, t')" "parse_str t' = Some (y, r)" "x = e @ y"
      using 2(3) by (auto simp: parse_str.simps(2) split: option.splits)
    obtain q where "str_compact t' y r q" using 2(1) [OF b e(1) refl e(2)] by blast
    moreover obtain d u where "t = d # u" using e(1) by (cases t) auto
    ultimately show ?thesis using e b str_compact_escape by blast
  next
    case 3
    obtain rn n where rn: "decode_rune (c # t) = (rn, n)" by fastforce
    then obtain y where y: "parse_str (drop n (c # t)) = Some (y, r)" "x = encode_rune rn @ y"
      using 2(3) 3 by (auto simp: parse_str.simps(2) [of c])
    then obtain q where q: "str_compact (drop n (c # t)) y r q" using 2(2) [OF 3] rn by auto
    consider (html) "c \<in> {CHR ''<'', CHR ''>'', CHR ''&''}"
      | (sep) d where "d = CHR 0xA8 \<or> d = CHR 0xA9" "has_prefix (c # t) [CHR 0xE2, CHR 0x80, d]"
      | (plain) "c \<notin> {CHR ''<'', CHR ''>'', CHR ''&''}"
          "\<And>d. d = CHR 0xA8 \<or> d = CHR 0xA9 \<Longrightarrow> \<not> has_prefix (c # t) [CHR 0xE2, CHR 0x80, d]"
      by blast
    then show ?thesis
    proof cases
      case html
      then have a: "byte c < 0x80" by auto
      then have "n = 1" "rn = byte c" using rn by (simp_all add: decode_rune.simps)
      moreover have "encode_rune (byte c) = [c]" using a by (simp add: encode_rune_def)
      ultimately have "str_compact (c # t) x r (u_escape (byte c) @ q)"
        using str_compact_html [OF html, of t y r q] q y by simp
      then show ?thesis by blast
    next
      case sep
      then obtain u where u: "c # t = CHR 0xE2 # CHR 0x80 # d # u" using has_prefixE by fastforce
      define e :: nat where "e = (if d = CHR 0xA8 then 0x2028 else 0x2029)"
      have de: "d = CHR 0xA8 \<and> e = 0x2028 \<or> d = CHR 0xA9 \<and> e = 0x2029"
        using sep(1) by (auto simp: e_def)
      then have "decode_rune (c # t) = (e, 3)"
        unfolding u by (elim disjE conjE)
          (simp_all add: decode_rune.simps ok_second_def second_lo_def second_hi_def is_cont_def)
      then have "str_compact u y r q" "rn = e" using q rn u by simp_all
      then show ?thesis using str_compact_separator [OF de] u y(2) by metis
    next
      case plain
      show ?thesis using str_compact_plain [OF 3 plain rn q] y(2) by blast
    qed
  qed
qed (simp add: parse_str.simps)


subsection \<open>Numbers\<close>

definition not_digit :: "string \<Rightarrow> bool" where
  "not_digit u \<longleftrightarrow> u = [] \<or> \<not> is_digit (hd u)"

lemma delim_not_digit: "delim u \<Longrightarrow> not_digit u"
  by (auto simp: delim_def not_digit_def is_digit_def)

lemma digits_of_exact:
  assumes "digits_of s = (ds, r)"
  shows "s = ds @ r" "not_digit u \<Longrightarrow> digits_of (ds @ u) = (ds, u)" "list_all is_digit ds"
proof -
  show s: "s = ds @ r" "list_all is_digit ds"
    using assms by (auto simp: digits_of_def list_all_iff dest: set_takeWhileD)
  show "digits_of (ds @ u) = (ds, u)" if "not_digit u"
  proof -
    have "takeWhile is_digit u = []" "dropWhile is_digit u = u"
      using that by (cases u; simp add: not_digit_def)+
    then show ?thesis using s(2)
      by (auto simp: digits_of_def list_all_iff takeWhile_append2 dropWhile_append2)
  qed
qed

definition num_chars :: "string \<Rightarrow> bool" where
  "num_chars l \<longleftrightarrow> list_all (\<lambda>c. is_digit c \<or> c \<in> {CHR ''-'', CHR ''+'', CHR ''.'', CHR ''e'', CHR ''E''}) l"

lemma num_chars_digits: "list_all is_digit ds \<Longrightarrow> num_chars ds"
  by (auto simp: num_chars_def list_all_iff)

lemma num_int_exact:
  assumes "num_int s = Some (i, r)"
  shows "s = i @ r" "i \<noteq> []" "hd i \<noteq> CHR ''-''" "not_digit u \<Longrightarrow> num_int (i @ u) = Some (i, u)" "num_chars i"
proof -
  obtain c t where c: "s = c # t" using assms by (cases s) (auto simp: num_int_def)
  have "s = i @ r \<and> i \<noteq> [] \<and> hd i \<noteq> CHR ''-'' \<and> (not_digit u \<longrightarrow> num_int (i @ u) = Some (i, u)) \<and> num_chars i"
  proof (cases "c = CHR ''0''")
    case True
    then show ?thesis using assms c by (auto simp: num_int_def num_chars_def is_digit_def)
  next
    case False
    then have d: "is_digit c" "digits_of s = (i, r)" using assms c by (auto simp: num_int_def split: if_splits)
    then obtain ds where i: "i = c # ds" using c by (auto simp: digits_of_def)
    then show ?thesis using digits_of_exact [OF d(2)] d(1) False num_chars_digits
      by (auto simp: num_int_def is_digit_def)
  qed
  then show "s = i @ r" "i \<noteq> []" "hd i \<noteq> CHR ''-''" "not_digit u \<Longrightarrow> num_int (i @ u) = Some (i, u)" "num_chars i"
    by blast+
qed

lemma num_frac_exact:
  assumes "num_frac s = Some (i, r)"
  shows "s = i @ r" "num_chars i" "i = [] \<or> hd i = CHR ''.''"
    "not_digit u \<Longrightarrow> u = [] \<or> hd u \<noteq> CHR ''.'' \<Longrightarrow> num_frac (i @ u) = Some (i, u)"
proof -
  have "s = i @ r \<and> num_chars i \<and> (i = [] \<or> hd i = CHR ''.'') \<and>
      (not_digit u \<longrightarrow> u = [] \<or> hd u \<noteq> CHR ''.'' \<longrightarrow> num_frac (i @ u) = Some (i, u))"
  proof (cases "i = []")
    case True
    then show ?thesis using assms
      by (cases s; cases u) (auto simp: num_frac_def num_chars_def split: if_splits prod.splits)
  next
    case False
    then obtain t ds where t: "s = CHR ''.'' # t" "digits_of t = (ds, r)" "i = CHR ''.'' # ds" "ds \<noteq> []"
      using assms by (auto simp: num_frac_def split: list.splits if_splits prod.splits)
    then show ?thesis using digits_of_exact [OF t(2)] num_chars_digits [of ds]
      by (auto simp: num_frac_def num_chars_def)
  qed
  then show "s = i @ r" "num_chars i" "i = [] \<or> hd i = CHR ''.''"
    "not_digit u \<Longrightarrow> u = [] \<or> hd u \<noteq> CHR ''.'' \<Longrightarrow> num_frac (i @ u) = Some (i, u)"
    by blast+
qed

lemma num_sign_exact:
  assumes "num_sign s = (i, r)" "ds \<noteq> []" "list_all is_digit ds"
  shows "s = i @ r" "num_chars i" "num_sign (i @ ds @ u) = (i, ds @ u)"
  using assms by (cases ds; auto simp: num_sign_def num_chars_def is_digit_def split: list.splits if_splits)+

lemma num_exp_exact:
  assumes "num_exp s = Some (i, r)"
  shows "s = i @ r \<and> num_chars i \<and> (i = [] \<or> hd i \<in> {CHR ''e'', CHR ''E''}) \<and>
    (not_digit u \<longrightarrow> u = [] \<or> hd u \<notin> {CHR ''e'', CHR ''E''} \<longrightarrow> num_exp (i @ u) = Some (i, u))"
proof (cases "i = []")
  case True
  then show ?thesis using assms
    by (cases s; cases u) (auto simp: num_exp_def num_chars_def split: if_splits prod.splits)
next
  case False
  then obtain c t sg t' ds where t: "s = c # t" "c \<in> {CHR ''e'', CHR ''E''}" "num_sign t = (sg, t')"
    "digits_of t' = (ds, r)" "i = c # sg @ ds" "ds \<noteq> []"
    using assms by (auto simp: num_exp_def split: list.splits if_splits prod.splits)
  note d = digits_of_exact [OF t(4)]
  note g = num_sign_exact [OF t(3,6) d(3)]
  show ?thesis using t d g num_chars_digits [of ds]
    by (auto simp: num_exp_def num_chars_def)
qed

lemma parse_num_exact:
  assumes "parse_num s = Some (l, r)"
  shows "s = l @ r" "num_chars l" "delim u \<Longrightarrow> parse_num (l @ u) = Some (l, u)"
proof -
  obtain m s0 where m: "num_minus s = (m, s0)" by fastforce
  with assms obtain i s1 f s2 e where
    h: "num_int s0 = Some (i, s1)" "num_frac s1 = Some (f, s2)" "num_exp s2 = Some (e, r)"
      "l = m @ i @ f @ e"
    by (auto simp: parse_num_def split: option.splits)
  have mm: "s = m @ s0" "m = [] \<or> m = [CHR ''-'']"
    using m by (auto simp: num_minus_def split: list.splits if_splits)
  note I = num_int_exact [OF h(1)] and F = num_frac_exact [OF h(2)] and E = num_exp_exact [OF h(3)]
  show "s = l @ r" using mm I(1) F(1) E h(4) by simp
  show "num_chars l" using mm(2) I(5) F(2) E h(4) by (auto simp: num_chars_def)
  assume d: "delim u"
  have e: "num_exp (e @ u) = Some (e, u)"
    using E [of u] d delim_not_digit [OF d] by (cases u) (auto simp: delim_def)
  have hd_e: "e = [] \<or> hd e = CHR ''e'' \<or> hd e = CHR ''E''" using E [of u] by blast
  have eu: "not_digit (e @ u) \<and> (e @ u = [] \<or> hd (e @ u) \<noteq> CHR ''.'')"
    using hd_e d by (cases e) (auto simp: not_digit_def delim_def is_digit_def)
  have f: "num_frac (f @ e @ u) = Some (f, e @ u)"
    using F(4) eu by blast
  have "not_digit (f @ e @ u)" using F(3) eu by (cases f) (auto simp: not_digit_def is_digit_def)
  then have i: "num_int (i @ f @ e @ u) = Some (i, f @ e @ u)" by (rule I(4))
  have mi: "num_minus (m @ i @ f @ e @ u) = (m, i @ f @ e @ u)"
    using mm(2) I(2,3) by (cases i) (auto simp: num_minus_def)
  show "parse_num (l @ u) = Some (l, u)"
    by (simp add: h(4) parse_num_def mi i f e)
qed

lemma num_chars_no_quote: "num_chars l \<Longrightarrow> c \<in> set l \<Longrightarrow> c \<noteq> dquote \<and> \<not> is_ws c"
  by (auto simp: num_chars_def list_all_iff is_ws_def is_digit_def)

lemma compact_outside:
  "(\<And>c. c \<in> set l \<Longrightarrow> c \<noteq> dquote \<and> \<not> is_ws c) \<Longrightarrow> compact_scan False (l @ t) = l @ compact_scan False t"
  by (induction l) (auto simp: compact_scan.simps)


subsection \<open>Values\<close>

lemma parse_str_compact_value:
  assumes "parse_str t = Some (x, r)"
  obtains q where "compact_scan False (dquote # t) = dquote # q @ compact_scan False r"
    "\<And>w. parse_str (q @ w) = Some (x, w)" "newline \<notin> set q"
proof -
  obtain q where q: "str_compact t x r q" using parse_str_compact [OF assms] by blast
  show thesis
    by (rule that [of q]) (use q in \<open>auto simp: str_compact_def compact_scan.simps(2)\<close>)
qed

lemma compact_literal:
  assumes "has_prefix s l" "\<And>c. c \<in> set l \<Longrightarrow> c \<noteq> dquote \<and> \<not> is_ws c"
  shows "compact_scan False s = l @ compact_scan False (drop (length l) s)"
proof -
  have "s = l @ drop (length l) s" using assms(1) by (metis append_take_drop_id has_prefix_def)
  then show ?thesis using compact_outside [of l "drop (length l) s"] assms(2) by metis
qed

lemma compact_Cons_plain: "c \<noteq> dquote \<Longrightarrow> \<not> is_ws c \<Longrightarrow> compact_scan False (c # t) = c # compact_scan False t"
  by (simp add: compact_scan.simps)

lemma compact_skipD: "skip_ws s = c # t \<Longrightarrow> compact_scan False s = compact_scan False (c # t)"
  by (metis compact_skip)

definition starts_value :: "string \<Rightarrow> bool" where
  "starts_value q \<longleftrightarrow> q \<noteq> [] \<and> \<not> is_ws (hd q) \<and> hd q \<noteq> CHR '']'' \<and> hd q \<noteq> CHR ''}'' \<and> newline \<notin> set q"

lemma starts_value_skip: "starts_value q \<Longrightarrow> skip_ws (q @ w) = q @ w"
  by (cases q) (auto simp: starts_value_def)

lemma starts_value_Cons: "starts_value (c # q) \<longleftrightarrow> \<not> is_ws c \<and> c \<noteq> CHR '']'' \<and> c \<noteq> CHR ''}'' \<and> newline \<notin> set q"
  by (auto simp: starts_value_def is_ws_def)

lemma bracket_ws [simp]:
  "\<not> is_ws CHR ''[''" "\<not> is_ws CHR '']''" "\<not> is_ws CHR ''{''" "\<not> is_ws CHR ''}''" "\<not> is_ws CHR '',''"
  "\<not> is_ws CHR '':''" "\<not> is_ws dquote" "\<not> is_ws CHR ''n''" "\<not> is_ws CHR ''t''" "\<not> is_ws CHR ''f''"
  by (simp_all add: is_ws_def)

lemma compact_close:
  "skip_ws r = d # u \<Longrightarrow> d \<noteq> dquote \<Longrightarrow> \<not> is_ws d \<Longrightarrow> compact_scan False r = d # compact_scan False u"
  using compact_skipD [of r d u] by (simp add: compact_Cons_plain)

lemma parse_value_open:
  "parse_value (Suc f) (CHR ''['' # q @ w) = map_option (\<lambda>(x, r). (JArr x, r)) (parse_elems f (q @ w))"
  if "starts_value q" for q
  using that starts_value_skip [OF that] by (cases q) (auto simp: starts_value_def simp del: parse_elems.simps)

lemma parse_value_brace:
  "parse_value (Suc f) (CHR ''{'' # dquote # q) = map_option (\<lambda>(x, r). (JObj x, r)) (parse_members f (dquote # q))"
  by (simp del: parse_members.simps)

lemma parse_value_SomeE:
  assumes "parse_value (Suc f) s = Some (v, r)"
  obtains (str) t x where "skip_ws s = dquote # t" "parse_str t = Some (x, r)" "v = JStr x"
      | (arr) t x where "skip_ws s = CHR ''['' # t" "skip_ws t \<noteq> []" "hd (skip_ws t) \<noteq> CHR '']''"
          "parse_elems f t = Some (x, r)" "v = JArr x"
      | (arr0) t where "skip_ws s = CHR ''['' # t" "skip_ws t = CHR '']'' # r" "v = JArr []"
      | (obj) t x where "skip_ws s = CHR ''{'' # t" "skip_ws t \<noteq> []" "hd (skip_ws t) \<noteq> CHR ''}''"
          "parse_members f t = Some (x, r)" "v = JObj x"
      | (obj0) t where "skip_ws s = CHR ''{'' # t" "skip_ws t = CHR ''}'' # r" "v = JObj []"
      | (lit) l where "(l, v) \<in> {(''null'', JNull), (''true'', JBool True), (''false'', JBool False)}"
          "has_prefix (skip_ws s) l" "r = drop (length l) (skip_ws s)"
      | (num) l where "parse_num (skip_ws s) = Some (l, r)" "v = JNum l"
          "\<And>g. parse_value (Suc g) s = Some (v, r)"
proof -
  from assms obtain c t where ct: "skip_ws s = c # t" by (cases "skip_ws s") auto
  note unf = parse_value.simps(2) [of _ s, unfolded ct list.case]
  consider "c = dquote" | "c = CHR ''[''" | "c = CHR ''{''"
    | l w where "(l, w) \<in> {(''null'', JNull), (''true'', JBool True), (''false'', JBool False)}" "has_prefix (c # t) l"
    | "c \<noteq> dquote" "c \<noteq> CHR ''[''" "c \<noteq> CHR ''{''" "\<not> has_prefix (c # t) ''null''"
      "\<not> has_prefix (c # t) ''true''" "\<not> has_prefix (c # t) ''false''"
    by blast
  then show thesis
  proof cases
    case 1
    then show ?thesis using assms ct str [of t] unfolding unf by auto
  next
    case 2
    then obtain d u where u: "skip_ws t = d # u" using assms unfolding unf by (cases "skip_ws t") auto
    show ?thesis
    proof (cases "d = CHR '']''")
      case True
      then show ?thesis using 2 u assms ct arr0 [of t] unfolding unf by simp
    next
      case False
      then obtain x where "parse_elems f t = Some (x, r)" "v = JArr x" using 2 u assms unfolding unf by auto
      then show ?thesis using 2 False u ct arr [of t x] by simp
    qed
  next
    case 3
    then obtain d u where u: "skip_ws t = d # u" using assms unfolding unf by (cases "skip_ws t") auto
    show ?thesis
    proof (cases "d = CHR ''}''")
      case True
      then show ?thesis using 3 u assms ct obj0 [of t] unfolding unf by simp
    next
      case False
      then obtain x where "parse_members f t = Some (x, r)" "v = JObj x" using 3 u assms unfolding unf by auto
      then show ?thesis using 3 False u ct obj [of t x] by simp
    qed
  next
    case (4 l w)
    then have "v = w \<and> r = drop (length l) (c # t)" using assms unfolding unf
      by (auto simp: numeral_3_eq_3 numeral_eq_Suc)
    then show ?thesis using 4 ct lit [of l] by auto
  next
    case 5
    then obtain l where "parse_num (c # t) = Some (l, r)" "v = JNum l"
      using assms unfolding unf by (auto simp only: if_False option.map prod.case split: option.splits)
    moreover have "parse_value (Suc g) s = Some (v, r)" for g
      using 5 calculation unfolding unf by simp
    ultimately show ?thesis using num ct by simp
  qed
qed

theorem compact_parse:
  "parse_value f s = Some (v, r) \<Longrightarrow> \<exists>q. compact_scan False s = q @ compact_scan False r \<and> starts_value q \<and>
     (\<forall>w. delim w \<longrightarrow> parse_value f (q @ w) = Some (v, w))"
  "parse_elems f s = Some (vs, r) \<Longrightarrow> \<exists>q. compact_scan False s = q @ compact_scan False r \<and> starts_value q \<and>
     (\<forall>w. parse_elems f (q @ w) = Some (vs, w))"
  "parse_members f s = Some (ms, r) \<Longrightarrow> \<exists>q. compact_scan False s = dquote # q @ compact_scan False r \<and> newline \<notin> set q \<and>
     (\<forall>w. parse_members f (dquote # q @ w) = Some (ms, w))"
proof (induction f arbitrary: s v r vs ms)
  case (Suc f)
  {
    case 1
    then show ?case
    proof (cases rule: parse_value_SomeE)
      case (str t x)
      obtain q where "compact_scan False (dquote # t) = dquote # q @ compact_scan False r"
        "\<And>w. parse_str (q @ w) = Some (x, w)" "newline \<notin> set q" by (rule parse_str_compact_value [OF str(2)]) blast
      then show ?thesis using str(3) compact_skipD [OF str(1)]
        by (intro exI [of _ "dquote # q"]) (simp add: starts_value_Cons)
    next
      case (arr t x)
      obtain q where q: "compact_scan False t = q @ compact_scan False r" "starts_value q"
        "\<And>w. parse_elems f (q @ w) = Some (x, w)" using Suc.IH(2) [OF arr(4)] by blast
      then show ?thesis using arr(5) compact_skipD [OF arr(1)] parse_value_open [OF q(2), of f] q(2) [unfolded starts_value_def]
        by (intro exI [of _ "CHR ''['' # q"]) (simp add: starts_value_Cons compact_Cons_plain del: parse_value.simps)
    next
      case (arr0 t)
      then show ?thesis using compact_skipD [OF arr0(1)] compact_close [OF arr0(2)]
        by (intro exI [of _ "''[]''"]) (simp add: starts_value_Cons compact_Cons_plain)
    next
      case (obj t x)
      obtain q where q: "compact_scan False t = dquote # q @ compact_scan False r"
        "\<And>w. parse_members f (dquote # q @ w) = Some (x, w)" "newline \<notin> set q" using Suc.IH(3) [OF obj(4)] by blast
      then show ?thesis using obj(5) compact_skipD [OF obj(1)] parse_value_brace [of f]
        by (intro exI [of _ "CHR ''{'' # dquote # q"])
          (simp add: starts_value_Cons compact_Cons_plain del: parse_value.simps)
    next
      case (obj0 t)
      then show ?thesis using compact_skipD [OF obj0(1)] compact_close [OF obj0(2)]
        by (intro exI [of _ "''{}''"]) (simp add: starts_value_Cons compact_Cons_plain)
    next
      case (lit l)
      have nl: "\<And>d. d \<in> set l \<Longrightarrow> d \<noteq> dquote \<and> \<not> is_ws d"
        using lit(1) by (auto simp: is_ws_def)
      have "compact_scan False s = l @ compact_scan False r"
        using compact_literal [OF lit(2) nl] lit(3) by (simp add: compact_skip)
      moreover have "starts_value l \<and> (\<forall>w. parse_value (Suc f) (l @ w) = Some (v, w))"
        using lit(1) by (auto simp: starts_value_Cons)
      ultimately show ?thesis by blast
    next
      case (num l)
      note e = parse_num_exact [OF num(1)]
      have "compact_scan False s = l @ compact_scan False r"
        using e(1) compact_outside [of l r] num_chars_no_quote [OF e(2)] compact_skip [of s] by simp
      moreover have l: "parse_num l = Some (l, [])" using e(3) [of "[]"] by simp
      then have "starts_value l"
        using json_print_first [of "JNum l"] num_chars_no_quote [OF e(2)] by (force simp: starts_value_Cons is_ws_def)
      moreover have "\<forall>w. delim w \<longrightarrow> parse_value (Suc f) (l @ w) = Some (v, w)"
        using parse_value_literal [OF l] num(2) by blast
      ultimately show ?thesis by blast
    qed
  next
    case 2
    then obtain v' r' where v: "parse_value f s = Some (v', r')" by (auto split: option.splits)
    obtain q where q: "compact_scan False s = q @ compact_scan False r'" "starts_value q"
      "\<And>w. delim w \<Longrightarrow> parse_value f (q @ w) = Some (v', w)" using Suc.IH(1) [OF v] by blast
    from v 2 obtain d u where u: "skip_ws r' = d # u" by (auto split: list.splits)
    consider "d = CHR '']''" "u = r" "vs = [v']"
      | vs' where "d = CHR '',''" "parse_elems f u = Some (vs', r)" "vs = v' # vs'"
      using 2 v u by (auto split: if_splits)
    then show ?case
    proof cases
      case 1
      then show ?thesis using q u compact_close [OF u]
        by (intro exI [of _ "q @ '']''"]) (auto simp: starts_value_def)
    next
      case 2
      obtain p where p: "compact_scan False u = p @ compact_scan False r" "starts_value p"
        "\<And>w. parse_elems f (p @ w) = Some (vs', w)" using Suc.IH(2) [OF 2(2)] by blast
      then show ?thesis using 2 q u compact_close [OF u]
        by (intro exI [of _ "q @ '','' @ p"]) (auto simp: starts_value_def)
    qed
  next
    case 3
    then obtain t where t: "skip_ws s = dquote # t" by (auto split: list.splits if_splits)
    with 3 obtain k r1 where k: "parse_str t = Some (k, r1)" by (auto split: option.splits)
    with 3 t obtain r2 where r2: "skip_ws r1 = CHR '':'' # r2" by (auto split: list.splits if_splits)
    with 3 t k obtain x r3 where v: "parse_value f r2 = Some (x, r3)" by (auto split: option.splits)
    with 3 t k r2 obtain d u where u: "skip_ws r3 = d # u" by (auto split: list.splits)
    obtain kq where kq: "compact_scan False (dquote # t) = dquote # kq @ compact_scan False r1"
      "\<And>w. parse_str (kq @ w) = Some (k, w)" "newline \<notin> set kq" by (rule parse_str_compact_value [OF k]) blast
    obtain q where q: "compact_scan False r2 = q @ compact_scan False r3" "starts_value q"
      "\<And>w. delim w \<Longrightarrow> parse_value f (q @ w) = Some (x, w)" using Suc.IH(1) [OF v] by blast
    have s: "compact_scan False s = dquote # kq @ '':'' @ q @ compact_scan False r3"
      using compact_skipD [OF t] kq(1) compact_close [OF r2] q(1) by simp
    consider "d = CHR ''}''" "u = r" "ms = [(k, x)]"
      | ms' where "d = CHR '',''" "parse_members f u = Some (ms', r)" "ms = (k, x) # ms'"
      using 3 t k r2 v u by (auto split: if_splits)
    then show ?case
    proof cases
      case 1
      then show ?thesis using q kq(2,3) s compact_close [OF u]
        by (intro exI [of _ "kq @ '':'' @ q @ ''}''"]) (simp add: starts_value_def)
    next
      case 2
      obtain p where p: "compact_scan False u = dquote # p @ compact_scan False r"
        "\<And>w. parse_members f (dquote # p @ w) = Some (ms', w)" "newline \<notin> set p" using Suc.IH(3) [OF 2(2)] by blast
      then show ?thesis using 2 q kq(2,3) s compact_close [OF u]
        by (intro exI [of _ "kq @ '':'' @ q @ '','' @ dquote # p"]) (simp add: starts_value_def)
    qed
  }
qed simp_all


text \<open>The fuel a value needs is bounded by twice the bytes it takes.\<close>

lemma parse_num_shorter: "parse_num s = Some (l, r) \<Longrightarrow> length r < length s"
proof -
  assume a: "parse_num s = Some (l, r)"
  have "parse_num l = Some (l, [])" using parse_num_exact(3) [OF a, of "[]"] by simp
  moreover have "parse_num [] = None" by code_simp
  ultimately have "l \<noteq> []" by auto
  then show ?thesis using parse_num_exact(1) [OF a] by simp
qed

lemma fuel_positive':
  assumes "length r < length s" "\<And>h. 2 * (length s - length r) \<le> Suc h \<Longrightarrow> P (Suc h)"
  shows "length r < length s \<and> (\<forall>g. 2 * (length s - length r) \<le> g \<longrightarrow> P g)"
proof (intro conjI allI impI)
  fix g
  assume "2 * (length s - length r) \<le> g"
  with assms show "P g" by (cases g) auto
qed (rule assms(1))

lemma fuel_positive:
  assumes "length r < length s" "\<And>h. P (Suc h)"
  shows "length r < length s \<and> (\<forall>g. 2 * (length s - length r) \<le> g \<longrightarrow> P g)"
  using assms by (intro fuel_positive')

lemma skip_ws_length: "length (skip_ws s) \<le> length s"
  by (rule length_dropWhile_le)

lemma parse_consumed:
  "parse_value f s = Some (v, r) \<Longrightarrow> length r < length s \<and>
     (\<forall>g. 2 * (length s - length r) \<le> g \<longrightarrow> parse_value g s = Some (v, r))"
  "parse_elems f s = Some (vs, r) \<Longrightarrow> length r < length s \<and>
     (\<forall>g. 2 * (length s - length r) \<le> g \<longrightarrow> parse_elems g s = Some (vs, r))"
  "parse_members f s = Some (ms, r) \<Longrightarrow> length r < length s \<and>
     (\<forall>g. 2 * (length s - length r) \<le> g \<longrightarrow> parse_members g s = Some (ms, r))"
proof (induction f arbitrary: s v r vs ms)
  case (Suc f)
  {
    case 1
    then show ?case
    proof (cases rule: parse_value_SomeE)
      case (str t x)
      then have "length r < length s" using skip_wsD [OF str(1)] parse_str_length [OF str(2)] by simp
      moreover have "parse_value (Suc h) s = Some (v, r)" for h using str by simp
      ultimately show ?thesis by (rule fuel_positive)
    next
      case (arr t x)
      note IH = Suc.IH(2) [OF arr(4)]
      have "parse_value g s = Some (v, r)" if g: "2 * (length s - length r) \<le> g" for g
      proof -
        obtain h where h: "g = Suc h" "2 * (length t - length r) \<le> h"
          using g IH skip_wsD [OF arr(1)] by (cases g) auto
        then have "parse_elems h t = Some (x, r)" using IH by blast
        then show ?thesis using arr h(1) by (cases "skip_ws t") (simp_all del: parse_elems.simps)
      qed
      then show ?thesis using IH skip_wsD [OF arr(1)] by simp
    next
      case (arr0 t)
      then have "length r < length s" using skip_wsD [OF arr0(1)] skip_wsD [OF arr0(2)] by simp
      moreover have "parse_value (Suc h) s = Some (v, r)" for h using arr0 by simp
      ultimately show ?thesis by (rule fuel_positive)
    next
      case (obj t x)
      note IH = Suc.IH(3) [OF obj(4)]
      have "parse_value g s = Some (v, r)" if g: "2 * (length s - length r) \<le> g" for g
      proof -
        obtain h where h: "g = Suc h" "2 * (length t - length r) \<le> h"
          using g IH skip_wsD [OF obj(1)] by (cases g) auto
        then have "parse_members h t = Some (x, r)" using IH by blast
        then show ?thesis using obj h(1) by (cases "skip_ws t") (simp_all del: parse_members.simps)
      qed
      then show ?thesis using IH skip_wsD [OF obj(1)] by simp
    next
      case (obj0 t)
      then have "length r < length s" using skip_wsD [OF obj0(1)] skip_wsD [OF obj0(2)] by simp
      moreover have "parse_value (Suc h) s = Some (v, r)" for h using obj0 by simp
      ultimately show ?thesis by (rule fuel_positive)
    next
      case (lit l)
      obtain u where u: "skip_ws s = l @ u" using has_prefixE [OF lit(2)] by blast
      then have "r = u" using lit(3) by simp
      moreover have "length (l @ u) \<le> length s" using skip_ws_length [of s] u by simp
      ultimately have "length r < length s" using lit(1) by auto
      moreover have "parse_value (Suc h) s = Some (v, r)" for h using lit(1) u \<open>r = u\<close> by auto
      ultimately show ?thesis by (rule fuel_positive)
    next
      case (num l)
      then have "length r < length s" using parse_num_shorter [OF num(1)] skip_ws_length [of s] by simp
      then show ?thesis using num(3) by (rule fuel_positive)
    qed
  next
    case 2
    then obtain v' r' where v: "parse_value f s = Some (v', r')" by (auto split: option.splits)
    note IH = Suc.IH(1) [OF v]
    from v 2 obtain d u where u: "skip_ws r' = d # u" by (auto split: list.splits)
    have l: "length u < length r'" using skip_wsD [OF u] .
    consider "d = CHR '']''" "u = r" "vs = [v']"
      | vs' where "d = CHR '',''" "parse_elems f u = Some (vs', r)" "vs = v' # vs'"
      using 2 v u by (auto split: if_splits)
    then have "length r \<le> length u \<and> (\<forall>h. parse_value h s = Some (v', r') \<longrightarrow> 2 * (length u - length r) \<le> h \<longrightarrow>
        parse_elems (Suc h) s = Some (vs, r))"
    proof cases
      case 1
      then show ?thesis using u by simp
    next
      case 2
      then show ?thesis using u Suc.IH(2) [OF 2(2)] by (auto simp del: parse_elems.simps simp: parse_elems.simps(2))
    qed
    moreover have "parse_value h s = Some (v', r')" "2 * (length u - length r) \<le> h"
      if "2 * (length s - length r) \<le> Suc h" "length r \<le> length u" for h
      using that IH l by (auto intro: IH [THEN conjunct2, rule_format])
    ultimately have main: "length r \<le> length u"
      "\<And>h. 2 * (length s - length r) \<le> Suc h \<Longrightarrow> parse_elems (Suc h) s = Some (vs, r)" by blast+
    have "length r < length s" using main(1) l IH by linarith
    then show ?case using main(2) by (rule fuel_positive')
  next
    case 3
    then obtain t where t: "skip_ws s = dquote # t" by (auto split: list.splits if_splits)
    with 3 obtain k r1 where k: "parse_str t = Some (k, r1)" by (auto split: option.splits)
    with 3 t obtain r2 where r2: "skip_ws r1 = CHR '':'' # r2" by (auto split: list.splits if_splits)
    with 3 t k obtain x r3 where v: "parse_value f r2 = Some (x, r3)" by (auto split: option.splits)
    with 3 t k r2 obtain d u where u: "skip_ws r3 = d # u" by (auto split: list.splits)
    note IH = Suc.IH(1) [OF v]
    have l: "length u < length r3" "length r2 < length r1" "length r1 \<le> length t" "length t < length s"
      using skip_wsD [OF u] skip_wsD [OF r2] parse_str_length [OF k] skip_wsD [OF t] .
    consider "d = CHR ''}''" "u = r" "ms = [(k, x)]"
      | ms' where "d = CHR '',''" "parse_members f u = Some (ms', r)" "ms = (k, x) # ms'"
      using 3 t k r2 v u by (auto split: if_splits)
    then have "length r \<le> length u \<and> (\<forall>h. parse_value h r2 = Some (x, r3) \<longrightarrow> 2 * (length u - length r) \<le> h \<longrightarrow>
        parse_members (Suc h) s = Some (ms, r))"
    proof cases
      case 1
      then show ?thesis using t k r2 u by simp
    next
      case 2
      then show ?thesis using t k r2 u Suc.IH(3) [OF 2(2)]
        by (auto simp del: parse_members.simps simp: parse_members.simps(2))
    qed
    moreover have "parse_value h r2 = Some (x, r3)" "2 * (length u - length r) \<le> h"
      if "2 * (length s - length r) \<le> Suc h" "length r \<le> length u" for h
      using that IH l by (auto intro: IH [THEN conjunct2, rule_format])
    ultimately have main: "length r \<le> length u"
      "\<And>h. 2 * (length s - length r) \<le> Suc h \<Longrightarrow> parse_members (Suc h) s = Some (ms, r)" by blast+
    have "length r < length s" using main(1) l IH by linarith
    then show ?case using main(2) by (rule fuel_positive')
  }
qed simp_all

lemma compact_all_ws: "skip_ws r = [] \<Longrightarrow> compact_scan False r = []"
  by (metis compact_scan.simps(1) compact_skip)

text \<open>Compacting accepted text gives text with the same meaning, which may stand in an object.\<close>

theorem json_compact_value:
  assumes "json_unmarshal s = Some v"
  obtains c where "json_compact s = Some c" "raw_value c v" "newline \<notin> set c"
proof -
  from assms obtain r where r: "parse_value (2 * length s + 2) s = Some (v, r)" "skip_ws r = []"
    by (auto simp: json_unmarshal_def split: option.splits if_splits)
  obtain q where q: "compact_scan False s = q" "starts_value q"
    "\<And>w. delim w \<Longrightarrow> parse_value (2 * length s + 2) (q @ w) = Some (v, w)"
    using compact_parse(1) [OF r(1)] compact_all_ws [OF r(2)] by auto
  show thesis
  proof (rule that)
    show "json_compact s = Some q" using assms q(1) by (simp add: json_compact_def json_valid_def)
    have "parse_value f (q @ w) = Some (v, w)" if "delim w" "2 * length q \<le> f" for f w
      using parse_consumed(1) [OF q(3) [OF that(1)]] that(2) by simp
    then show "raw_value q v" using q(2) by (simp add: raw_value_def starts_value_def)
    show "newline \<notin> set q" using q(2) by (simp add: starts_value_def)
  qed
qed

section \<open>Printed text is one line\<close>

lemma esc_chunk_no_newline:
  assumes "s \<noteq> []" "decode_rune s = (r, n)"
  shows "newline \<notin> set (esc_chunk (r, take n s))"
proof (cases "r < 0x80 \<or> bad_chunk (r, take n s) \<or> r = 0x2028 \<or> r = 0x2029")
  case True
  then show ?thesis using esc_byte_no_newline u_escape_newline by (auto simp: esc_chunk_def)
next
  case False
  obtain c t where s: "s = c # t" using assms(1) by (cases s) auto
  have c: "newline \<noteq> c" using False assms(2) s by (auto simp: decode_rune.simps)
  have cont: "\<not> is_cont newline" by (simp add: is_cont_def)
  have "newline \<notin> set (take n s)"
  proof (cases "1 < n")
    case True
    then obtain m where "n = Suc m" by (cases n) auto
    then show ?thesis using decode_rune_conts(2) [OF assms(2) [unfolded s] True] c cont s
      by (auto simp: list_all_iff)
  next
    case False
    then show ?thesis using c s by (cases n) auto
  qed
  then show ?thesis using False by (simp add: esc_chunk_def)
qed

lemma json_string_no_newline: "newline \<notin> set (json_string s)"
proof -
  have "newline \<notin> set (concat (map esc_chunk (runes s)))"
  proof (induction s rule: runes.induct)
    case (1 s)
    show ?case
    proof (cases "s = []")
      case False
      obtain r n where rn: "decode_rune s = (r, n)" by fastforce
      then show ?thesis using 1 [OF False] esc_chunk_no_newline [OF False rn]
        by (simp add: runes_step [OF False rn])
    qed simp
  qed
  then show ?thesis by (simp add: json_string_def)
qed

lemma obj_text_no_newline:
  assumes "list_all (\<lambda>m. newline \<notin> set (snd m)) ms"
  shows "newline \<notin> set (obj_text ms)"
proof -
  have "newline \<notin> set (members_text ms)"
    using assms json_string_no_newline by (induction ms rule: members_text.induct) auto
  then show ?thesis by (simp add: obj_text_def)
qed

lemma json_compact_no_newline: "json_compact s = Some c \<Longrightarrow> newline \<notin> set c"
  by (auto simp: json_compact_def json_valid_def split: if_splits elim: json_compact_value)

section \<open>Base64\<close>

text \<open>
  A \<^verbatim>\<open>[]byte\<close> is written as a string in the standard base64 alphabet with padding; the decoder
  skips line breaks and rejects anything else.
\<close>

definition b64_char :: "nat \<Rightarrow> char" where
  "b64_char n =
     (if n < 26 then char_of (65 + n) else if n < 52 then char_of (71 + n)
      else if n < 62 then char_of (n - 4) else if n = 62 then CHR ''+'' else CHR ''/'')"

definition b64_val :: "char \<Rightarrow> nat option" where
  "b64_val c =
     (if 65 \<le> byte c \<and> byte c \<le> 90 then Some (byte c - 65)
      else if 97 \<le> byte c \<and> byte c \<le> 122 then Some (byte c - 71)
      else if 48 \<le> byte c \<and> byte c \<le> 57 then Some (byte c + 4)
      else if c = CHR ''+'' then Some 62 else if c = CHR ''/'' then Some 63 else None)"

fun b64_encode :: "string \<Rightarrow> string" where
  "b64_encode [] = []"
| "b64_encode [a] = [b64_char (byte a div 4), b64_char (byte a mod 4 * 16), CHR ''='', CHR ''='']"
| "b64_encode [a, b] =
     [b64_char (byte a div 4), b64_char (byte a mod 4 * 16 + byte b div 16), b64_char (byte b mod 16 * 4),
      CHR ''='']"
| "b64_encode (a # b # c # s) =
     b64_char (byte a div 4) # b64_char (byte a mod 4 * 16 + byte b div 16)
       # b64_char (byte b mod 16 * 4 + byte c div 64) # b64_char (byte c mod 64) # b64_encode s"

fun b64_groups :: "string \<Rightarrow> string option" where
  "b64_groups [] = Some []"
| "b64_groups (a # b # c # d # s) =
     (case (b64_val a, b64_val b) of
        (Some x, Some y) \<Rightarrow>
          if c = CHR ''='' then (if d = CHR ''='' \<and> s = [] then Some [chr (x * 4 + y div 16)] else None)
          else (case b64_val c of
                  None \<Rightarrow> None
                | Some z \<Rightarrow>
                    if d = CHR ''=''
                    then (if s = [] then Some [chr (x * 4 + y div 16), chr (y mod 16 * 16 + z div 4)] else None)
                    else (case b64_val d of
                            None \<Rightarrow> None
                          | Some w \<Rightarrow>
                              map_option (\<lambda>t. chr (x * 4 + y div 16) # chr (y mod 16 * 16 + z div 4)
                                            # chr (z mod 4 * 64 + w) # t) (b64_groups s)))
      | _ \<Rightarrow> None)"
| "b64_groups _ = None"

definition b64_decode :: "string \<Rightarrow> string option" where
  "b64_decode s = b64_groups (filter (\<lambda>c. byte c \<noteq> 0x0A \<and> byte c \<noteq> 0x0D) s)"

lemma b64_val_char: "n < 64 \<Longrightarrow> b64_val (b64_char n) = Some n"
  by (auto simp: b64_char_def b64_val_def of_char_eq_iff [symmetric, where 'a = nat] simp del: of_char_eq_iff)

lemma b64_char_cases:
  assumes "n < 64"
  shows "b64_char n \<noteq> CHR ''=''" "0x20 < byte (b64_char n)" "byte (b64_char n) < 0x80"
proof -
  have "list_all (\<lambda>n. b64_char n \<noteq> CHR ''='' \<and> 0x20 < byte (b64_char n) \<and> byte (b64_char n) < 0x80) [0..<64]"
    by code_simp
  then show "b64_char n \<noteq> CHR ''=''" "0x20 < byte (b64_char n)" "byte (b64_char n) < 0x80"
    using assms by (auto simp: list_all_iff)
qed

lemma byte_bits:
  "byte c div 4 < 64" "byte c mod 4 * 16 + byte d div 16 < 64" "byte c mod 16 * 4 + byte d div 64 < 64"
  "byte c mod 4 * 16 < 64" "byte c mod 16 * 4 < 64"
proof -
  have "byte c < 256" "byte d < 256" by simp_all
  then show "byte c div 4 < 64" "byte c mod 4 * 16 + byte d div 16 < 64" "byte c mod 16 * 4 + byte d div 64 < 64"
    "byte c mod 4 * 16 < 64" "byte c mod 16 * 4 < 64"
    by linarith+
qed

lemma byte_parts:
  "byte a div 4 * 4 + (byte a mod 4 * 16 + byte b div 16) div 16 = byte a"
  "(byte a mod 4 * 16 + byte b div 16) mod 16 * 16 + (byte b mod 16 * 4 + byte c div 64) div 4 = byte b"
  "(byte b mod 16 * 4 + byte c div 64) mod 4 * 64 + byte c mod 64 = byte c"
proof -
  have b: "byte a < 256" "byte b < 256" "byte c < 256" by simp_all
  from b have "byte b div 16 < 16" "byte c div 64 < 4" by linarith+
  then have "(byte a mod 4 * 16 + byte b div 16) div 16 = byte a mod 4"
    "(byte a mod 4 * 16 + byte b div 16) mod 16 = byte b div 16"
    "(byte b mod 16 * 4 + byte c div 64) div 4 = byte b mod 16"
    "(byte b mod 16 * 4 + byte c div 64) mod 4 = byte c div 64"
    by simp_all
  then show "byte a div 4 * 4 + (byte a mod 4 * 16 + byte b div 16) div 16 = byte a"
    "(byte a mod 4 * 16 + byte b div 16) mod 16 * 16 + (byte b mod 16 * 4 + byte c div 64) div 4 = byte b"
    "(byte b mod 16 * 4 + byte c div 64) mod 4 * 64 + byte c mod 64 = byte c"
    by simp_all
qed

lemma b64_encode_chars: "c \<in> set (b64_encode s) \<Longrightarrow> 0x20 < byte c \<and> byte c < 0x80"
proof (induction s rule: b64_encode.induct)
  case (4 a b d s)
  then show ?case using byte_bits b64_char_cases(2,3) by auto
qed (use byte_bits b64_char_cases(2,3) in auto)

lemma b64_groups_encode: "b64_groups (b64_encode s) = Some s"
proof (induction s rule: b64_encode.induct)
  case (2 a)
  then show ?case using byte_bits byte_parts(1) [of a "chr 0"] by (simp add: b64_val_char chr_byte)
next
  case (3 a b)
  then show ?case using byte_bits byte_parts(1) [of a b] byte_parts(2) [of a b "chr 0"]
    by (simp add: b64_val_char b64_char_cases(1))
next
  case (4 a b c s)
  have "b64_char (byte c mod 64) \<noteq> CHR ''=''" "b64_val (b64_char (byte c mod 64)) = Some (byte c mod 64)"
    using b64_char_cases(1) b64_val_char by simp_all
  with 4 show ?case using byte_bits byte_parts(1) [of a b] byte_parts(2) [of a b c] byte_parts(3) [of b c]
    by (simp add: b64_val_char b64_char_cases(1) chr_byte)
qed simp

theorem b64_decode_encode: "b64_decode (b64_encode s) = Some s"
proof -
  have "filter (\<lambda>c. byte c \<noteq> 0x0A \<and> byte c \<noteq> 0x0D) (b64_encode s) = b64_encode s"
    using b64_encode_chars by (force simp: filter_id_conv)
  then show ?thesis by (simp add: b64_decode_def b64_groups_encode)
qed

end
