(* ===== verification/Go_Decode.thy ===== *)
theory Go_Decode
  imports Go_Compact "HOL-Library.AList" "HOL-Library.List_Lexorder"
begin

text \<open>
  \<^verbatim>\<open>json.Unmarshal\<close> into the Go types the program declares, and \<^verbatim>\<open>json.Marshal\<close> of maps. A decoder
  takes the source text of a value and the field's current content and returns the new content
  with a flag: a value of the wrong type is an error, but the decoder goes on with the other fields
  and only reports it at the end, so a caller that ignores the error still sees what was decoded.
\<close>

section \<open>Fields\<close>

text \<open>
  A member belongs to a field when its key is the field's name, exactly or up to letter case; case
  folding is Unicode's simple folding, which takes U+212A to k and U+017F to s. The program's field
  names are ASCII, so other runes may stay as they are.
\<close>

definition fold_rune :: "nat \<Rightarrow> nat" where
  "fold_rune r =
     (if 97 \<le> r \<and> r \<le> 122 then r - 32 else if r = 0x212A then 75 else if r = 0x17F then 83 else r)"

definition fold_name :: "string \<Rightarrow> nat list" where
  "fold_name s = map (fold_rune \<circ> fst) (runes s)"

definition is_field :: "string \<Rightarrow> string \<Rightarrow> bool" where
  "is_field name key \<longleftrightarrow> key = name \<or> fold_name key = fold_name name"

type_synonym 'a decoder = "string \<Rightarrow> 'a \<Rightarrow> 'a \<times> bool"

definition dec_string :: "string decoder" where
  "dec_string raw cur =
     (case json_unmarshal raw of Some (JStr s) \<Rightarrow> (s, True) | Some JNull \<Rightarrow> (cur, True) | _ \<Rightarrow> (cur, False))"

definition dec_bool :: "bool decoder" where
  "dec_bool raw cur =
     (case json_unmarshal raw of Some (JBool b) \<Rightarrow> (b, True) | Some JNull \<Rightarrow> (cur, True) | _ \<Rightarrow> (cur, False))"

definition dec_raw :: "string option decoder" where
  "dec_raw raw cur = (Some raw, True)"

text \<open>\<open>int_of_literal\<close> is \<^verbatim>\<open>strconv.ParseInt\<close> of a JSON number: an integer literal in range.\<close>

definition int_of_literal :: "string \<Rightarrow> int option" where
  "int_of_literal l =
     (case num_minus l of (m, ds) \<Rightarrow>
       if ds = [] \<or> \<not> list_all is_digit ds then None
       else let i = (if m = [] then int (nat_of_digits ds) else - int (nat_of_digits ds)) in
            if - (2 ^ 63) \<le> i \<and> i < 2 ^ 63 then Some i else None)"

definition dec_int :: "int decoder" where
  "dec_int raw cur =
     (case json_unmarshal raw of
        Some (JNum l) \<Rightarrow> (case int_of_literal l of Some i \<Rightarrow> (i, True) | None \<Rightarrow> (cur, False))
      | Some JNull \<Rightarrow> (cur, True)
      | _ \<Rightarrow> (cur, False))"

text \<open>The elements of an array of strings, and of an array of bytes.\<close>

fun elem_string :: "json \<Rightarrow> string \<times> bool" where
  "elem_string (JStr s) = (s, True)"
| "elem_string JNull = ([], True)"
| "elem_string v = ([], False)"

fun elem_byte :: "json \<Rightarrow> char \<times> bool" where
  "elem_byte (JNum l) =
     (case int_of_literal l of
        Some i \<Rightarrow> if 0 \<le> i \<and> i < 256 then (chr (nat i), True) else (chr 0, False)
      | None \<Rightarrow> (chr 0, False))"
| "elem_byte JNull = (chr 0, True)"
| "elem_byte v = (chr 0, False)"

definition dec_strings :: "string list option decoder" where
  "dec_strings raw cur =
     (case json_unmarshal raw of
        Some (JArr vs) \<Rightarrow> (Some (map (fst \<circ> elem_string) vs), list_all (snd \<circ> elem_string) vs)
      | Some JNull \<Rightarrow> (None, True)
      | _ \<Rightarrow> (cur, False))"

definition dec_bytes :: "string option decoder" where
  "dec_bytes raw cur =
     (case json_unmarshal raw of
        Some (JStr s) \<Rightarrow> (case b64_decode s of Some b \<Rightarrow> (Some b, True) | None \<Rightarrow> (cur, False))
      | Some (JArr vs) \<Rightarrow> (Some (map (fst \<circ> elem_byte) vs), list_all (snd \<circ> elem_byte) vs)
      | Some JNull \<Rightarrow> (None, True)
      | _ \<Rightarrow> (cur, False))"

text \<open>
  \<open>unmarshal_struct step v s\<close> decodes an object into a struct: \<open>step v key raw\<close> handles one member.
  The flag is that \<^verbatim>\<open>Unmarshal\<close> returned no error. \<^verbatim>\<open>null\<close> leaves the struct as it is.
\<close>

fun decode_members :: "('v \<Rightarrow> string \<Rightarrow> string \<Rightarrow> 'v \<times> bool) \<Rightarrow> 'v \<Rightarrow> (string \<times> string) list \<Rightarrow> 'v \<times> bool" where
  "decode_members step v [] = (v, True)"
| "decode_members step v ((k, raw) # ms) =
     (case step v k raw of
        (v', ok) \<Rightarrow> (case decode_members step v' ms of (v'', ok') \<Rightarrow> (v'', ok \<and> ok')))"

definition unmarshal_struct :: "('v \<Rightarrow> string \<Rightarrow> string \<Rightarrow> 'v \<times> bool) \<Rightarrow> 'v \<Rightarrow> string \<Rightarrow> 'v \<times> bool" where
  "unmarshal_struct step v s =
     (case json_unmarshal s of
        Some (JObj _) \<Rightarrow> decode_members step v (raw_members s)
      | Some JNull \<Rightarrow> (v, True)
      | _ \<Rightarrow> (v, False))"

section \<open>Maps\<close>

text \<open>
  \<open>marshal_raw\<close> is \<^verbatim>\<open>json.Marshal\<close> of a \<^verbatim>\<open>json.RawMessage\<close> (\<open>None\<close> the nil slice). \<open>marshal_map\<close>
  writes a map with its keys in byte order; it fails when a value does.
\<close>

definition marshal_raw :: "string option \<Rightarrow> string option" where
  "marshal_raw r = (case r of None \<Rightarrow> Some ''null'' | Some s \<Rightarrow> json_compact s)"

fun marshal_members :: "(string \<times> string option) list \<Rightarrow> (string \<times> string) list option" where
  "marshal_members [] = Some []"
| "marshal_members ((k, r) # ms) =
     (case r of None \<Rightarrow> None | Some t \<Rightarrow> map_option (Cons (k, t)) (marshal_members ms))"

definition marshal_map :: "(string \<times> string option) list \<Rightarrow> string option" where
  "marshal_map ms = map_option obj_text (marshal_members (sort_key fst ms))"

text \<open>\<open>unmarshal_map\<close> decodes into a map of raw values; a repeated key keeps its last value.\<close>

definition unmarshal_map :: "string \<Rightarrow> (string \<times> string) list option option" where
  "unmarshal_map s =
     (case json_unmarshal s of
        Some (JObj _) \<Rightarrow> Some (Some (foldl (\<lambda>m (k, r). AList.update k r m) [] (raw_members s)))
      | Some JNull \<Rightarrow> Some None
      | _ \<Rightarrow> None)"

definition json_bool :: "bool \<Rightarrow> string" where
  "json_bool b = (if b then ''true'' else ''false'')"

definition json_bytes :: "string \<Rightarrow> string" where
  "json_bytes b = json_string (b64_encode b)"

definition json_strings :: "string list option \<Rightarrow> string" where
  "json_strings xs =
     (case xs of None \<Rightarrow> ''null''
      | Some ys \<Rightarrow> CHR ''['' # strings_join (map json_string ys) '','' @ '']'')"

section \<open>What the decoders read back\<close>

named_theorems reads \<open>a decoder applied to what the encoder wrote\<close>

lemma raw_value_null: "raw_value ''null'' JNull"
  using raw_value_print [of JNull] by simp

lemma raw_value_bool: "raw_value (json_bool b) (JBool b)"
  using raw_value_print [of "JBool b"] by (simp add: json_bool_def)

lemma raw_value_int: "raw_value (itoa i) (JNum (itoa i))"
  using raw_value_print [of "JNum (itoa i)"] by (simp add: parse_num_itoa)

lemma b64_encode_valid: "valid_utf8 (b64_encode b)"
  using b64_encode_chars by (intro valid_utf8_ascii) blast

lemma raw_value_bytes: "raw_value (json_bytes b) (JStr (b64_encode b))"
  using raw_value_string [of "b64_encode b"] by (simp add: json_bytes_def to_valid_id b64_encode_valid)

lemma dec_string_print [reads]: "dec_string (json_string s) cur = (to_valid s, True)"
  by (simp add: dec_string_def raw_value_unmarshal [OF raw_value_string])

lemma dec_bool_print [reads]: "dec_bool (json_bool b) cur = (b, True)"
  by (simp add: dec_bool_def raw_value_unmarshal [OF raw_value_bool])

lemma dec_raw_print [reads]: "dec_raw r cur = (Some r, True)"
  by (simp add: dec_raw_def)

lemma int_of_literal_itoa:
  assumes "- (2 ^ 63) \<le> i" "i < 2 ^ 63"
  shows "int_of_literal (itoa i) = Some i"
proof (cases "i < 0")
  case True
  then show ?thesis using assms itoa_nat_digits [of "nat (- i)"]
    by (simp add: int_of_literal_def itoa_def num_minus_def list_all_iff)
next
  case False
  obtain c t where ct: "itoa_nat (nat i) = c # t" by (cases "itoa_nat (nat i)") auto
  have d: "list_all is_digit (itoa_nat (nat i))" using itoa_nat_digits [of "nat i"] by (simp add: list_all_iff)
  then have "c \<noteq> CHR ''-''" using ct by (auto simp: is_digit_def)
  then have "num_minus (itoa_nat (nat i)) = ([], itoa_nat (nat i))" using ct by (simp add: num_minus_def)
  then show ?thesis using assms d False by (simp add: int_of_literal_def itoa_def)
qed

lemma dec_int_print [reads]:
  "- (2 ^ 63) \<le> i \<Longrightarrow> i < 2 ^ 63 \<Longrightarrow> dec_int (itoa i) cur = (i, True)"
  by (simp add: dec_int_def raw_value_unmarshal [OF raw_value_int] int_of_literal_itoa)

lemma dec_bytes_print [reads]: "dec_bytes (json_bytes b) cur = (Some b, True)"
  by (simp add: dec_bytes_def raw_value_unmarshal [OF raw_value_bytes] b64_decode_encode)

lemma marshal_raw_value:
  assumes "\<And>s. r = Some s \<Longrightarrow> json_valid s"
  obtains c v where "marshal_raw r = Some c" "raw_value c v"
    "\<And>s. r = Some s \<Longrightarrow> json_unmarshal s = Some v"
proof (cases r)
  case None
  show thesis by (rule that [of "''null''" JNull]) (simp_all add: None marshal_raw_def raw_value_null)
next
  case (Some s)
  then obtain v where v: "json_unmarshal s = Some v" using assms by (auto simp: json_valid_def)
  then obtain c where "json_compact s = Some c" "raw_value c v" by (rule json_compact_value) blast
  then show thesis using v by (intro that [of c v]) (simp_all add: Some marshal_raw_def)
qed

text \<open>A struct read back from an object written with well-formed keys: its members, one by one.\<close>

lemma unmarshal_struct_obj:
  assumes "list_all (\<lambda>m. valid_utf8 (fst m) \<and> (\<exists>v. raw_value (snd m) v)) ms"
  shows "unmarshal_struct step v (obj_text ms) = decode_members step v ms"
proof -
  define g where "g r = (SOME v. raw_value r v)" for r
  have "list_all (\<lambda>m. valid_utf8 (fst m) \<and> raw_value (snd m) (g (snd m))) ms"
    using assms by (auto simp: list_all_iff g_def intro: someI)
  from obj_text_roundtrip [OF this] show ?thesis
    by (simp add: unmarshal_struct_def raw_value_unmarshal)
qed

lemma json_unmarshal_obj:
  assumes "list_all (\<lambda>m. valid_utf8 (fst m) \<and> (\<exists>v. raw_value (snd m) v)) ms"
  shows "\<exists>vs. json_unmarshal (obj_text ms) = Some (JObj vs)" "raw_members (obj_text ms) = ms"
    "\<exists>v. raw_value (obj_text ms) v"
proof -
  define g where "g r = (SOME v. raw_value r v)" for r
  have "list_all (\<lambda>m. valid_utf8 (fst m) \<and> raw_value (snd m) (g (snd m))) ms"
    using assms by (auto simp: list_all_iff g_def intro: someI)
  from obj_text_roundtrip [OF this] show "\<exists>vs. json_unmarshal (obj_text ms) = Some (JObj vs)"
    "raw_members (obj_text ms) = ms" "\<exists>v. raw_value (obj_text ms) v"
    by (auto simp: raw_value_unmarshal)
qed

lemma strings_join_elems:
  "strings_join (map json_print vs) '','' = print_elems vs"
  by (induction vs) (auto simp: neq_Nil_conv)

lemma dec_strings_print [reads]:
  assumes "\<And>ys. xs = Some ys \<Longrightarrow> list_all valid_utf8 ys"
  shows "dec_strings (json_strings xs) cur = (xs, True)"
proof (cases xs)
  case None
  then show ?thesis by (simp add: dec_strings_def json_strings_def raw_value_unmarshal [OF raw_value_null])
next
  case (Some ys)
  have "json_strings xs = json_print (JArr (map JStr ys))"
    using strings_join_elems [of "map JStr ys"] by (simp add: Some json_strings_def comp_def)
  moreover have "wf_json (JArr (map JStr ys))" using assms [OF Some] by (simp add: list_all_iff)
  ultimately have "json_unmarshal (json_strings xs) = Some (JArr (map JStr ys))"
    using unmarshal_print by metis
  then show ?thesis by (simp add: dec_strings_def Some comp_def list_all_iff)
qed

lemma raw_value_strings:
  assumes "\<And>ys. xs = Some ys \<Longrightarrow> list_all valid_utf8 ys"
  shows "\<exists>v. raw_value (json_strings xs) v"
proof (cases xs)
  case None
  then show ?thesis using raw_value_null by (auto simp: json_strings_def)
next
  case (Some ys)
  have "json_strings xs = json_print (JArr (map JStr ys))"
    using strings_join_elems [of "map JStr ys"] by (simp add: Some json_strings_def comp_def)
  moreover have "wf_json (JArr (map JStr ys))" using assms [OF Some] by (simp add: list_all_iff)
  ultimately show ?thesis using raw_value_print by metis
qed

end
