(* ===== verification/Go_Fmt.thy ===== *)
theory Go_Fmt
  imports Go_Json
begin

text \<open>
  \<^verbatim>\<open>strconv.Quote\<close> (the verb \<^verbatim>\<open>%q\<close>). Of the non-ASCII runes the well-formed ones are taken as
  printable; the tables behind \<^verbatim>\<open>strconv.IsPrint\<close> are not modelled.
\<close>

definition quote_rune :: "nat \<Rightarrow> string" where
  "quote_rune r =
     (if r = 0x22 \<or> r = 0x5C then [backslash, chr r]
      else if 0x20 \<le> r \<and> r < 0x7F then [chr r]
      else if 0x80 \<le> r then encode_rune r
      else if r = 0x07 then [backslash, CHR ''a'']
      else if r = 0x08 then [backslash, CHR ''b'']
      else if r = 0x0C then [backslash, CHR ''f'']
      else if r = 0x0A then [backslash, CHR ''n'']
      else if r = 0x0D then [backslash, CHR ''r'']
      else if r = 0x09 then [backslash, CHR ''t'']
      else if r = 0x0B then [backslash, CHR ''v'']
      else [backslash, CHR ''x'', hex_char (r div 16), hex_char (r mod 16)])"

definition quote_chunk :: "nat \<times> string \<Rightarrow> string" where
  "quote_chunk c =
     (if bad_chunk c
      then concat (map (\<lambda>b. [backslash, CHR ''x'', hex_char (byte b div 16), hex_char (byte b mod 16)]) (snd c))
      else quote_rune (fst c))"

definition go_quote :: "string \<Rightarrow> string" where
  "go_quote s = dquote # concat (map quote_chunk (runes s)) @ [dquote]"

text \<open>\<^verbatim>\<open>fmt.Errorf\<close> with a \<^verbatim>\<open>%w\<close> verb at the end: a prefix and a wrapped sentinel.\<close>

definition errorf_w :: "string \<Rightarrow> sentinel \<Rightarrow> err" where
  "errorf_w pre s = wrap_err (pre @ '': '') (sentinel_err s)"

lemma errors_is_errorf_w [simp]: "errors_is (errorf_w pre s) t \<longleftrightarrow> t = s"
  by (simp add: errorf_w_def)

end
