(* ===== verification/Go_Path.thy ===== *)
theory Go_Path
  imports Go_Prelude
begin

text \<open>\<^verbatim>\<open>path/filepath\<close> on Unix: \<open>filepath_Clean\<close>, \<open>filepath_Join\<close>, \<open>filepath_Dir\<close> and \<open>filepath_Base\<close>.\<close>

definition clean_step :: "bool \<Rightarrow> string list \<Rightarrow> string \<Rightarrow> string list" where
  "clean_step rooted out e =
     (if e = [] \<or> e = ''.'' then out
      else if e = ''..'' then
        (if out \<noteq> [] \<and> last out \<noteq> ''..'' then butlast out
         else if rooted then out else out @ [e])
      else out @ [e])"

definition clean_elems :: "bool \<Rightarrow> string list \<Rightarrow> string list" where
  "clean_elems rooted es = foldl (clean_step rooted) [] es"

definition is_abs :: "string \<Rightarrow> bool" where
  "is_abs p \<longleftrightarrow> has_prefix p ''/''"

definition unclean :: "bool \<Rightarrow> string list \<Rightarrow> string" where
  "unclean rooted out =
     (if rooted then CHR ''/'' # strings_join out ''/'' else if out = [] then ''.'' else strings_join out ''/'')"

definition filepath_Clean :: "string \<Rightarrow> string" where
  "filepath_Clean p =
     (if p = [] then ''.'' else unclean (is_abs p) (clean_elems (is_abs p) (split_on CHR ''/'' p)))"

definition filepath_Join :: "string list \<Rightarrow> string" where
  "filepath_Join es =
     (let ne = dropWhile (\<lambda>e. e = []) es in if ne = [] then [] else filepath_Clean (strings_join ne ''/''))"

definition filepath_Dir :: "string \<Rightarrow> string" where
  "filepath_Dir p =
     (let dir = rev (dropWhile (\<lambda>c. c \<noteq> CHR ''/'') (rev p)) in filepath_Clean dir)"

definition filepath_Base :: "string \<Rightarrow> string" where
  "filepath_Base p =
     (if p = [] then ''.''
      else let q = rev (dropWhile (\<lambda>c. c = CHR ''/'') (rev p))
           in if q = [] then ''/'' else last (split_on CHR ''/'' q))"

text \<open>A file name: one element, and neither of the two special ones.\<close>

definition file_name :: "string \<Rightarrow> bool" where
  "file_name n \<longleftrightarrow> n \<noteq> [] \<and> n \<noteq> ''.'' \<and> n \<noteq> ''..'' \<and> CHR ''/'' \<notin> set n"

lemma clean_step_elems:
  "e \<notin> {[], ''.'', ''..''} \<Longrightarrow> clean_step rooted out e = out @ [e]"
  by (simp add: clean_step_def)

lemma clean_elems_snoc:
  "file_name n \<Longrightarrow> clean_elems r (es @ [n]) = clean_elems r es @ [n]"
  by (simp add: clean_elems_def clean_step_def file_name_def)

lemma clean_step_subset: "set (clean_step r out e) \<subseteq> set out \<union> {e}"
  by (auto simp: clean_step_def dest: in_set_butlastD)

lemma clean_elems_subset: "set (clean_elems r es) \<subseteq> set es"
proof (induction es rule: rev_induct)
  case (snoc e es)
  have "clean_elems r (es @ [e]) = clean_step r (clean_elems r es) e" by (simp add: clean_elems_def)
  with snoc clean_step_subset [of r "clean_elems r es" e] show ?case by auto
qed (simp add: clean_elems_def)

lemma split_on_append: "split_on s (x @ s # y) = split_on s x @ split_on s y"
proof (induction x)
  case (Cons c x)
  obtain a as where "split_on s x = a # as" by (cases "split_on s x") auto
  with Cons show ?case by auto
qed simp

text \<open>Joining a directory and a file name; the name can be read off the result.\<close>

lemma Join_dir_name:
  assumes "file_name n"
  shows "filepath_Join [dir, n] =
     (if dir = [] then n else unclean (is_abs dir) (clean_elems (is_abs dir) (split_on CHR ''/'' dir) @ [n]))"
proof -
  have n: "n \<noteq> []" "CHR ''/'' \<notin> set n" using assms by (auto simp: file_name_def)
  show ?thesis
  proof (cases "dir = []")
    case True
    have "\<not> is_abs n" using n by (cases n) (auto simp: is_abs_def)
    then show ?thesis using True n assms clean_elems_snoc [of n False "[]"]
      by (simp add: filepath_Join_def filepath_Clean_def split_on_single unclean_def)
        (simp add: clean_elems_def)
  next
    case False
    have "is_abs (dir @ CHR ''/'' # n) = is_abs dir" using False by (cases dir) (auto simp: is_abs_def)
    then show ?thesis using False n clean_elems_snoc [OF assms]
      by (simp add: filepath_Join_def filepath_Clean_def split_on_append split_on_single)
  qed
qed

lemma Join_inj:
  assumes "file_name m" "file_name n" "filepath_Join [dir, m] = filepath_Join [dir, n]"
  shows "m = n"
proof (cases "dir = []")
  case True
  then show ?thesis using assms by (simp add: Join_dir_name)
next
  case False
  define es where "es = clean_elems (is_abs dir) (split_on CHR ''/'' dir)"
  have sl: "\<forall>x \<in> set es. CHR ''/'' \<notin> set x"
    using clean_elems_subset split_on_no_sep unfolding es_def by fastforce
  have "strings_join (es @ [m]) ''/'' = strings_join (es @ [n]) ''/''"
    using assms False by (simp add: Join_dir_name unclean_def es_def split: if_splits)
  then have "split_on CHR ''/'' (strings_join (es @ [m]) [CHR ''/'']) = split_on CHR ''/'' (strings_join (es @ [n]) [CHR ''/''])"
    by simp
  moreover have "\<forall>x \<in> set (es @ [m]). CHR ''/'' \<notin> set x" "\<forall>x \<in> set (es @ [n]). CHR ''/'' \<notin> set x"
    using sl assms(1,2) by (auto simp: file_name_def)
  ultimately have "es @ [m] = es @ [n]" by (simp add: split_on_join)
  then show ?thesis by simp
qed

end
