(* ===== verification/Messages.thy ===== *)
theory Messages
  imports Go_Decode
begin

text \<open>
  The unit of transcript content (message.go) and its JSON bodies: the constructors and the
  accessors that read them back. A body is the bytes of a \<^verbatim>\<open>json.RawMessage\<close>, \<open>None\<close> when nil; a
  constructor that cannot marshal its arguments leaves it nil, as the code does by ignoring the
  error. \<open>ToolResult\<close> is tool.go's; images are opaque to the program but for the two fields it sets.
\<close>

record ImageContent =
  img_Data :: string
  img_MimeType :: string

record Message =
  m_Role :: string
  m_Type :: string
  m_Body :: "string option"
  m_Images :: "ImageContent list"

record ToolResult =
  tr_Content :: string
  tr_Data :: "string option"
  tr_IsError :: bool
  tr_Terminate :: bool
  tr_Suspend :: bool
  tr_Images :: "ImageContent list"

record Usage =
  u_InputTokens :: int
  u_OutputTokens :: int

section \<open>Constructors\<close>

definition mk_message :: "string \<Rightarrow> string \<Rightarrow> string option \<Rightarrow> Message" where
  "mk_message role typ body = \<lparr>m_Role = role, m_Type = typ, m_Body = body, m_Images = []\<rparr>"

definition NewText :: "string \<Rightarrow> string \<Rightarrow> Message" where
  "NewText role txt = mk_message role ''text'' (Some (json_string txt))"

definition NewTextWithSignature :: "string \<Rightarrow> string \<Rightarrow> string \<Rightarrow> Message" where
  "NewTextWithSignature role txt sig =
     (if sig = [] then NewText role txt
      else mk_message role ''text''
        (marshal_map [(''text'', Some (json_string txt)), (''thought_signature'', Some (json_bytes sig))]))"

definition NewToolCall :: "string \<Rightarrow> string \<Rightarrow> string \<Rightarrow> string option \<Rightarrow> Message" where
  "NewToolCall role callID toolName args =
     mk_message role ''tool_call''
       (marshal_map [(''call_id'', Some (json_string callID)), (''tool_name'', Some (json_string toolName)),
          (''args'', marshal_raw args)])"

definition NewToolCallWithSignature :: "string \<Rightarrow> string \<Rightarrow> string \<Rightarrow> string option \<Rightarrow> string \<Rightarrow> Message" where
  "NewToolCallWithSignature role callID toolName args sig =
     (if sig = [] then NewToolCall role callID toolName args
      else mk_message role ''tool_call''
        (marshal_map [(''call_id'', Some (json_string callID)), (''tool_name'', Some (json_string toolName)),
           (''args'', marshal_raw args), (''thought_signature'', Some (json_bytes sig))]))"

definition tool_result_body :: "string \<Rightarrow> string \<Rightarrow> string \<Rightarrow> string option \<Rightarrow> bool \<Rightarrow> string option" where
  "tool_result_body callID toolName content data isError =
     marshal_map [(''call_id'', Some (json_string callID)), (''tool_name'', Some (json_string toolName)),
       (''content'', Some (json_string content)), (''data'', marshal_raw data),
       (''is_error'', Some (json_bool isError))]"

definition NewToolResult :: "string \<Rightarrow> string \<Rightarrow> string \<Rightarrow> string \<Rightarrow> string option \<Rightarrow> bool \<Rightarrow> Message" where
  "NewToolResult role callID toolName content data isError =
     mk_message role ''tool_result'' (tool_result_body callID toolName content data isError)"

definition NewToolResultMsg :: "string \<Rightarrow> string \<Rightarrow> ToolResult \<Rightarrow> Message" where
  "NewToolResultMsg callID toolName result =
     (mk_message ''tool'' ''tool_result''
        (tool_result_body callID toolName (tr_Content result) (tr_Data result) (tr_IsError result)))
     \<lparr>m_Images := tr_Images result\<rparr>"

definition NewThinking :: "string \<Rightarrow> string \<Rightarrow> Message" where
  "NewThinking role txt = mk_message role ''thinking'' (Some (json_string txt))"

definition NewThinkingWithSignature :: "string \<Rightarrow> string \<Rightarrow> string \<Rightarrow> Message" where
  "NewThinkingWithSignature role txt sig =
     (if sig = [] then NewThinking role txt
      else mk_message role ''thinking''
        (marshal_map [(''text'', Some (json_string txt)), (''thought_signature'', Some (json_bytes sig))]))"

definition NewSystem :: "string \<Rightarrow> Message" where
  "NewSystem txt = NewText ''system'' txt"

definition NewBranchSummaryMessage :: "string \<Rightarrow> Message" where
  "NewBranchSummaryMessage summary = mk_message ''system'' ''branch_summary'' (Some (json_string summary))"

text \<open>The nil slice of names is \<open>None\<close>: all registered tools are active.\<close>

definition NewActiveToolsChange :: "string list option \<Rightarrow> Message" where
  "NewActiveToolsChange names =
     mk_message ''system'' ''active_tools_change''
       (marshal_map [(''activeToolNames'', Some (json_strings names))])"

section \<open>Accessors\<close>

definition dec_field :: "'a decoder \<Rightarrow> ('v \<Rightarrow> 'a) \<Rightarrow> ('a \<Rightarrow> 'v \<Rightarrow> 'v) \<Rightarrow> string \<Rightarrow> 'v \<Rightarrow> 'v \<times> bool" where
  "dec_field dec get put raw v = (case dec raw (get v) of (x, ok) \<Rightarrow> (put x v, ok))"

text \<open>\<^verbatim>\<open>json.Unmarshal\<close> of a body: the nil body is the empty input, a syntax error.\<close>

definition body_bytes :: "Message \<Rightarrow> string" where
  "body_bytes m = (case m_Body m of None \<Rightarrow> [] | Some b \<Rightarrow> b)"

definition step_names :: "string list option \<Rightarrow> string \<Rightarrow> string \<Rightarrow> string list option \<times> bool" where
  "step_names v k raw = (if is_field ''activeToolNames'' k then dec_strings raw v else (v, True))"

text \<open>The outer \<open>None\<close> is the second result false; the inner one the nil slice.\<close>

definition msg_ActiveToolNames :: "Message \<Rightarrow> string list option option" where
  "msg_ActiveToolNames m =
     (if m_Type m \<noteq> ''active_tools_change'' then None
      else case unmarshal_struct step_names None (body_bytes m) of
             (v, ok) \<Rightarrow> if ok then Some v else None)"

definition step_text :: "string \<Rightarrow> string \<Rightarrow> string \<Rightarrow> string \<times> bool" where
  "step_text v k raw = (if is_field ''text'' k then dec_string raw v else (v, True))"

definition step_signature :: "string option \<Rightarrow> string \<Rightarrow> string \<Rightarrow> string option \<times> bool" where
  "step_signature v k raw = (if is_field ''thought_signature'' k then dec_bytes raw v else (v, True))"

definition body_text :: "Message \<Rightarrow> string" where
  "body_text m =
     (case dec_string (body_bytes m) [] of
        (s, ok) \<Rightarrow> if ok then s else fst (unmarshal_struct step_text [] (body_bytes m)))"

definition body_signature :: "Message \<Rightarrow> string option" where
  "body_signature m =
     (case unmarshal_struct step_signature None (body_bytes m) of
        (v, ok) \<Rightarrow> if ok then v else None)"

definition msg_Text :: "Message \<Rightarrow> string" where
  "msg_Text m = (if m_Type m \<noteq> ''text'' \<and> m_Type m \<noteq> ''branch_summary'' then [] else body_text m)"

definition msg_TextThoughtSignature :: "Message \<Rightarrow> string option" where
  "msg_TextThoughtSignature m = (if m_Type m \<noteq> ''text'' then None else body_signature m)"

definition msg_ThinkingText :: "Message \<Rightarrow> string" where
  "msg_ThinkingText m = (if m_Type m \<noteq> ''thinking'' then [] else body_text m)"

definition msg_ThinkingThoughtSignature :: "Message \<Rightarrow> string option" where
  "msg_ThinkingThoughtSignature m = (if m_Type m \<noteq> ''thinking'' then None else body_signature m)"

definition msg_ToolCallThoughtSignature :: "Message \<Rightarrow> string option" where
  "msg_ToolCallThoughtSignature m = (if m_Type m \<noteq> ''tool_call'' then None else body_signature m)"

record ToolCallFields =
  tc_CallID :: string
  tc_ToolName :: string
  tc_Args :: "string option"

definition step_tool_call :: "ToolCallFields \<Rightarrow> string \<Rightarrow> string \<Rightarrow> ToolCallFields \<times> bool" where
  "step_tool_call v k raw =
     (if is_field ''call_id'' k then dec_field dec_string tc_CallID (\<lambda>x. tc_CallID_update (\<lambda>_. x)) raw v
      else if is_field ''tool_name'' k then dec_field dec_string tc_ToolName (\<lambda>x. tc_ToolName_update (\<lambda>_. x)) raw v
      else if is_field ''args'' k then dec_field dec_raw tc_Args (\<lambda>x. tc_Args_update (\<lambda>_. x)) raw v
      else (v, True))"

definition msg_ToolCall :: "Message \<Rightarrow> ToolCallFields option" where
  "msg_ToolCall m =
     (if m_Type m \<noteq> ''tool_call'' then None
      else case unmarshal_struct step_tool_call \<lparr>tc_CallID = [], tc_ToolName = [], tc_Args = None\<rparr> (body_bytes m) of
             (v, ok) \<Rightarrow> if ok then Some v else None)"

record ToolResultFields =
  rf_CallID :: string
  rf_ToolName :: string
  rf_Content :: string
  rf_Data :: "string option"
  rf_IsError :: bool

definition step_tool_result :: "ToolResultFields \<Rightarrow> string \<Rightarrow> string \<Rightarrow> ToolResultFields \<times> bool" where
  "step_tool_result v k raw =
     (if is_field ''call_id'' k then dec_field dec_string rf_CallID (\<lambda>x. rf_CallID_update (\<lambda>_. x)) raw v
      else if is_field ''tool_name'' k then dec_field dec_string rf_ToolName (\<lambda>x. rf_ToolName_update (\<lambda>_. x)) raw v
      else if is_field ''content'' k then dec_field dec_string rf_Content (\<lambda>x. rf_Content_update (\<lambda>_. x)) raw v
      else if is_field ''data'' k then dec_field dec_raw rf_Data (\<lambda>x. rf_Data_update (\<lambda>_. x)) raw v
      else if is_field ''is_error'' k then dec_field dec_bool rf_IsError (\<lambda>x. rf_IsError_update (\<lambda>_. x)) raw v
      else (v, True))"

definition msg_ToolResult :: "Message \<Rightarrow> ToolResultFields option" where
  "msg_ToolResult m =
     (if m_Type m \<noteq> ''tool_result'' then None
      else case unmarshal_struct step_tool_result
                  \<lparr>rf_CallID = [], rf_ToolName = [], rf_Content = [], rf_Data = None, rf_IsError = False\<rparr>
                  (body_bytes m) of
             (v, ok) \<Rightarrow> if ok then Some v else None)"

section \<open>Usage\<close>

definition json_usage :: "Usage \<Rightarrow> string" where
  "json_usage u = obj_text [(''inputTokens'', itoa (u_InputTokens u)), (''outputTokens'', itoa (u_OutputTokens u))]"

definition step_usage_fields :: "Usage \<Rightarrow> string \<Rightarrow> string \<Rightarrow> Usage \<times> bool" where
  "step_usage_fields v k raw =
     (if is_field ''inputTokens'' k then dec_field dec_int u_InputTokens (\<lambda>x. u_InputTokens_update (\<lambda>_. x)) raw v
      else if is_field ''outputTokens'' k then dec_field dec_int u_OutputTokens (\<lambda>x. u_OutputTokens_update (\<lambda>_. x)) raw v
      else (v, True))"

definition zero_usage :: Usage where
  "zero_usage = \<lparr>u_InputTokens = 0, u_OutputTokens = 0\<rparr>"

text \<open>A pointer field: \<^verbatim>\<open>null\<close> sets it to nil, anything else decodes into the old or a new value.\<close>

definition dec_usage :: "Usage option decoder" where
  "dec_usage raw cur =
     (if json_unmarshal raw = Some JNull then (None, True)
      else case unmarshal_struct step_usage_fields (case cur of Some u \<Rightarrow> u | None \<Rightarrow> zero_usage) raw of
             (u, ok) \<Rightarrow> (Some u, ok))"

definition step_usage :: "Usage option \<Rightarrow> string \<Rightarrow> string \<Rightarrow> Usage option \<times> bool" where
  "step_usage v k raw = (if is_field ''usage'' k then dec_usage raw v else (v, True))"

definition msg_WithUsage :: "Usage \<Rightarrow> Message \<Rightarrow> Message" where
  "msg_WithUsage u m =
     (let obj = (case unmarshal_map (body_bytes m) of
                   Some (Some ms) \<Rightarrow> map (\<lambda>(k, r). (k, Some r)) ms
                 | _ \<Rightarrow> [(''text'', m_Body m)]);
          obj' = AList.update ''usage'' (Some (json_usage u)) obj
      in m\<lparr>m_Body := marshal_map (map (\<lambda>(k, r). (k, marshal_raw r)) obj')\<rparr>)"

definition msg_Usage :: "Message \<Rightarrow> Usage option" where
  "msg_Usage m =
     (case unmarshal_struct step_usage None (body_bytes m) of (v, ok) \<Rightarrow> if ok then v else None)"

section \<open>The bodies as member lists\<close>

definition body_names :: "string list" where
  "body_names = [''call_id'', ''tool_name'', ''args'', ''thought_signature'', ''text'', ''content'', ''data'',
     ''is_error'', ''activeToolNames'', ''usage'', ''inputTokens'', ''outputTokens'']"

lemma body_names_distinct: "distinct (map fold_name body_names)"
  by code_simp

lemma is_field_names:
  "n \<in> set body_names \<Longrightarrow> k \<in> set body_names \<Longrightarrow> is_field n k \<longleftrightarrow> k = n"
  using body_names_distinct by (auto simp: is_field_def distinct_map inj_on_def)

lemma is_field_simps [simp]:
  "is_field n n"
  "is_field ''tool_name'' ''call_id'' = False" "is_field ''args'' ''call_id'' = False"
  "is_field ''call_id'' ''tool_name'' = False" "is_field ''args'' ''tool_name'' = False"
  "is_field ''call_id'' ''args'' = False" "is_field ''tool_name'' ''args'' = False"
  "is_field ''call_id'' ''thought_signature'' = False" "is_field ''tool_name'' ''thought_signature'' = False"
  "is_field ''args'' ''thought_signature'' = False" "is_field ''thought_signature'' ''call_id'' = False"
  "is_field ''thought_signature'' ''tool_name'' = False" "is_field ''thought_signature'' ''args'' = False"
  "is_field ''thought_signature'' ''text'' = False" "is_field ''text'' ''thought_signature'' = False"
  "is_field ''content'' ''call_id'' = False" "is_field ''content'' ''tool_name'' = False"
  "is_field ''data'' ''call_id'' = False" "is_field ''data'' ''tool_name'' = False" "is_field ''data'' ''content'' = False"
  "is_field ''is_error'' ''call_id'' = False" "is_field ''is_error'' ''tool_name'' = False"
  "is_field ''is_error'' ''content'' = False" "is_field ''is_error'' ''data'' = False"
  "is_field ''call_id'' ''content'' = False" "is_field ''call_id'' ''data'' = False" "is_field ''call_id'' ''is_error'' = False"
  "is_field ''tool_name'' ''content'' = False" "is_field ''tool_name'' ''data'' = False"
  "is_field ''tool_name'' ''is_error'' = False" "is_field ''content'' ''data'' = False"
  "is_field ''content'' ''is_error'' = False" "is_field ''data'' ''is_error'' = False"
  "is_field ''text'' ''usage'' = False" "is_field ''usage'' ''text'' = False"
  "is_field ''thought_signature'' ''usage'' = False" "is_field ''usage'' ''thought_signature'' = False"
  "is_field ''call_id'' ''usage'' = False" "is_field ''tool_name'' ''usage'' = False" "is_field ''args'' ''usage'' = False"
  "is_field ''usage'' ''call_id'' = False" "is_field ''usage'' ''tool_name'' = False" "is_field ''usage'' ''args'' = False"
  "is_field ''inputTokens'' ''outputTokens'' = False" "is_field ''outputTokens'' ''inputTokens'' = False"
  by (simp_all add: is_field_names body_names_def) (simp_all add: is_field_def)

lemma key_order [simp]:
  "''args'' \<le> ''call_id''" "''args'' \<le> ''tool_name''" "''call_id'' \<le> ''tool_name''" "''call_id'' \<le> ''content''"
  "''content'' \<le> ''data''" "''data'' \<le> ''is_error''" "''is_error'' \<le> ''tool_name''" "''content'' \<le> ''is_error''"
  "''content'' \<le> ''tool_name''" "''data'' \<le> ''tool_name''" "''call_id'' \<le> ''data''" "''call_id'' \<le> ''is_error''"
  "''text'' \<le> ''thought_signature''" "''text'' \<le> ''usage''" "''thought_signature'' \<le> ''usage''"
  "''args'' \<le> ''thought_signature''" "''call_id'' \<le> ''thought_signature''" "''thought_signature'' \<le> ''tool_name''"
  "''tool_name'' \<le> ''usage''" "''args'' \<le> ''usage''" "''call_id'' \<le> ''usage''"
  "\<not> ''call_id'' \<le> ''args''" "\<not> ''tool_name'' \<le> ''args''" "\<not> ''tool_name'' \<le> ''call_id''"
  "\<not> ''tool_name'' \<le> ''content''" "\<not> ''tool_name'' \<le> ''data''" "\<not> ''tool_name'' \<le> ''is_error''"
  "\<not> ''thought_signature'' \<le> ''args''" "\<not> ''tool_name'' \<le> ''thought_signature''"
  "\<not> ''thought_signature'' \<le> ''text''" "\<not> ''content'' \<le> ''call_id''"
  by code_simp+

lemma valid_names [simp]:
  "valid_utf8 ''args''" "valid_utf8 ''call_id''" "valid_utf8 ''tool_name''" "valid_utf8 ''content''"
  "valid_utf8 ''data''" "valid_utf8 ''is_error''" "valid_utf8 ''text''" "valid_utf8 ''thought_signature''"
  "valid_utf8 ''usage''" "valid_utf8 ''activeToolNames''" "valid_utf8 ''inputTokens''" "valid_utf8 ''outputTokens''"
  by (simp_all add: valid_utf8_Cons_ascii)

lemma marshal_tool_call:
  "marshal_map [(''call_id'', Some a), (''tool_name'', Some b), (''args'', Some c)]
     = Some (obj_text [(''args'', c), (''call_id'', a), (''tool_name'', b)])"
  by (simp add: marshal_map_def)


lemma marshal_tool_call_signature:
  "marshal_map [(''call_id'', Some a), (''tool_name'', Some b), (''args'', Some c), (''thought_signature'', Some d)]
     = Some (obj_text [(''args'', c), (''call_id'', a), (''thought_signature'', d), (''tool_name'', b)])"
  by (simp add: marshal_map_def)

lemma marshal_tool_result:
  "marshal_map [(''call_id'', Some a), (''tool_name'', Some b), (''content'', Some c), (''data'', Some d), (''is_error'', Some e)]
     = Some (obj_text [(''call_id'', a), (''content'', c), (''data'', d), (''is_error'', e), (''tool_name'', b)])"
  by (simp add: marshal_map_def)

lemma marshal_text_signature:
  "marshal_map [(''text'', Some a), (''thought_signature'', Some b)] = Some (obj_text [(''text'', a), (''thought_signature'', b)])"
  by (simp add: marshal_map_def)

lemma marshal_members_None: "(k, None) \<in> set ms \<Longrightarrow> marshal_members ms = None"
  by (induction ms) (auto split: option.splits)

lemma marshal_map_None: "(k, None) \<in> set ms \<Longrightarrow> marshal_map ms = None"
  by (simp add: marshal_map_def marshal_members_None)

lemmas raw_values = raw_value_string raw_value_bytes raw_value_bool raw_value_int

lemma body_text_object:
  assumes "m_Body m = Some (obj_text ms)" "list_all (\<lambda>m. valid_utf8 (fst m) \<and> (\<exists>v. raw_value (snd m) v)) ms"
  shows "body_text m = fst (decode_members step_text [] ms)"
    "body_signature m = (case decode_members step_signature None ms of (v, ok) \<Rightarrow> if ok then v else None)"
proof -
  obtain vs where "json_unmarshal (obj_text ms) = Some (JObj vs)" using json_unmarshal_obj(1) [OF assms(2)] by blast
  then show "body_text m = fst (decode_members step_text [] ms)"
    using assms by (simp add: body_text_def body_bytes_def dec_string_def unmarshal_struct_obj)
  show "body_signature m = (case decode_members step_signature None ms of (v, ok) \<Rightarrow> if ok then v else None)"
    using assms by (simp add: body_signature_def body_bytes_def unmarshal_struct_obj)
qed

lemma body_text_string:
  assumes "m_Body m = Some (json_string s)"
  shows "body_text m = to_valid s" "body_signature m = None"
  using assms raw_value_unmarshal [OF raw_value_string, of s]
  by (simp_all add: body_text_def body_signature_def body_bytes_def reads unmarshal_struct_def)

lemma new_text_bodies:
  "m_Body (NewText r s) = Some (json_string s)" "m_Type (NewText r s) = ''text''"
  "m_Body (NewThinking r s) = Some (json_string s)" "m_Type (NewThinking r s) = ''thinking''"
  by (simp_all add: NewText_def NewThinking_def mk_message_def)

lemma signature_body:
  assumes "m_Body m = Some (obj_text [(''text'', json_string s), (''thought_signature'', json_bytes g)])"
  shows "body_text m = to_valid s" "body_signature m = Some g"
proof -
  have "list_all (\<lambda>m. valid_utf8 (fst m) \<and> (\<exists>v. raw_value (snd m) v))
      [(''text'', json_string s), (''thought_signature'', json_bytes g)]"
    using raw_values by auto
  from body_text_object [OF assms this]
  show "body_text m = to_valid s" "body_signature m = Some g"
    by (simp_all add: step_text_def step_signature_def reads)
qed

lemma text_roundtrip:
  "msg_Text (NewTextWithSignature role s g) = to_valid s \<and>
   msg_TextThoughtSignature (NewTextWithSignature role s g) = (if g = [] then None else Some g) \<and>
   msg_ThinkingText (NewThinkingWithSignature role s g) = to_valid s \<and>
   msg_ThinkingThoughtSignature (NewThinkingWithSignature role s g) = (if g = [] then None else Some g)"
proof (cases "g = []")
  case True
  then show ?thesis
    using body_text_string [OF new_text_bodies(1)] body_text_string [OF new_text_bodies(3)]
    by (simp add: NewTextWithSignature_def NewThinkingWithSignature_def msg_Text_def msg_TextThoughtSignature_def
        msg_ThinkingText_def msg_ThinkingThoughtSignature_def new_text_bodies)
next
  case False
  then show ?thesis
    by (simp add: NewTextWithSignature_def NewThinkingWithSignature_def msg_Text_def msg_TextThoughtSignature_def
        msg_ThinkingText_def msg_ThinkingThoughtSignature_def marshal_text_signature signature_body mk_message_def)
qed

lemma marshal_raw_SomeD:
  assumes "marshal_raw r = Some c"
  shows "\<exists>v. raw_value c v \<and> json_unmarshal c = Some v \<and> (\<forall>s. r = Some s \<longrightarrow> json_unmarshal s = Some v)"
proof -
  have "\<And>s. r = Some s \<Longrightarrow> json_valid s"
    using assms by (auto simp: marshal_raw_def json_compact_def split: if_splits)
  then obtain c' v where "marshal_raw r = Some c'" "raw_value c' v" "\<And>s. r = Some s \<Longrightarrow> json_unmarshal s = Some v"
    by (rule marshal_raw_value) blast+
  then show ?thesis using assms raw_value_unmarshal by auto
qed

lemma marshal_raw_meaning:
  assumes "raw_value r v"
  obtains c where "marshal_raw (Some r) = Some c" "raw_value c v" "json_unmarshal c = Some v"
proof -
  have u: "json_unmarshal r = Some v" using raw_value_unmarshal [OF assms] .
  from json_compact_value [OF this] obtain c where "json_compact r = Some c" "raw_value c v" by blast
  then show thesis using raw_value_unmarshal by (intro that [of c]) (simp_all add: marshal_raw_def)
qed

text \<open>The decoders only look at the meaning of the text.\<close>

lemma decoder_meaning:
  assumes "json_unmarshal c = json_unmarshal r"
  shows "dec_string c = dec_string r" "dec_bool c = dec_bool r" "dec_int c = dec_int r" "dec_bytes c = dec_bytes r"
  using assms by (simp_all add: fun_eq_iff dec_string_def dec_bool_def dec_int_def dec_bytes_def)

definition call_fields :: "string \<Rightarrow> string \<Rightarrow> string option \<Rightarrow> ToolCallFields" where
  "call_fields i n a = \<lparr>tc_CallID = i, tc_ToolName = n, tc_Args = a\<rparr>"

lemma tool_call_roundtrip:
  fixes i n g r :: string and a :: "string option"
  defines "m \<equiv> NewToolCallWithSignature r i n a g"
  shows "(case marshal_raw a of
            None \<Rightarrow> m_Body m = None \<and> msg_ToolCall m = None
          | Some c \<Rightarrow> msg_ToolCall m = Some (call_fields (to_valid i) (to_valid n) (Some c)) \<and>
                      msg_ToolCallThoughtSignature m = (if g = [] then None else Some g))"
proof (cases "marshal_raw a")
  case None
  then have "m_Body m = None" "m_Type m = ''tool_call''"
    by (auto simp: m_def NewToolCallWithSignature_def NewToolCall_def mk_message_def intro!: marshal_map_None)
  moreover have "json_unmarshal [] = None" by (simp add: json_unmarshal_def)
  ultimately show ?thesis using None
    by (simp add: msg_ToolCall_def body_bytes_def unmarshal_struct_def)
next
  case (Some c)
  then obtain v where v: "raw_value c v" using marshal_raw_SomeD by blast
  define ms where "ms = (if g = [] then [(''args'', c), (''call_id'', json_string i), (''tool_name'', json_string n)]
    else [(''args'', c), (''call_id'', json_string i), (''thought_signature'', json_bytes g), (''tool_name'', json_string n)])"
  have m: "m_Body m = Some (obj_text ms)" "m_Type m = ''tool_call''"
    using Some by (auto simp: m_def ms_def NewToolCallWithSignature_def NewToolCall_def mk_message_def
        marshal_tool_call marshal_tool_call_signature)
  have w: "list_all (\<lambda>m. valid_utf8 (fst m) \<and> (\<exists>v. raw_value (snd m) v)) ms"
    using v raw_values by (auto simp: ms_def)
  have "msg_ToolCall m = Some (call_fields (to_valid i) (to_valid n) (Some c))"
    using m by (simp add: msg_ToolCall_def body_bytes_def unmarshal_struct_obj [OF w])
      (simp add: ms_def step_tool_call_def dec_field_def reads call_fields_def)
  moreover have "body_signature m = (if g = [] then None else Some g)"
    unfolding body_text_object(2) [OF m(1) w] by (simp add: ms_def step_signature_def reads)
  ultimately show ?thesis using Some m(2) by (simp add: msg_ToolCallThoughtSignature_def)
qed

lemma tool_result_roundtrip:
  fixes i n :: string and res :: ToolResult
  defines "m \<equiv> NewToolResultMsg i n res"
  assumes "marshal_raw (tr_Data res) = Some c"
  shows "msg_ToolResult m = Some \<lparr>rf_CallID = to_valid i, rf_ToolName = to_valid n, rf_Content = to_valid (tr_Content res),
      rf_Data = Some c, rf_IsError = tr_IsError res\<rparr> \<and> m_Images m = tr_Images res \<and> m_Role m = ''tool''"
proof -
  obtain v where v: "raw_value c v" using marshal_raw_SomeD [OF assms(2)] by blast
  define ms where "ms = [(''call_id'', json_string i), (''content'', json_string (tr_Content res)), (''data'', c),
    (''is_error'', json_bool (tr_IsError res)), (''tool_name'', json_string n)]"
  have m: "m_Body m = Some (obj_text ms)" "m_Type m = ''tool_result''" "m_Images m = tr_Images res" "m_Role m = ''tool''"
    using assms(2) by (auto simp: m_def ms_def NewToolResultMsg_def tool_result_body_def mk_message_def marshal_tool_result)
  have w: "list_all (\<lambda>m. valid_utf8 (fst m) \<and> (\<exists>v. raw_value (snd m) v)) ms"
    using v raw_values by (auto simp: ms_def)
  show ?thesis
    using m by (simp add: msg_ToolResult_def body_bytes_def unmarshal_struct_obj [OF w])
      (simp add: ms_def step_tool_result_def dec_field_def reads)
qed

lemma active_tools_roundtrip:
  assumes "\<And>ys. names = Some ys \<Longrightarrow> list_all valid_utf8 ys"
  shows "msg_ActiveToolNames (NewActiveToolsChange names) = Some names"
proof -
  have w: "list_all (\<lambda>m. valid_utf8 (fst m) \<and> (\<exists>v. raw_value (snd m) v)) [(''activeToolNames'', json_strings names)]"
    using raw_value_strings [OF assms] by auto
  show ?thesis
    by (simp add: msg_ActiveToolNames_def NewActiveToolsChange_def mk_message_def body_bytes_def marshal_map_def
        unmarshal_struct_obj [OF w] step_names_def dec_strings_print [OF assms])
qed


section \<open>Recording usage\<close>

definition usage_in_range :: "Usage \<Rightarrow> bool" where
  "usage_in_range u \<longleftrightarrow> - (2 ^ 63) \<le> u_InputTokens u \<and> u_InputTokens u < 2 ^ 63 \<and>
     - (2 ^ 63) \<le> u_OutputTokens u \<and> u_OutputTokens u < 2 ^ 63"

lemma json_usage_members:
  "list_all (\<lambda>m. valid_utf8 (fst m) \<and> (\<exists>v. raw_value (snd m) v))
     [(''inputTokens'', itoa (u_InputTokens u)), (''outputTokens'', itoa (u_OutputTokens u))]"
  using raw_value_int by auto

lemma json_string_names:
  "json_string ''inputTokens'' = dquote # ''inputTokens'' @ [dquote]"
  "json_string ''outputTokens'' = dquote # ''outputTokens'' @ [dquote]"
  by code_simp+

lemma compact_itoa: "compact_scan False (itoa i @ t) = itoa i @ compact_scan False t"
  using parse_num_exact(2) [OF parse_num_itoa] num_chars_no_quote by (intro compact_outside) blast

lemma compact_usage: "marshal_raw (Some (json_usage u)) = Some (json_usage u)"
proof -
  have "json_valid (json_usage u)"
    using json_unmarshal_obj(1) [OF json_usage_members] by (auto simp: json_valid_def json_usage_def)
  moreover have "compact_scan False (json_usage u) = json_usage u"
    by (simp add: json_usage_def obj_text_def json_string_names compact_itoa compact_scan.simps is_ws_def)
  ultimately show ?thesis by (simp add: marshal_raw_def json_compact_def)
qed

lemma dec_usage_json: "usage_in_range u \<Longrightarrow> dec_usage (json_usage u) cur = (Some u, True)"
  using json_unmarshal_obj(1) [OF json_usage_members, of u]
  by (auto simp: dec_usage_def json_usage_def unmarshal_struct_obj [OF json_usage_members]
      step_usage_fields_def dec_field_def reads usage_in_range_def)

lemma raw_value_usage: "\<exists>v. raw_value (json_usage u) v"
  unfolding json_usage_def by (rule json_unmarshal_obj(3) [OF json_usage_members])

lemma unmarshal_map_obj:
  assumes "list_all (\<lambda>m. valid_utf8 (fst m) \<and> (\<exists>v. raw_value (snd m) v)) ms"
  shows "unmarshal_map (obj_text ms) = Some (Some (foldl (\<lambda>m (k, r). AList.update k r m) [] ms))"
  using json_unmarshal_obj(1,2) [OF assms] by (auto simp: unmarshal_map_def)

lemma marshal_text_usage:
  "marshal_map [(''text'', Some a), (''usage'', Some b)] = Some (obj_text [(''text'', a), (''usage'', b)])"
  "marshal_map [(''text'', Some a), (''thought_signature'', Some c), (''usage'', Some b)]
     = Some (obj_text [(''text'', a), (''thought_signature'', c), (''usage'', b)])"
  by (simp_all add: marshal_map_def)

lemma marshal_call_usage:
  "marshal_map [(''args'', Some a), (''call_id'', Some b), (''tool_name'', Some c), (''usage'', Some d)]
     = Some (obj_text [(''args'', a), (''call_id'', b), (''tool_name'', c), (''usage'', d)])"
  "marshal_map [(''args'', Some a), (''call_id'', Some b), (''thought_signature'', Some e), (''tool_name'', Some c), (''usage'', Some d)]
     = Some (obj_text [(''args'', a), (''call_id'', b), (''thought_signature'', e), (''tool_name'', c), (''usage'', d)])"
  by (simp_all add: marshal_map_def)

text \<open>
  The three bodies a turn's last message can have: a plain string, a text with its signature, and
  a tool call with or without one. Recording the usage keeps what the accessors read.
\<close>

text \<open>
  Recording the usage on a text message, whether its body is a plain string or an object with a
  thought signature, gives a body from which the usage, the text and the signature all read back.
\<close>

theorem with_usage_text:
  assumes "usage_in_range u"
  shows "msg_Usage (msg_WithUsage u (NewTextWithSignature role s g)) = Some u \<and>
    msg_Text (msg_WithUsage u (NewTextWithSignature role s g)) = to_valid s \<and>
    msg_TextThoughtSignature (msg_WithUsage u (NewTextWithSignature role s g)) = (if g = [] then None else Some g)"
proof -
  let ?m = "NewTextWithSignature role s g"
  let ?n = "msg_WithUsage u ?m"
  obtain c where c: "marshal_raw (Some (json_string s)) = Some c" "raw_value c (JStr (to_valid s))"
    "json_unmarshal c = Some (JStr (to_valid s))" by (rule marshal_raw_meaning [OF raw_value_string])
  obtain d where d: "marshal_raw (Some (json_bytes g)) = Some d" "raw_value d (JStr (b64_encode g))"
    "json_unmarshal d = Some (JStr (b64_encode g))" by (rule marshal_raw_meaning [OF raw_value_bytes])
  define ms where "ms = (if g = [] then [(''text'', c), (''usage'', json_usage u)]
    else [(''text'', c), (''thought_signature'', d), (''usage'', json_usage u)])"
  have w: "list_all (\<lambda>m. valid_utf8 (fst m) \<and> (\<exists>v. raw_value (snd m) v)) ms"
    using c(2) d(2) raw_value_usage by (auto simp: ms_def)
  have "m_Body ?n = Some (obj_text ms)"
  proof (cases "g = []")
    case True
    then have "unmarshal_map (body_bytes ?m) = None" "m_Body ?m = Some (json_string s)"
      using raw_value_unmarshal [OF raw_value_string, of s]
      by (simp_all add: NewTextWithSignature_def new_text_bodies body_bytes_def unmarshal_map_def)
    then show ?thesis using True c(1)
      by (simp add: msg_WithUsage_def compact_usage marshal_text_usage ms_def)
  next
    case False
    have w': "list_all (\<lambda>m. valid_utf8 (fst m) \<and> (\<exists>v. raw_value (snd m) v))
        [(''text'', json_string s), (''thought_signature'', json_bytes g)]"
      using raw_values by auto
    from False have "m_Body ?m = Some (obj_text [(''text'', json_string s), (''thought_signature'', json_bytes g)])"
      by (simp add: NewTextWithSignature_def marshal_text_signature mk_message_def)
    then show ?thesis using False c(1) d(1)
      by (simp add: msg_WithUsage_def body_bytes_def unmarshal_map_obj [OF w'] compact_usage marshal_text_usage ms_def)
  qed
  moreover have "m_Type ?n = ''text''"
    by (simp add: msg_WithUsage_def NewTextWithSignature_def NewText_def mk_message_def Let_def)
  moreover note body_text_object [OF calculation(1) w]
  ultimately show ?thesis
    using dec_usage_json [OF assms] decoder_meaning(1) [of c "json_string s"] decoder_meaning(4) [of d "json_bytes g"]
      c(3) d(3) raw_value_unmarshal [OF raw_value_string, of s] raw_value_unmarshal [OF raw_value_bytes, of g]
    by (simp add: msg_Usage_def msg_Text_def msg_TextThoughtSignature_def body_bytes_def unmarshal_struct_obj [OF w])
      (simp add: ms_def step_usage_def step_text_def step_signature_def reads)
qed

text \<open>
  Recording the usage on a tool-call message whose arguments are valid JSON keeps the call: its id,
  its tool, arguments with the same meaning and the signature read back, and so does the usage.
\<close>

theorem with_usage_tool_call:
  assumes "usage_in_range u" "marshal_raw a = Some c"
  shows "\<exists>c'. json_unmarshal c' = json_unmarshal c \<and>
    msg_ToolCall (msg_WithUsage u (NewToolCallWithSignature role i n a g))
      = Some (call_fields (to_valid i) (to_valid n) (Some c')) \<and>
    msg_Usage (msg_WithUsage u (NewToolCallWithSignature role i n a g)) = Some u \<and>
    msg_ToolCallThoughtSignature (msg_WithUsage u (NewToolCallWithSignature role i n a g)) = (if g = [] then None else Some g)"
proof -
  let ?m = "NewToolCallWithSignature role i n a g"
  let ?n = "msg_WithUsage u ?m"
  obtain v where v: "raw_value c v" using marshal_raw_SomeD [OF assms(2)] by blast
  obtain c' where c': "marshal_raw (Some c) = Some c'" "raw_value c' v" "json_unmarshal c' = Some v"
    by (rule marshal_raw_meaning [OF v])
  obtain x where x: "marshal_raw (Some (json_string i)) = Some x" "raw_value x (JStr (to_valid i))"
    "json_unmarshal x = Some (JStr (to_valid i))" by (rule marshal_raw_meaning [OF raw_value_string])
  obtain y where y: "marshal_raw (Some (json_string n)) = Some y" "raw_value y (JStr (to_valid n))"
    "json_unmarshal y = Some (JStr (to_valid n))" by (rule marshal_raw_meaning [OF raw_value_string])
  obtain d where d: "marshal_raw (Some (json_bytes g)) = Some d" "raw_value d (JStr (b64_encode g))"
    "json_unmarshal d = Some (JStr (b64_encode g))" by (rule marshal_raw_meaning [OF raw_value_bytes])
  define os where "os = (if g = [] then [(''args'', c), (''call_id'', json_string i), (''tool_name'', json_string n)]
    else [(''args'', c), (''call_id'', json_string i), (''thought_signature'', json_bytes g), (''tool_name'', json_string n)])"
  define ms where "ms = (if g = [] then [(''args'', c'), (''call_id'', x), (''tool_name'', y), (''usage'', json_usage u)]
    else [(''args'', c'), (''call_id'', x), (''thought_signature'', d), (''tool_name'', y), (''usage'', json_usage u)])"
  have w': "list_all (\<lambda>m. valid_utf8 (fst m) \<and> (\<exists>v. raw_value (snd m) v)) os"
    using v raw_values by (auto simp: os_def)
  have w: "list_all (\<lambda>m. valid_utf8 (fst m) \<and> (\<exists>v. raw_value (snd m) v)) ms"
    using c'(2) d(2) x(2) y(2) raw_value_usage by (auto simp: ms_def)
  have "m_Body ?m = Some (obj_text os)"
    using assms(2) by (simp add: NewToolCallWithSignature_def NewToolCall_def mk_message_def os_def
        marshal_tool_call marshal_tool_call_signature)
  then have b: "m_Body ?n = Some (obj_text ms)"
    using c'(1) d(1) x(1) y(1)
    by (simp add: msg_WithUsage_def body_bytes_def unmarshal_map_obj [OF w'])
      (simp add: os_def ms_def compact_usage marshal_call_usage)
  have t: "m_Type ?n = ''tool_call''"
    by (simp add: msg_WithUsage_def NewToolCallWithSignature_def NewToolCall_def mk_message_def Let_def)
  have i: "dec_string x = dec_string (json_string i)" "dec_string y = dec_string (json_string n)" "dec_bytes d = dec_bytes (json_bytes g)"
    using decoder_meaning x(3) y(3) d(3) raw_value_unmarshal [OF raw_value_string]
      raw_value_unmarshal [OF raw_value_bytes, of g] by simp_all
  have "msg_ToolCall ?n = Some (call_fields (to_valid i) (to_valid n) (Some c'))"
    using b t i by (simp add: msg_ToolCall_def body_bytes_def unmarshal_struct_obj [OF w])
      (simp add: ms_def step_tool_call_def dec_field_def reads call_fields_def)
  moreover have "msg_Usage ?n = Some u"
    using b dec_usage_json [OF assms(1)] by (simp add: msg_Usage_def body_bytes_def unmarshal_struct_obj [OF w])
      (simp add: ms_def step_usage_def)
  moreover have "msg_ToolCallThoughtSignature ?n = (if g = [] then None else Some g)"
    using t i(3) by (simp add: msg_ToolCallThoughtSignature_def body_text_object(2) [OF b w])
      (simp add: ms_def step_signature_def reads)
  moreover have "json_unmarshal c' = json_unmarshal c" using c'(3) raw_value_unmarshal [OF v] by simp
  ultimately show ?thesis by blast
qed

section \<open>Constructors and accessors\<close>

text \<open>
  C36
  The accessors read back what the constructors stored: the text and its signature, the call with
  its compacted arguments, the result with its data, error flag and images, and the tool names.
  Each ill-formed byte of a text comes back as the replacement character.
\<close>

theorem message_roundtrips:
  assumes "marshal_raw a = Some c" "marshal_raw (tr_Data res) = Some d" "list_all valid_utf8 ns"
  shows "msg_Text (NewTextWithSignature role s g) = to_valid s \<and>
    msg_TextThoughtSignature (NewTextWithSignature role s g) = (if g = [] then None else Some g) \<and>
    msg_ToolCall (NewToolCallWithSignature role i n a g) = Some (call_fields (to_valid i) (to_valid n) (Some c)) \<and>
    msg_ToolCallThoughtSignature (NewToolCallWithSignature role i n a g) = (if g = [] then None else Some g) \<and>
    msg_ToolResult (NewToolResultMsg i n res) = Some \<lparr>rf_CallID = to_valid i, rf_ToolName = to_valid n,
      rf_Content = to_valid (tr_Content res), rf_Data = Some d, rf_IsError = tr_IsError res\<rparr> \<and>
    m_Images (NewToolResultMsg i n res) = tr_Images res \<and>
    msg_ActiveToolNames (NewActiveToolsChange (Some ns)) = Some (Some ns) \<and>
    msg_ActiveToolNames (NewActiveToolsChange None) = Some None"
  using text_roundtrip [of role s g] tool_call_roundtrip [where a = a and r = role and i = i and n = n and g = g] tool_result_roundtrip [OF assms(2), of i n]
    active_tools_roundtrip [of "Some ns"] active_tools_roundtrip [of None] assms(1,3)
  by simp

section \<open>Witnesses\<close>

lemma marshal_empty_object: "marshal_raw (Some ''{}'') = Some ''{}''"
proof -
  have "json_valid ''{}''" by code_simp
  moreover have "compact_scan False ''{}'' = ''{}''" by code_simp
  ultimately show ?thesis by (simp add: marshal_raw_def json_compact_def)
qed

theorem message_roundtrips_witness:
  "msg_ToolCall (NewToolCallWithSignature ''assistant'' ''c1'' ''read'' (Some ''{}'') [])
     = Some (call_fields (to_valid ''c1'') (to_valid ''read'') (Some ''{}''))"
  using message_roundtrips [OF marshal_empty_object, of
      "\<lparr>tr_Content = ''ok'', tr_Data = Some ''{}'', tr_IsError = False, tr_Terminate = False, tr_Suspend = False, tr_Images = []\<rparr>"
      "''{}''" "[]"] marshal_empty_object by simp

theorem with_usage_text_witness:
  "msg_Usage (msg_WithUsage \<lparr>u_InputTokens = 3, u_OutputTokens = 4\<rparr> (NewTextWithSignature ''assistant'' ''hi'' ''sig''))
     = Some \<lparr>u_InputTokens = 3, u_OutputTokens = 4\<rparr>"
  using with_usage_text [of "\<lparr>u_InputTokens = 3, u_OutputTokens = 4\<rparr>" "''assistant''" "''hi''" "''sig''"]
  by (simp add: usage_in_range_def)

theorem with_usage_tool_call_witness:
  "msg_Usage (msg_WithUsage \<lparr>u_InputTokens = 3, u_OutputTokens = 4\<rparr>
      (NewToolCallWithSignature ''assistant'' ''c1'' ''read'' (Some ''{}'') ''sig''))
     = Some \<lparr>u_InputTokens = 3, u_OutputTokens = 4\<rparr>"
  using with_usage_tool_call [OF _ marshal_empty_object, of "\<lparr>u_InputTokens = 3, u_OutputTokens = 4\<rparr>"
      "''assistant''" "''c1''" "''read''" "''sig''"]
  by (auto simp: usage_in_range_def)

end
