(* ===== verification/Tools.thy ===== *)
theory Tools
  imports Messages Go_Fmt
begin

text \<open>
  Tools (tool.go) and the registered and active tool sets (active_tools.go). A \<^verbatim>\<open>RegisteredTool\<close> is
  an interface; here a record of its methods. The client's functions are functions of their
  arguments, one application standing for one call; a streaming one returns the partial results it
  emitted beside its result. Constrained sampling, a value passed through to the provider, is left
  out, as are the contexts handed to the functions.
\<close>

type_synonym tool_return = "ToolResult \<times> err option"

record RegisteredTool =
  t_Name :: string
  t_Description :: string
  t_Schema :: "string option"
  t_IsSequential :: bool
  t_Execute :: "string \<Rightarrow> string option \<Rightarrow> tool_return"
  t_ExecuteStream :: "(string \<Rightarrow> string option \<Rightarrow> ToolResult list \<times> tool_return) option"

definition zero_result :: ToolResult where
  "zero_result = \<lparr>tr_Content = [], tr_Data = None, tr_IsError = False, tr_Terminate = False, tr_Suspend = False,
     tr_Images = []\<rparr>"

section \<open>Typed tools\<close>

type_synonym prepare_hook = "string option \<Rightarrow> string option + err"

record 'p ToolSpec =
  s_Name :: string
  s_Description :: string
  s_Sequential :: bool
  s_Execute :: "('p \<Rightarrow> tool_return) option"
  s_ExecuteStream :: "('p \<Rightarrow> ToolResult list \<times> tool_return) option"
  s_PrepareArguments :: "prepare_hook option"

definition runPrepare :: "prepare_hook option \<Rightarrow> string option \<Rightarrow> string option + err" where
  "runPrepare hook raw =
     (case hook of None \<Rightarrow> Inl raw
      | Some h \<Rightarrow> (case h raw of Inl p \<Rightarrow> Inl p | Inr e \<Rightarrow> Inr (wrap_err ''prepare arguments: '' e)))"

text \<open>\<open>unmarshal\<close> is \<^verbatim>\<open>json.Unmarshal\<close> into the parameter type, \<open>reflect\<close> the schema its reflection gives.\<close>

definition prepareParams :: "(string option \<Rightarrow> 'p + err) \<Rightarrow> prepare_hook option \<Rightarrow> string option \<Rightarrow> 'p + err" where
  "prepareParams unmarshal hook args =
     (case runPrepare hook args of
        Inr e \<Rightarrow> Inr e
      | Inl prepared \<Rightarrow>
          (case unmarshal prepared of Inl p \<Rightarrow> Inl p | Inr e \<Rightarrow> Inr (wrap_err ''unmarshal tool params: '' e)))"

definition typed_execute :: "(string option \<Rightarrow> 'p + err) \<Rightarrow> prepare_hook option \<Rightarrow> ('p \<Rightarrow> tool_return) \<Rightarrow>
    string \<Rightarrow> string option \<Rightarrow> tool_return" where
  "typed_execute unmarshal hook f callID args =
     (case prepareParams unmarshal hook args of Inr e \<Rightarrow> (zero_result, Some e) | Inl p \<Rightarrow> f p)"

definition typed_execute_stream :: "(string option \<Rightarrow> 'p + err) \<Rightarrow> prepare_hook option \<Rightarrow>
    ('p \<Rightarrow> ToolResult list \<times> tool_return) \<Rightarrow> string \<Rightarrow> string option \<Rightarrow> ToolResult list \<times> tool_return" where
  "typed_execute_stream unmarshal hook f callID args =
     (case prepareParams unmarshal hook args of Inr e \<Rightarrow> ([], (zero_result, Some e)) | Inl p \<Rightarrow> f p)"

text \<open>\<open>None\<close> is the panic: exactly one of the two functions must be set.\<close>

definition typed_schema :: "string option \<Rightarrow> string option" where
  "typed_schema reflect =
     (case reflect of
        None \<Rightarrow> Some (json_print (JObj [(''type'', JStr ''object''), (''properties'', JObj []), (''required'', JArr [])]))
      | Some s \<Rightarrow> Some s)"

definition NewTool :: "(string option \<Rightarrow> 'p + err) \<Rightarrow> string option \<Rightarrow> 'p ToolSpec \<Rightarrow> RegisteredTool option" where
  "NewTool unmarshal reflect t =
     (let mk = (\<lambda>ex st. \<lparr>t_Name = s_Name t, t_Description = s_Description t, t_Schema = typed_schema reflect,
                  t_IsSequential = s_Sequential t, t_Execute = ex, t_ExecuteStream = st\<rparr>)
      in case (s_Execute t, s_ExecuteStream t) of
           (Some f, None) \<Rightarrow> Some (mk (typed_execute unmarshal (s_PrepareArguments t) f) None)
         | (None, Some g) \<Rightarrow>
             (let st = typed_execute_stream unmarshal (s_PrepareArguments t) g
              in Some (mk (\<lambda>callID args. snd (st callID args)) (Some st)))
         | _ \<Rightarrow> None)"

definition dynamic_execute :: "prepare_hook option \<Rightarrow> (string \<Rightarrow> string option \<Rightarrow> tool_return) \<Rightarrow>
    string \<Rightarrow> string option \<Rightarrow> tool_return" where
  "dynamic_execute hook f callID args =
     (case runPrepare hook args of Inr e \<Rightarrow> (zero_result, Some e) | Inl prepared \<Rightarrow> f callID prepared)"

definition NewDynamicTool :: "string \<Rightarrow> string \<Rightarrow> string option \<Rightarrow> (string \<Rightarrow> string option \<Rightarrow> tool_return) \<Rightarrow>
    prepare_hook option \<Rightarrow> RegisteredTool" where
  "NewDynamicTool name description schema f hook =
     \<lparr>t_Name = name, t_Description = description, t_Schema = schema, t_IsSequential = False,
      t_Execute = dynamic_execute hook f, t_ExecuteStream = None\<rparr>"

text \<open>The execution site of the loop: a tool with the streaming capability is run through it.\<close>

definition run_tool :: "RegisteredTool \<Rightarrow> string \<Rightarrow> string option \<Rightarrow> ToolResult list \<times> tool_return" where
  "run_tool t callID args =
     (case t_ExecuteStream t of Some st \<Rightarrow> st callID args | None \<Rightarrow> ([], t_Execute t callID args))"

section \<open>Registered and active tools\<close>

definition tool_error :: "string \<Rightarrow> string \<Rightarrow> sentinel \<Rightarrow> err" where
  "tool_error pre name s = errorf_w (pre @ go_quote name) s"

definition schema_ok :: "string option \<Rightarrow> bool" where
  "schema_ok schema = (case schema of None \<Rightarrow> False | Some s \<Rightarrow> s \<noteq> [] \<and> json_valid s)"

fun validate_registered :: "string list \<Rightarrow> RegisteredTool list \<Rightarrow> err option" where
  "validate_registered registered [] = None"
| "validate_registered registered (t # ts) =
     (if t_Name t \<in> set registered then Some (tool_error ''tool '' (t_Name t) ErrDuplicateToolName)
      else if \<not> schema_ok (t_Schema t) then Some (tool_error ''tool '' (t_Name t) ErrInvalidToolSchema)
      else validate_registered (t_Name t # registered) ts)"

fun validate_active :: "string list \<Rightarrow> string list \<Rightarrow> string list \<Rightarrow> err option" where
  "validate_active registered active [] = None"
| "validate_active registered active (n # ns) =
     (if n \<notin> set registered then Some (tool_error ''active tool '' n ErrUnknownActiveTool)
      else if n \<in> set active then Some (tool_error ''active tool '' n ErrDuplicateToolName)
      else validate_active registered (n # active) ns)"

definition toolNames :: "RegisteredTool list \<Rightarrow> string list" where
  "toolNames tools = map t_Name tools"

definition validateToolConfig :: "RegisteredTool list \<Rightarrow> string list option \<Rightarrow> err option" where
  "validateToolConfig tools activeNames =
     (case validate_registered [] tools of
        Some e \<Rightarrow> Some e
      | None \<Rightarrow> (case activeNames of None \<Rightarrow> None | Some ns \<Rightarrow> validate_active (toolNames tools) [] ns))"

definition filterActiveTools :: "RegisteredTool list \<Rightarrow> string list option \<Rightarrow> RegisteredTool list" where
  "filterActiveTools tools activeNames =
     (case activeNames of None \<Rightarrow> tools | Some ns \<Rightarrow> filter (\<lambda>t. t_Name t \<in> set ns) tools)"

text \<open>The scan from the end; the outer \<open>None\<close> is that there is no entry.\<close>

fun last_active_names :: "Message list \<Rightarrow> string list option option" where
  "last_active_names [] = None"
| "last_active_names (m # ms) =
     (case msg_ActiveToolNames m of Some names \<Rightarrow> Some names | None \<Rightarrow> last_active_names ms)"

definition activeToolNamesFromTranscript :: "Message list \<Rightarrow> string list option option" where
  "activeToolNamesFromTranscript msgs = last_active_names (rev msgs)"

definition sameStringSet :: "string list \<Rightarrow> string list \<Rightarrow> bool" where
  "sameStringSet a b =
     (let sa = remdups a; sb = remdups b in length sa = length sb \<and> list_all (\<lambda>s. s \<in> set sb) sa)"

fun findTool :: "RegisteredTool list \<Rightarrow> string \<Rightarrow> RegisteredTool option" where
  "findTool [] name = None"
| "findTool (t # ts) name = (if t_Name t = name then Some t else findTool ts name)"

section \<open>Lemmas\<close>

lemma validate_registered_None:
  "validate_registered seen tools = None \<longleftrightarrow>
     distinct (toolNames tools) \<and> set (toolNames tools) \<inter> set seen = {} \<and>
     list_all (\<lambda>t. schema_ok (t_Schema t)) tools"
  by (induction seen tools rule: validate_registered.induct) (auto simp: toolNames_def)

lemma validate_active_None:
  "validate_active registered active ns = None \<longleftrightarrow>
     set ns \<subseteq> set registered \<and> distinct ns \<and> set ns \<inter> set active = {}"
  by (induction registered active ns rule: validate_active.induct) auto

lemma validate_registered_errors:
  "validate_registered seen tools = Some e \<Longrightarrow>
     errors_is e ErrDuplicateToolName \<or> errors_is e ErrInvalidToolSchema"
  by (induction seen tools rule: validate_registered.induct) (auto simp: tool_error_def split: if_splits)

lemma validate_active_errors:
  "validate_active registered active ns = Some e \<Longrightarrow>
     errors_is e ErrUnknownActiveTool \<or> errors_is e ErrDuplicateToolName"
  by (induction registered active ns rule: validate_active.induct) (auto simp: tool_error_def split: if_splits)

lemma validateToolConfig_None:
  "validateToolConfig tools names = None \<longleftrightarrow>
     distinct (toolNames tools) \<and> list_all (\<lambda>t. schema_ok (t_Schema t)) tools \<and>
     (\<forall>ns. names = Some ns \<longrightarrow> distinct ns \<and> set ns \<subseteq> set (toolNames tools))"
  using validate_registered_None [of "[]" tools]
  by (auto simp: validateToolConfig_def validate_active_None split: option.splits)

lemma findTool_Some: "findTool ts n = Some t \<Longrightarrow> t \<in> set ts \<and> t_Name t = n"
  by (induction ts) (auto split: if_splits)

lemma findTool_None: "findTool ts n = None \<longleftrightarrow> n \<notin> set (toolNames ts)"
  by (induction ts) (auto simp: toolNames_def)

lemma findTool_filter:
  "findTool (filter (\<lambda>t. t_Name t \<in> S) ts) n = (if n \<in> S then findTool ts n else None)"
  by (induction ts) auto

lemma sameStringSet_iff: "sameStringSet a b \<longleftrightarrow> set a = set b"
proof
  assume s: "sameStringSet a b"
  then have l: "length (remdups a) = length (remdups b)" and sub: "set a \<subseteq> set b"
    by (auto simp: sameStringSet_def Let_def list_all_iff)
  have "card (set a) = card (set b)" using l by (simp add: length_remdups_card_conv)
  then show "set a = set b" using sub by (simp add: card_subset_eq)
qed (auto simp: sameStringSet_def list_all_iff length_remdups_card_conv)

lemma last_active_names_append:
  "last_active_names (ms @ ns) =
     (case last_active_names ms of Some x \<Rightarrow> Some x | None \<Rightarrow> last_active_names ns)"
  by (induction ms) (auto split: option.splits)

lemma active_names_snoc:
  "activeToolNamesFromTranscript (ms @ [m]) =
     (case msg_ActiveToolNames m of Some x \<Rightarrow> Some x | None \<Rightarrow> activeToolNamesFromTranscript ms)"
  by (simp add: activeToolNamesFromTranscript_def split: option.splits)

lemma active_names_other_type:
  "m_Type m \<noteq> ''active_tools_change'' \<Longrightarrow> msg_ActiveToolNames m = None"
  by (simp add: msg_ActiveToolNames_def)

lemma active_names_append_other:
  "\<forall>m \<in> set ns. m_Type m \<noteq> ''active_tools_change'' \<Longrightarrow>
     activeToolNamesFromTranscript (ms @ ns) = activeToolNamesFromTranscript ms"
  by (induction ns rule: rev_induct)
    (simp_all add: active_names_snoc active_names_other_type flip: append_assoc)

end
