(* ===== verification/Session_Repo.thy ===== *)
theory Session_Repo
  imports Messages
begin

text \<open>
  The storage interface (session.go), what a backend promises its clients (the locale
  \<open>session_repo\<close>), and the two in-memory backends: agent.go's \<open>internalMemorySession\<close> and
  session/memory.go's \<open>MemorySession\<close>. An operation is a function of the backend's state; the wall
  clock and the random bytes it reads are fields of that state, to be set by its surroundings. The
  mutex makes every operation one step. A \<^verbatim>\<open>time.Time\<close> is represented by its RFC 3339 text.
\<close>

record SessionMeta =
  sm_ID :: string
  sm_CreatedAt :: string
  sm_UpdatedAt :: string

record BranchSummary =
  bs_StartIdx :: int
  bs_EndIdx :: int
  bs_Summary :: string
  bs_CreatedAt :: string
  bs_Usage :: "Usage option"

record 's SessionRepo =
  repo_Create :: "'s \<Rightarrow> 's \<times> (string + err)"
  repo_Append :: "string \<Rightarrow> Message list \<Rightarrow> 's \<Rightarrow> 's \<times> err option"
  repo_Load :: "string \<Rightarrow> 's \<Rightarrow> Message list + err"
  repo_List :: "'s \<Rightarrow> SessionMeta set + err"
  repo_AppendBranchSummary :: "string \<Rightarrow> BranchSummary \<Rightarrow> 's \<Rightarrow> 's \<times> err option"
  repo_LoadBranchSummaries :: "string \<Rightarrow> 's \<Rightarrow> BranchSummary list + err"
  repo_Delete :: "string \<Rightarrow> 's \<Rightarrow> 's \<times> err option"

text \<open>\<^verbatim>\<open>NewSessionID\<close> (uuid.go): the hex form of 16 random bytes.\<close>

definition NewSessionID :: "string \<Rightarrow> string" where
  "NewSessionID b = concat (map (\<lambda>c. [hex_char (byte c div 16), hex_char (byte c mod 16)]) b)"

lemma NewSessionID_Cons:
  "NewSessionID (c # b) = hex_char (byte c div 16) # hex_char (byte c mod 16) # NewSessionID b"
  by (simp add: NewSessionID_def)

lemma hex_char_inj: "d < 16 \<Longrightarrow> e < 16 \<Longrightarrow> hex_char d = hex_char e \<longleftrightarrow> d = e"
  by (metis hex_val_hex_char option.inject)

lemma NewSessionID_inj: "length a = length b \<Longrightarrow> NewSessionID a = NewSessionID b \<Longrightarrow> a = b"
proof (induction a b rule: list_induct2)
  case (Cons x xs y ys)
  have "byte x div 16 < 16" "byte y div 16 < 16" using byte_less [of x] byte_less [of y] by linarith+
  with Cons have "byte x div 16 = byte y div 16" "byte x mod 16 = byte y mod 16"
    by (simp_all add: NewSessionID_Cons hex_char_inj)
  then have "byte x = byte y" by (metis div_mult_mod_eq)
  with Cons show ?case by (simp add: NewSessionID_Cons)
qed simp

lemma NewSessionID_chars: "c \<in> set (NewSessionID b) \<Longrightarrow> c \<noteq> CHR ''/'' \<and> byte c < 0x80"
proof (induction b)
  case (Cons x b)
  have h: "hex_char d \<noteq> CHR ''/'' \<and> byte (hex_char d) < 0x80" if "d < 16" for d
    using that by (auto simp: hex_char_def of_char_eq_iff [symmetric, where 'a = nat] simp del: of_char_eq_iff)
  have "byte x div 16 < 16" using byte_less [of x] by linarith
  then show ?case using Cons h [of "byte x div 16"] h [of "byte x mod 16"] by (auto simp: NewSessionID_Cons)
qed (simp add: NewSessionID_def)

section \<open>The promises of a backend\<close>

text \<open>
  \<open>norm\<close> is what a message becomes by being stored and read back, for the messages that can be
  stored at all (\<open>storable\<close>), under the ids the backend can tell apart (\<open>okid\<close>).
\<close>

locale session_repo =
  fixes append :: "string \<Rightarrow> Message list \<Rightarrow> 's \<Rightarrow> 's \<times> err option"
    and load :: "string \<Rightarrow> 's \<Rightarrow> Message list + err"
    and append_summary :: "string \<Rightarrow> BranchSummary \<Rightarrow> 's \<Rightarrow> 's \<times> err option"
    and load_summaries :: "string \<Rightarrow> 's \<Rightarrow> BranchSummary list + err"
    and okid :: "string \<Rightarrow> bool"
    and storable :: "Message \<Rightarrow> bool"
    and norm :: "Message \<Rightarrow> Message"
    and storable_summary :: "BranchSummary \<Rightarrow> bool"
    and norm_summary :: "BranchSummary \<Rightarrow> BranchSummary"
  assumes load_append: "okid i \<Longrightarrow> append i ms s = (s', None) \<Longrightarrow> load i s = Inl old \<Longrightarrow>
      list_all storable ms \<Longrightarrow> load i s' = Inl (old @ map norm ms)"
    and load_append_other: "okid i \<Longrightarrow> okid j \<Longrightarrow> append i ms s = (s', e) \<Longrightarrow> i \<noteq> j \<Longrightarrow> load j s' = load j s"
    and summaries_append: "okid i \<Longrightarrow> okid j \<Longrightarrow> append i ms s = (s', e) \<Longrightarrow> load_summaries j s' = load_summaries j s"
    and load_append_summary: "okid i \<Longrightarrow> okid j \<Longrightarrow> append_summary i b s = (s', e) \<Longrightarrow> load j s' = load j s"
    and summaries_append_summary: "okid i \<Longrightarrow> append_summary i b s = (s', None) \<Longrightarrow> load_summaries i s = Inl bs \<Longrightarrow>
      storable_summary b \<Longrightarrow> load_summaries i s' = Inl (bs @ [norm_summary b])"
begin

text \<open>A client's run of appends to one session, stopping at the first failure.\<close>

fun append_all :: "string \<Rightarrow> Message list list \<Rightarrow> 's \<Rightarrow> 's \<times> err option" where
  "append_all i [] s = (s, None)"
| "append_all i (ms # mss) s =
     (case append i ms s of (s', None) \<Rightarrow> append_all i mss s' | (s', Some e) \<Rightarrow> (s', Some e))"

lemma load_append_all:
  "okid i \<Longrightarrow> append_all i mss s = (s', None) \<Longrightarrow> load i s = Inl old \<Longrightarrow> list_all (list_all storable) mss \<Longrightarrow>
     load i s' = Inl (old @ map norm (concat mss))"
proof (induction mss arbitrary: s old)
  case (Cons ms mss)
  then obtain t where t: "append i ms s = (t, None)" "append_all i mss t = (s', None)"
    by (auto split: prod.splits option.splits)
  then show ?case using Cons.IH [OF Cons.prems(1) t(2) load_append [OF Cons.prems(1) t(1) Cons.prems(3)]] Cons.prems(4)
    by simp
qed simp

lemma other_sessions_append_all:
  "okid i \<Longrightarrow> okid j \<Longrightarrow> append_all i mss s = (s', e) \<Longrightarrow> i \<noteq> j \<Longrightarrow>
     load j s' = load j s \<and> load_summaries j s' = load_summaries j s"
proof (induction mss arbitrary: s)
  case (Cons ms mss)
  obtain t x where t: "append i ms s = (t, x)" by fastforce
  note keep = load_append_other [OF Cons.prems(1,2) t Cons.prems(4)] summaries_append [OF Cons.prems(1,2) t]
  show ?case
  proof (cases x)
    case None
    then show ?thesis using Cons.IH [OF Cons.prems(1,2) _ Cons.prems(4), of t] Cons.prems(3) t keep by simp
  next
    case (Some a)
    then show ?thesis using Cons.prems(3) t keep by simp
  qed
qed simp

end

section \<open>internalMemorySession\<close>

record internalMemorySession =
  im_sessions :: "string \<rightharpoonup> Message list"
  im_summaries :: "string \<rightharpoonup> BranchSummary list"
  im_meta :: "string \<rightharpoonup> SessionMeta"
  im_now :: string
  im_rand :: string

definition newInternalMemorySession :: "string \<Rightarrow> string \<Rightarrow> internalMemorySession" where
  "newInternalMemorySession now rand =
     \<lparr>im_sessions = Map.empty, im_summaries = Map.empty, im_meta = Map.empty, im_now = now, im_rand = rand\<rparr>"

text \<open>Reading a Go map of slices: an absent key is the nil slice.\<close>

definition map_slice :: "(string \<rightharpoonup> 'a list) \<Rightarrow> string \<Rightarrow> 'a list" where
  "map_slice m k = (case m k of None \<Rightarrow> [] | Some xs \<Rightarrow> xs)"

definition im_Create :: "internalMemorySession \<Rightarrow> internalMemorySession \<times> (string + err)" where
  "im_Create s =
     (let i = NewSessionID (im_rand s) in
      (s\<lparr>im_sessions := (im_sessions s)(i \<mapsto> []),
         im_meta := (im_meta s)(i \<mapsto> \<lparr>sm_ID = i, sm_CreatedAt = im_now s, sm_UpdatedAt = im_now s\<rparr>)\<rparr>, Inl i))"

definition im_Append :: "string \<Rightarrow> Message list \<Rightarrow> internalMemorySession \<Rightarrow> internalMemorySession \<times> err option" where
  "im_Append i ms s =
     (let s1 = s\<lparr>im_sessions := (im_sessions s)(i \<mapsto> map_slice (im_sessions s) i @ ms)\<rparr> in
      case im_meta s1 i of
        None \<Rightarrow> (s1, None)
      | Some meta \<Rightarrow> (s1\<lparr>im_meta := (im_meta s1)(i \<mapsto> meta\<lparr>sm_UpdatedAt := im_now s1\<rparr>)\<rparr>, None))"

definition im_Load :: "string \<Rightarrow> internalMemorySession \<Rightarrow> Message list + err" where
  "im_Load i s = (case im_sessions s i of None \<Rightarrow> Inl [] | Some msgs \<Rightarrow> Inl msgs)"

definition im_List :: "internalMemorySession \<Rightarrow> SessionMeta set + err" where
  "im_List s = Inl (ran (im_meta s))"

definition im_AppendBranchSummary ::
    "string \<Rightarrow> BranchSummary \<Rightarrow> internalMemorySession \<Rightarrow> internalMemorySession \<times> err option" where
  "im_AppendBranchSummary i b s =
     (s\<lparr>im_summaries := (im_summaries s)(i \<mapsto> map_slice (im_summaries s) i @ [b])\<rparr>, None)"

definition im_LoadBranchSummaries :: "string \<Rightarrow> internalMemorySession \<Rightarrow> BranchSummary list + err" where
  "im_LoadBranchSummaries i s = Inl (map_slice (im_summaries s) i)"

definition im_Delete :: "string \<Rightarrow> internalMemorySession \<Rightarrow> internalMemorySession \<times> err option" where
  "im_Delete i s =
     (s\<lparr>im_sessions := (im_sessions s)(i := None), im_summaries := (im_summaries s)(i := None),
        im_meta := (im_meta s)(i := None)\<rparr>, None)"

definition im_repo :: "internalMemorySession SessionRepo" where
  "im_repo = \<lparr>repo_Create = im_Create, repo_Append = im_Append, repo_Load = im_Load, repo_List = im_List,
     repo_AppendBranchSummary = im_AppendBranchSummary, repo_LoadBranchSummaries = im_LoadBranchSummaries,
     repo_Delete = im_Delete\<rparr>"

lemma im_Load_slice: "im_Load i s = Inl (map_slice (im_sessions s) i)"
  by (simp add: im_Load_def map_slice_def split: option.splits)

lemma im_AppendD:
  "im_Append i ms s = (s', e) \<Longrightarrow> e = None \<and> im_summaries s' = im_summaries s \<and>
     im_sessions s' = (im_sessions s)(i \<mapsto> map_slice (im_sessions s) i @ ms)"
  by (auto simp: im_Append_def Let_def split: option.splits)

lemma map_slice_upd [simp]: "map_slice (m(i \<mapsto> x)) j = (if j = i then x else map_slice m j)"
  by (simp add: map_slice_def)

interpretation im: session_repo im_Append im_Load im_AppendBranchSummary im_LoadBranchSummaries
  "\<lambda>_. True" "\<lambda>_. True" "\<lambda>m. m" "\<lambda>_. True" "\<lambda>b. b"
  by unfold_locales
    (auto dest!: im_AppendD
      simp: im_Load_slice im_AppendBranchSummary_def im_LoadBranchSummaries_def)

section \<open>MemorySession\<close>

record MemorySession =
  ms_sessions :: "string \<rightharpoonup> Message list"
  ms_summaries :: "string \<rightharpoonup> BranchSummary list"
  ms_meta :: "string \<rightharpoonup> SessionMeta"
  ms_counter :: int
  ms_now :: string
  ms_rand :: string

definition NewMemorySession :: "string \<Rightarrow> string \<Rightarrow> MemorySession" where
  "NewMemorySession now rand =
     \<lparr>ms_sessions = Map.empty, ms_summaries = Map.empty, ms_meta = Map.empty, ms_counter = 0,
      ms_now = now, ms_rand = rand\<rparr>"

definition ms_Create :: "MemorySession \<Rightarrow> MemorySession \<times> (string + err)" where
  "ms_Create s =
     (let s = s\<lparr>ms_counter := ms_counter s + 1\<rparr>; i = NewSessionID (ms_rand s) in
      (s\<lparr>ms_sessions := (ms_sessions s)(i \<mapsto> []),
         ms_meta := (ms_meta s)(i \<mapsto> \<lparr>sm_ID = i, sm_CreatedAt = ms_now s, sm_UpdatedAt = ms_now s\<rparr>)\<rparr>, Inl i))"

definition ms_Append :: "string \<Rightarrow> Message list \<Rightarrow> MemorySession \<Rightarrow> MemorySession \<times> err option" where
  "ms_Append i ms s =
     (let s1 = s\<lparr>ms_sessions := (ms_sessions s)(i \<mapsto> map_slice (ms_sessions s) i @ ms)\<rparr> in
      case ms_meta s1 i of
        None \<Rightarrow> (s1, None)
      | Some meta \<Rightarrow> (s1\<lparr>ms_meta := (ms_meta s1)(i \<mapsto> meta\<lparr>sm_UpdatedAt := ms_now s1\<rparr>)\<rparr>, None))"

definition ms_Load :: "string \<Rightarrow> MemorySession \<Rightarrow> Message list + err" where
  "ms_Load i s = (case ms_sessions s i of None \<Rightarrow> Inl [] | Some msgs \<Rightarrow> Inl msgs)"

definition ms_List :: "MemorySession \<Rightarrow> SessionMeta set + err" where
  "ms_List s = Inl (ran (ms_meta s))"

definition ms_AppendBranchSummary :: "string \<Rightarrow> BranchSummary \<Rightarrow> MemorySession \<Rightarrow> MemorySession \<times> err option" where
  "ms_AppendBranchSummary i b s =
     (s\<lparr>ms_summaries := (ms_summaries s)(i \<mapsto> map_slice (ms_summaries s) i @ [b])\<rparr>, None)"

definition ms_LoadBranchSummaries :: "string \<Rightarrow> MemorySession \<Rightarrow> BranchSummary list + err" where
  "ms_LoadBranchSummaries i s = Inl (map_slice (ms_summaries s) i)"

definition ms_Delete :: "string \<Rightarrow> MemorySession \<Rightarrow> MemorySession \<times> err option" where
  "ms_Delete i s =
     (s\<lparr>ms_sessions := (ms_sessions s)(i := None), ms_summaries := (ms_summaries s)(i := None),
        ms_meta := (ms_meta s)(i := None)\<rparr>, None)"

definition ms_repo :: "MemorySession SessionRepo" where
  "ms_repo = \<lparr>repo_Create = ms_Create, repo_Append = ms_Append, repo_Load = ms_Load, repo_List = ms_List,
     repo_AppendBranchSummary = ms_AppendBranchSummary, repo_LoadBranchSummaries = ms_LoadBranchSummaries,
     repo_Delete = ms_Delete\<rparr>"

section \<open>The two backends do not drift\<close>

text \<open>\<open>ms_abs\<close> forgets the counter. Every operation commutes with it and returns the same.\<close>

definition ms_abs :: "MemorySession \<Rightarrow> internalMemorySession" where
  "ms_abs s = \<lparr>im_sessions = ms_sessions s, im_summaries = ms_summaries s, im_meta = ms_meta s,
     im_now = ms_now s, im_rand = ms_rand s\<rparr>"

lemma ms_abs_simps [simp]:
  "im_sessions (ms_abs s) = ms_sessions s" "im_summaries (ms_abs s) = ms_summaries s" "im_meta (ms_abs s) = ms_meta s"
  "im_now (ms_abs s) = ms_now s" "im_rand (ms_abs s) = ms_rand s"
  by (simp_all add: ms_abs_def)

datatype repo_op =
    OpCreate | OpAppend string "Message list" | OpAppendSummary string BranchSummary | OpDelete string
  | OpEnv string string

text \<open>
  A sequence of calls on either backend; \<open>OpEnv\<close> sets what the clock and the random source read
  next. \<open>repo_step\<close> works on any backend given its operations.
\<close>

definition ms_step :: "repo_op \<Rightarrow> MemorySession \<Rightarrow> MemorySession" where
  "ms_step op s =
     (case op of
        OpCreate \<Rightarrow> fst (ms_Create s)
      | OpAppend i ms \<Rightarrow> fst (ms_Append i ms s)
      | OpAppendSummary i b \<Rightarrow> fst (ms_AppendBranchSummary i b s)
      | OpDelete i \<Rightarrow> fst (ms_Delete i s)
      | OpEnv now rand \<Rightarrow> s\<lparr>ms_now := now, ms_rand := rand\<rparr>)"

definition im_step :: "repo_op \<Rightarrow> internalMemorySession \<Rightarrow> internalMemorySession" where
  "im_step op s =
     (case op of
        OpCreate \<Rightarrow> fst (im_Create s)
      | OpAppend i ms \<Rightarrow> fst (im_Append i ms s)
      | OpAppendSummary i b \<Rightarrow> fst (im_AppendBranchSummary i b s)
      | OpDelete i \<Rightarrow> fst (im_Delete i s)
      | OpEnv now rand \<Rightarrow> s\<lparr>im_now := now, im_rand := rand\<rparr>)"

lemma ms_abs_ops:
  "ms_abs (fst (ms_Create s)) = fst (im_Create (ms_abs s))" "snd (ms_Create s) = snd (im_Create (ms_abs s))"
  "ms_abs (fst (ms_Append i ms s)) = fst (im_Append i ms (ms_abs s))"
  "snd (ms_Append i ms s) = snd (im_Append i ms (ms_abs s))"
  "ms_Load i s = im_Load i (ms_abs s)" "ms_List s = im_List (ms_abs s)"
  "ms_abs (fst (ms_AppendBranchSummary i b s)) = fst (im_AppendBranchSummary i b (ms_abs s))"
  "snd (ms_AppendBranchSummary i b s) = snd (im_AppendBranchSummary i b (ms_abs s))"
  "ms_LoadBranchSummaries i s = im_LoadBranchSummaries i (ms_abs s)"
  "ms_abs (fst (ms_Delete i s)) = fst (im_Delete i (ms_abs s))" "snd (ms_Delete i s) = snd (im_Delete i (ms_abs s))"
  by (simp_all add: ms_Create_def im_Create_def ms_Append_def im_Append_def ms_Load_def im_Load_def ms_List_def
      im_List_def ms_AppendBranchSummary_def im_AppendBranchSummary_def ms_LoadBranchSummaries_def
      im_LoadBranchSummaries_def ms_Delete_def im_Delete_def ms_abs_def Let_def split: option.splits)

lemma ms_abs_env: "ms_abs (s\<lparr>ms_now := n, ms_rand := r\<rparr>) = (ms_abs s)\<lparr>im_now := n, im_rand := r\<rparr>"
  by (simp add: ms_abs_def)

lemma ms_abs_step: "ms_abs (ms_step op s) = im_step op (ms_abs s)"
  by (cases op) (simp_all add: ms_step_def im_step_def ms_abs_ops ms_abs_env)

lemma ms_abs_steps: "ms_abs (fold ms_step ops s) = fold im_step ops (ms_abs s)"
  by (induction ops arbitrary: s) (simp_all add: ms_abs_step)

lemma ms_abs_new: "ms_abs (NewMemorySession now rand) = newInternalMemorySession now rand"
  by (simp add: ms_abs_def NewMemorySession_def newInternalMemorySession_def)

lemma ms_AppendD:
  "ms_Append i ms s = (s', e) \<Longrightarrow> e = None \<and> ms_summaries s' = ms_summaries s \<and>
     ms_sessions s' = (ms_sessions s)(i \<mapsto> map_slice (ms_sessions s) i @ ms)"
  by (auto simp: ms_Append_def Let_def split: option.splits)

interpretation ms: session_repo ms_Append ms_Load ms_AppendBranchSummary ms_LoadBranchSummaries
  "\<lambda>_. True" "\<lambda>_. True" "\<lambda>m. m" "\<lambda>_. True" "\<lambda>b. b"
  by unfold_locales
    (auto dest!: ms_AppendD
      simp: ms_abs_ops(5) im_Load_slice ms_AppendBranchSummary_def ms_LoadBranchSummaries_def)

text \<open>
  C27
  The in-memory backend of the session package behaves as the agent's built-in one: after any sequence of
  calls from the empty state, with the same clock and random bytes, both return the same transcript,
  the same summaries and the same listing for every session.
\<close>

theorem memory_backends_agree:
  "ms_Load i (fold ms_step ops (NewMemorySession now rand)) = im_Load i (fold im_step ops (newInternalMemorySession now rand)) \<and>
   ms_LoadBranchSummaries i (fold ms_step ops (NewMemorySession now rand))
     = im_LoadBranchSummaries i (fold im_step ops (newInternalMemorySession now rand)) \<and>
   ms_List (fold ms_step ops (NewMemorySession now rand)) = im_List (fold im_step ops (newInternalMemorySession now rand)) \<and>
   snd (ms_Create (fold ms_step ops (NewMemorySession now rand)))
     = snd (im_Create (fold im_step ops (newInternalMemorySession now rand)))"
  by (simp add: ms_abs_ops ms_abs_steps ms_abs_new)

end
