(* ===== verification/Session_Jsonl.thy ===== *)
theory Session_Jsonl
  imports Session_Repo Go_Path
begin

text \<open>
  The file backend (session/jsonl.go): one append-only file of JSON lines per session, and one of
  summaries beside it. The directory is an association list from path to content and modification
  time; opening a path may fail with an error of the system (\<open>js_faults\<close>), writes and syncs of an
  open file are taken to succeed. How the provider package marshals image parts is a parameter
  (\<open>enc_images\<close>, \<open>dec_images\<close>); what the code relies on is the locale \<open>image_codec\<close>. The texts of
  \<^verbatim>\<open>encoding/json\<close>'s errors are not modelled.
\<close>

record session_file =
  f_data :: string
  f_mtime :: string

record JSONLSession =
  js_dir :: string
  js_files :: "(string \<times> session_file) list"
  js_faults :: "(string \<times> err) list"
  js_now :: string
  js_rand :: string

text \<open>The error of opening a path, if any.\<close>

definition js_fault :: "JSONLSession \<Rightarrow> string \<Rightarrow> err option" where
  "js_fault s p = map_of (js_faults s) p"

definition js_path :: "JSONLSession \<Rightarrow> string \<Rightarrow> string" where
  "js_path s i = filepath_Join [js_dir s, i @ ''.jsonl'']"

definition summaries_path :: "JSONLSession \<Rightarrow> string \<Rightarrow> string" where
  "summaries_path s i = js_path s i @ ''.summaries''"

section \<open>Lines\<close>

definition ensureTrailingNewline :: "string \<Rightarrow> string" where
  "ensureTrailingNewline f = (if f = [] then f else if last f = newline then f else f @ [newline])"

text \<open>
  \<^verbatim>\<open>bufio.Scanner\<close> with its default split function and buffer: the lines without their newline and
  a carriage return before it, in order; a line of 64 KB or more stops the scan with an error.
\<close>

definition MaxScanTokenSize :: nat where
  "MaxScanTokenSize = 64 * 1024"

definition raw_lines :: "string \<Rightarrow> string list" where
  "raw_lines f = (let ls = split_on newline f in if last ls = [] then butlast ls else ls)"

definition drop_cr :: "string \<Rightarrow> string" where
  "drop_cr l = (if l \<noteq> [] \<and> last l = CHR 0x0D then butlast l else l)"

definition scan_ok :: "string \<Rightarrow> bool" where
  "scan_ok f \<longleftrightarrow> list_all (\<lambda>l. length l < MaxScanTokenSize) (raw_lines f)"

definition scan_lines :: "string \<Rightarrow> string list" where
  "scan_lines f = map drop_cr (takeWhile (\<lambda>l. length l < MaxScanTokenSize) (raw_lines f))"

definition token_too_long :: err where
  "token_too_long = errors_new ''bufio.Scanner: token too long''"

section \<open>Records\<close>

definition marshal_message :: "(ImageContent list \<Rightarrow> string) \<Rightarrow> Message \<Rightarrow> string option" where
  "marshal_message enc m =
     (case marshal_raw (m_Body m) of
        None \<Rightarrow> None
      | Some b \<Rightarrow>
          Some (obj_text ([(''Role'', json_string (m_Role m)), (''Type'', json_string (m_Type m)), (''Body'', b)]
            @ (if m_Images m = [] then [] else [(''Images'', enc (m_Images m))]))))"

definition step_message :: "ImageContent list decoder \<Rightarrow> Message \<Rightarrow> string \<Rightarrow> string \<Rightarrow> Message \<times> bool" where
  "step_message dec v k raw =
     (if is_field ''Role'' k then dec_field dec_string m_Role (\<lambda>x. m_Role_update (\<lambda>_. x)) raw v
      else if is_field ''Type'' k then dec_field dec_string m_Type (\<lambda>x. m_Type_update (\<lambda>_. x)) raw v
      else if is_field ''Body'' k then dec_field dec_raw m_Body (\<lambda>x. m_Body_update (\<lambda>_. x)) raw v
      else if is_field ''Images'' k then dec_field dec m_Images (\<lambda>x. m_Images_update (\<lambda>_. x)) raw v
      else (v, True))"

definition zero_message :: Message where
  "zero_message = \<lparr>m_Role = [], m_Type = [], m_Body = None, m_Images = []\<rparr>"

definition unmarshal_message :: "ImageContent list decoder \<Rightarrow> string \<Rightarrow> Message option" where
  "unmarshal_message dec l =
     (case unmarshal_struct (step_message dec) zero_message l of (m, ok) \<Rightarrow> if ok then Some m else None)"

text \<open>\<^verbatim>\<open>time.Time\<close> in JSON: its RFC 3339 text between quotes.\<close>

definition digits_at :: "string \<Rightarrow> nat list \<Rightarrow> bool" where
  "digits_at s is = list_all (\<lambda>i. is_digit (s ! i)) is"

definition num_at :: "string \<Rightarrow> nat \<Rightarrow> nat \<Rightarrow> nat" where
  "num_at s i n = nat_of_digits (take n (drop i s))"

definition days_in :: "nat \<Rightarrow> nat \<Rightarrow> nat" where
  "days_in m y =
     (if m = 2 then (if y mod 4 = 0 \<and> (y mod 100 \<noteq> 0 \<or> y mod 400 = 0) then 29 else 28)
      else if m \<in> {4, 6, 9, 11} then 30 else 31)"

definition zone_ok :: "string \<Rightarrow> bool" where
  "zone_ok z \<longleftrightarrow> z = ''Z'' \<or>
     (length z = 6 \<and> (z ! 0 = CHR ''+'' \<or> z ! 0 = CHR ''-'') \<and> digits_at z [1, 2, 4, 5] \<and> z ! 3 = CHR '':'' \<and>
      num_at z 1 2 \<le> 23 \<and> num_at z 4 2 \<le> 59)"

definition after_fraction :: "string \<Rightarrow> string" where
  "after_fraction s =
     (if 2 \<le> length s \<and> s ! 0 = CHR ''.'' \<and> is_digit (s ! 1) then dropWhile is_digit (tl s) else s)"

definition is_rfc3339 :: "string \<Rightarrow> bool" where
  "is_rfc3339 s \<longleftrightarrow> 20 \<le> length s \<and> digits_at s [0, 1, 2, 3, 5, 6, 8, 9, 11, 12, 14, 15, 17, 18] \<and>
     s ! 4 = CHR ''-'' \<and> s ! 7 = CHR ''-'' \<and> s ! 10 = CHR ''T'' \<and> s ! 13 = CHR '':'' \<and> s ! 16 = CHR '':'' \<and>
     1 \<le> num_at s 5 2 \<and> num_at s 5 2 \<le> 12 \<and> 1 \<le> num_at s 8 2 \<and> num_at s 8 2 \<le> days_in (num_at s 5 2) (num_at s 0 4) \<and>
     num_at s 11 2 \<le> 23 \<and> num_at s 14 2 \<le> 59 \<and> num_at s 17 2 \<le> 59 \<and> zone_ok (after_fraction (drop 19 s))"

definition json_time :: "string \<Rightarrow> string" where
  "json_time t = dquote # t @ [dquote]"

definition dec_time :: "string decoder" where
  "dec_time raw cur =
     (if raw = ''null'' then (cur, True)
      else let t = butlast (tl raw) in if raw = json_time t \<and> is_rfc3339 t then (t, True) else (cur, False))"

definition marshal_summary :: "BranchSummary \<Rightarrow> string" where
  "marshal_summary b =
     obj_text ([(''StartIdx'', itoa (bs_StartIdx b)), (''EndIdx'', itoa (bs_EndIdx b)),
         (''Summary'', json_string (bs_Summary b)), (''CreatedAt'', json_time (bs_CreatedAt b))]
       @ (case bs_Usage b of None \<Rightarrow> [] | Some u \<Rightarrow> [(''Usage'', json_usage u)]))"

definition step_summary :: "BranchSummary \<Rightarrow> string \<Rightarrow> string \<Rightarrow> BranchSummary \<times> bool" where
  "step_summary v k raw =
     (if is_field ''StartIdx'' k then dec_field dec_int bs_StartIdx (\<lambda>x. bs_StartIdx_update (\<lambda>_. x)) raw v
      else if is_field ''EndIdx'' k then dec_field dec_int bs_EndIdx (\<lambda>x. bs_EndIdx_update (\<lambda>_. x)) raw v
      else if is_field ''Summary'' k then dec_field dec_string bs_Summary (\<lambda>x. bs_Summary_update (\<lambda>_. x)) raw v
      else if is_field ''CreatedAt'' k then dec_field dec_time bs_CreatedAt (\<lambda>x. bs_CreatedAt_update (\<lambda>_. x)) raw v
      else if is_field ''Usage'' k then dec_field dec_usage bs_Usage (\<lambda>x. bs_Usage_update (\<lambda>_. x)) raw v
      else (v, True))"

definition zero_summary :: BranchSummary where
  "zero_summary = \<lparr>bs_StartIdx = 0, bs_EndIdx = 0, bs_Summary = [], bs_CreatedAt = ''0001-01-01T00:00:00Z'',
     bs_Usage = None\<rparr>"

definition unmarshal_summary :: "string \<Rightarrow> BranchSummary option" where
  "unmarshal_summary l =
     (case unmarshal_struct step_summary zero_summary l of (b, ok) \<Rightarrow> if ok then Some b else None)"

section \<open>Operations\<close>

definition read_file :: "JSONLSession \<Rightarrow> string \<Rightarrow> string" where
  "read_file s p = (case map_of (js_files s) p of None \<Rightarrow> [] | Some f \<Rightarrow> f_data f)"

definition write_file :: "string \<Rightarrow> string \<Rightarrow> JSONLSession \<Rightarrow> JSONLSession" where
  "write_file p d s = s\<lparr>js_files := AList.update p \<lparr>f_data = d, f_mtime = js_now s\<rparr> (js_files s)\<rparr>"

definition NewJSONLSession :: "string \<Rightarrow> (string \<times> session_file) list \<Rightarrow> (string \<times> err) list \<Rightarrow> string \<Rightarrow> string \<Rightarrow>
    err option \<Rightarrow> JSONLSession + err" where
  "NewJSONLSession dir files faults now rand mkdir =
     (case mkdir of
        Some e \<Rightarrow> Inr (wrap_err ''creating session dir: '' e)
      | None \<Rightarrow> Inl \<lparr>js_dir = dir, js_files = files, js_faults = faults, js_now = now, js_rand = rand\<rparr>)"

definition js_Create :: "JSONLSession \<Rightarrow> JSONLSession \<times> (string + err)" where
  "js_Create s =
     (let i = NewSessionID (js_rand s); p = js_path s i in
      case js_fault s p of
        Some e \<Rightarrow> (s, Inr (wrap_err ''creating session file: '' e))
      | None \<Rightarrow> (write_file p [] s, Inl i))"

text \<open>Lines are written one by one: a message that cannot be marshalled leaves the earlier ones behind.\<close>

fun write_messages :: "(ImageContent list \<Rightarrow> string) \<Rightarrow> Message list \<Rightarrow> string \<Rightarrow> string \<times> err option" where
  "write_messages enc [] d = (d, None)"
| "write_messages enc (m # ms) d =
     (case marshal_message enc m of
        None \<Rightarrow> (d, Some (errors_new ''marshaling message: ''))
      | Some l \<Rightarrow> write_messages enc ms (d @ l @ [newline]))"

definition js_Append :: "(ImageContent list \<Rightarrow> string) \<Rightarrow> string \<Rightarrow> Message list \<Rightarrow> JSONLSession \<Rightarrow>
    JSONLSession \<times> err option" where
  "js_Append enc i ms s =
     (let p = js_path s i in
      case js_fault s p of
        Some e \<Rightarrow> (s, Some (wrap_err ''opening session file: '' e))
      | None \<Rightarrow>
          (case write_messages enc ms (ensureTrailingNewline (read_file s p)) of
             (d, e) \<Rightarrow> (write_file p d s, e)))"

definition js_Load :: "ImageContent list decoder \<Rightarrow> string \<Rightarrow> JSONLSession \<Rightarrow> Message list + err" where
  "js_Load dec i s =
     (let p = js_path s i in
      case map_of (js_files s) p of
        None \<Rightarrow> Inl []
      | Some f \<Rightarrow>
          (case js_fault s p of
             Some e \<Rightarrow> Inr (wrap_err ''opening session file: '' e)
           | None \<Rightarrow>
               if scan_ok (f_data f) then Inl (List.map_filter (unmarshal_message dec) (scan_lines (f_data f)))
               else Inr (wrap_err ''reading session file: '' token_too_long)))"

definition base_name :: "string \<Rightarrow> string" where
  "base_name p = last (split_on CHR ''/'' p)"

definition js_List :: "JSONLSession \<Rightarrow> SessionMeta set + err" where
  "js_List s =
     (case js_fault s (js_dir s) of
        Some e \<Rightarrow> Inr (wrap_err ''reading session dir: '' e)
      | None \<Rightarrow>
          Inl (set (map (\<lambda>(p, f). \<lparr>sm_ID = base_name p, sm_CreatedAt = f_mtime f, sm_UpdatedAt = f_mtime f\<rparr>)
             (filter (\<lambda>(p, f). p = filepath_Join [js_dir s, base_name p]) (js_files s)))))"

definition js_AppendBranchSummary :: "string \<Rightarrow> BranchSummary \<Rightarrow> JSONLSession \<Rightarrow> JSONLSession \<times> err option" where
  "js_AppendBranchSummary i b s =
     (let p = summaries_path s i in
      case js_fault s p of
        Some e \<Rightarrow> (s, Some (wrap_err ''opening summaries file: '' e))
      | None \<Rightarrow>
          (write_file p (ensureTrailingNewline (read_file s p) @ marshal_summary b @ [newline]) s, None))"

definition js_LoadBranchSummaries :: "string \<Rightarrow> JSONLSession \<Rightarrow> BranchSummary list + err" where
  "js_LoadBranchSummaries i s =
     (let p = summaries_path s i in
      case map_of (js_files s) p of
        None \<Rightarrow> Inl []
      | Some f \<Rightarrow>
          (case js_fault s p of
             Some e \<Rightarrow> Inr (wrap_err ''opening summaries file: '' e)
           | None \<Rightarrow>
               if scan_ok (f_data f) then Inl (List.map_filter unmarshal_summary (scan_lines (f_data f)))
               else Inr (wrap_err ''reading summaries file: '' token_too_long)))"

definition js_Delete :: "string \<Rightarrow> JSONLSession \<Rightarrow> JSONLSession \<times> err option" where
  "js_Delete i s =
     (s\<lparr>js_files := AList.delete (summaries_path s i) (AList.delete (js_path s i) (js_files s))\<rparr>, None)"

definition js_repo :: "(ImageContent list \<Rightarrow> string) \<Rightarrow> ImageContent list decoder \<Rightarrow> JSONLSession SessionRepo" where
  "js_repo enc dec = \<lparr>repo_Create = js_Create, repo_Append = js_Append enc, repo_Load = js_Load dec, repo_List = js_List,
     repo_AppendBranchSummary = js_AppendBranchSummary, repo_LoadBranchSummaries = js_LoadBranchSummaries,
     repo_Delete = js_Delete\<rparr>"

section \<open>What a stored record reads back as\<close>

definition record_names :: "string list" where
  "record_names = [''Role'', ''Type'', ''Body'', ''Images'', ''StartIdx'', ''EndIdx'', ''Summary'', ''CreatedAt'', ''Usage'']"

lemma record_names_distinct: "distinct (map fold_name record_names)"
  by code_simp

lemma is_field_record:
  "n \<in> set record_names \<Longrightarrow> k \<in> set record_names \<Longrightarrow> is_field n k \<longleftrightarrow> k = n"
  using record_names_distinct by (auto simp: is_field_def distinct_map inj_on_def)

lemma session_names [simp]:
  "is_field ''Role'' ''Type'' = False" "is_field ''Role'' ''Body'' = False" "is_field ''Role'' ''Images'' = False"
  "is_field ''Type'' ''Body'' = False" "is_field ''Type'' ''Images'' = False" "is_field ''Body'' ''Images'' = False"
  "is_field ''StartIdx'' ''EndIdx'' = False" "is_field ''StartIdx'' ''Summary'' = False"
  "is_field ''StartIdx'' ''CreatedAt'' = False" "is_field ''StartIdx'' ''Usage'' = False"
  "is_field ''EndIdx'' ''Summary'' = False" "is_field ''EndIdx'' ''CreatedAt'' = False" "is_field ''EndIdx'' ''Usage'' = False"
  "is_field ''Summary'' ''CreatedAt'' = False" "is_field ''Summary'' ''Usage'' = False" "is_field ''CreatedAt'' ''Usage'' = False"
  by (simp_all add: is_field_record record_names_def)

lemma session_names_valid [simp]:
  "valid_utf8 ''Role''" "valid_utf8 ''Type''" "valid_utf8 ''Body''" "valid_utf8 ''Images''" "valid_utf8 ''StartIdx''"
  "valid_utf8 ''EndIdx''" "valid_utf8 ''Summary''" "valid_utf8 ''CreatedAt''" "valid_utf8 ''Usage''"
  by (simp_all add: valid_utf8_Cons_ascii)

locale image_codec =
  fixes enc_images :: "ImageContent list \<Rightarrow> string"
    and dec_images :: "ImageContent list decoder"
  assumes enc_value: "list_all (\<lambda>i. valid_utf8 (img_MimeType i)) ims \<Longrightarrow> \<exists>v. raw_value (enc_images ims) v"
    and enc_line: "list_all (\<lambda>i. valid_utf8 (img_MimeType i)) ims \<Longrightarrow> newline \<notin> set (enc_images ims)"
    and dec_enc: "list_all (\<lambda>i. valid_utf8 (img_MimeType i)) ims \<Longrightarrow> dec_images (enc_images ims) [] = (ims, True)"

text \<open>
  A message the format can hold: its body marshals, its image types are well-formed, and its line
  fits the scanner. \<open>norm_message\<close> is what comes back.
\<close>

definition storable_message :: "(ImageContent list \<Rightarrow> string) \<Rightarrow> Message \<Rightarrow> bool" where
  "storable_message enc m \<longleftrightarrow> list_all (\<lambda>i. valid_utf8 (img_MimeType i)) (m_Images m) \<and>
     (case marshal_message enc m of None \<Rightarrow> False | Some l \<Rightarrow> length l < MaxScanTokenSize)"

definition norm_message :: "Message \<Rightarrow> Message" where
  "norm_message m = m\<lparr>m_Role := to_valid (m_Role m), m_Type := to_valid (m_Type m), m_Body := marshal_raw (m_Body m)\<rparr>"

section \<open>Appending lines\<close>

lemma last_split_on: "f \<noteq> [] \<Longrightarrow> last f \<noteq> sep \<Longrightarrow> last (split_on sep f) \<noteq> []"
proof (induction f)
  case (Cons c f)
  obtain a as where a: "split_on sep f = a # as" by (cases "split_on sep f") auto
  show ?case
  proof (cases "f = []")
    case True
    then show ?thesis using Cons.prems by simp
  next
    case False
    then show ?thesis using Cons a by auto
  qed
qed simp

lemma raw_lines_line:
  assumes "f = [] \<or> last f = newline" "newline \<notin> set l"
  shows "raw_lines (f @ l @ [newline]) = raw_lines f @ [l]"
proof (cases "f = []")
  case True
  then show ?thesis using split_on_append_sep [OF assms(2), of "[]"] by (simp add: raw_lines_def)
next
  case False
  then obtain g where f: "f = g @ [newline]" using assms(1) by (metis append_butlast_last_id)
  have "split_on newline (f @ l @ [newline]) = split_on newline g @ [l, []]"
    using split_on_append_sep [OF assms(2), of "[]"] by (simp add: f split_on_append)
  moreover have "split_on newline f = split_on newline g @ [[]]" by (simp add: f split_on_append)
  ultimately show ?thesis by (simp add: raw_lines_def butlast_append)
qed

lemma raw_lines_repair: "raw_lines (ensureTrailingNewline f) = raw_lines f"
  using last_split_on [of f newline] split_on_append [of newline f "[]"]
  by (simp add: ensureTrailingNewline_def raw_lines_def)

lemma ensure_ends: "ensureTrailingNewline f = [] \<or> last (ensureTrailingNewline f) = newline"
  by (simp add: ensureTrailingNewline_def)

definition lines_text :: "string list \<Rightarrow> string" where
  "lines_text ls = concat (map (\<lambda>l. l @ [newline]) ls)"

lemma raw_lines_append:
  "f = [] \<or> last f = newline \<Longrightarrow> list_all (\<lambda>l. newline \<notin> set l) ls \<Longrightarrow>
     raw_lines (f @ lines_text ls) = raw_lines f @ ls"
proof (induction ls arbitrary: f)
  case (Cons l ls)
  have "raw_lines ((f @ l @ [newline]) @ lines_text ls) = raw_lines (f @ l @ [newline]) @ ls"
    using Cons.prems by (intro Cons.IH) simp_all
  then show ?case using raw_lines_line [OF Cons.prems(1)] Cons.prems(2) by (simp add: lines_text_def)
qed (simp add: lines_text_def)

text \<open>Lines added after the repair are read after the ones already there.\<close>

lemma scan_append:
  assumes "list_all (\<lambda>l. newline \<notin> set l \<and> l \<noteq> [] \<and> last l \<noteq> CHR 0x0D) ls"
  shows "raw_lines (ensureTrailingNewline f @ lines_text ls) = raw_lines f @ ls"
    "scan_ok f \<Longrightarrow> list_all (\<lambda>l. length l < MaxScanTokenSize) ls \<Longrightarrow>
       scan_ok (ensureTrailingNewline f @ lines_text ls) \<and>
       scan_lines (ensureTrailingNewline f @ lines_text ls) = scan_lines f @ ls"
proof -
  have nl: "list_all (\<lambda>l. newline \<notin> set l) ls" using assms by (auto simp: list_all_iff)
  show r: "raw_lines (ensureTrailingNewline f @ lines_text ls) = raw_lines f @ ls"
    using raw_lines_append [OF ensure_ends nl] by (simp add: raw_lines_repair)
  assume f: "scan_ok f" "list_all (\<lambda>l. length l < MaxScanTokenSize) ls"
  then have tw: "takeWhile (\<lambda>l. length l < MaxScanTokenSize) (raw_lines f @ ls) = raw_lines f @ ls"
    "takeWhile (\<lambda>l. length l < MaxScanTokenSize) (raw_lines f) = raw_lines f"
    by (auto simp: scan_ok_def list_all_iff takeWhile_eq_all_conv)
  have "map drop_cr ls = ls" using assms by (auto simp: list_all_iff drop_cr_def intro: map_idI)
  then show "scan_ok (ensureTrailingNewline f @ lines_text ls) \<and>
       scan_lines (ensureTrailingNewline f @ lines_text ls) = scan_lines f @ ls"
    unfolding scan_lines_def r tw using f by (simp add: scan_ok_def r)
qed

lemma write_messages_ok:
  "write_messages enc ms d = (d', None) \<Longrightarrow>
     \<exists>ls. map (marshal_message enc) ms = map Some ls \<and> d' = d @ lines_text ls"
proof (induction ms arbitrary: d)
  case (Cons m ms)
  then obtain l where l: "marshal_message enc m = Some l" by (auto split: option.splits)
  with Cons obtain ls where "map (marshal_message enc) ms = map Some ls" "d' = (d @ l @ [newline]) @ lines_text ls"
    by fastforce
  with l show ?case by (intro exI [of _ "l # ls"]) (simp add: lines_text_def)
qed (simp add: lines_text_def)

lemma marshal_raw_no_newline: "marshal_raw r = Some c \<Longrightarrow> newline \<notin> set c"
  using json_compact_no_newline by (auto simp: marshal_raw_def split: option.splits)

lemma obj_text_ends: "obj_text ms \<noteq> [] \<and> last (obj_text ms) = CHR ''}''"
  by (simp add: obj_text_def)

context image_codec
begin

lemma message_roundtrip:
  assumes "marshal_message enc_images m = Some l" "list_all (\<lambda>i. valid_utf8 (img_MimeType i)) (m_Images m)"
  shows "unmarshal_message dec_images l = Some (norm_message m)" "newline \<notin> set l"
    "l \<noteq> []" "last l \<noteq> CHR 0x0D"
proof -
  obtain b where b: "marshal_raw (m_Body m) = Some b" using assms(1) by (auto simp: marshal_message_def split: option.splits)
  define ms where "ms = [(''Role'', json_string (m_Role m)), (''Type'', json_string (m_Type m)), (''Body'', b)]
    @ (if m_Images m = [] then [] else [(''Images'', enc_images (m_Images m))])"
  have l: "l = obj_text ms" using assms(1) b by (simp add: marshal_message_def ms_def)
  have w: "list_all (\<lambda>m. valid_utf8 (fst m) \<and> (\<exists>v. raw_value (snd m) v)) ms"
    using marshal_raw_SomeD [OF b] enc_value [OF assms(2)] raw_value_string by (auto simp: ms_def)
  show "unmarshal_message dec_images l = Some (norm_message m)"
    using dec_enc [OF assms(2)]
    by (simp add: l unmarshal_message_def unmarshal_struct_obj [OF w])
      (simp add: ms_def step_message_def dec_field_def reads zero_message_def norm_message_def b)
  show "newline \<notin> set l" unfolding l
    using marshal_raw_no_newline [OF b] json_string_no_newline enc_line [OF assms(2)]
    by (intro obj_text_no_newline) (auto simp: ms_def)
  show "l \<noteq> []" "last l \<noteq> CHR 0x0D" unfolding l using obj_text_ends [of ms] by auto
qed

lemma stored_lines:
  "map (marshal_message enc_images) ms = map Some ls \<Longrightarrow> list_all (storable_message enc_images) ms \<Longrightarrow>
     list_all (\<lambda>l. newline \<notin> set l \<and> l \<noteq> [] \<and> last l \<noteq> CHR 0x0D) ls \<and>
     list_all (\<lambda>l. length l < MaxScanTokenSize) ls \<and>
     List.map_filter (unmarshal_message dec_images) ls = map norm_message ms"
proof (induction ms arbitrary: ls)
  case (Cons m ms)
  then obtain l ls' where l: "ls = l # ls'" "marshal_message enc_images m = Some l"
    "map (marshal_message enc_images) ms = map Some ls'" by (cases ls) auto
  moreover have "list_all (\<lambda>i. valid_utf8 (img_MimeType i)) (m_Images m)" "length l < MaxScanTokenSize"
    using Cons.prems(2) l(2) by (auto simp: storable_message_def)
  ultimately show ?case using Cons.IH [of ls'] Cons.prems(2) message_roundtrip [of m l]
    by (simp add: List.map_filter_def)
qed (simp add: List.map_filter_def)

lemma js_Append_Load:
  assumes "file_name (i @ ''.jsonl'')" "js_Append enc_images i ms s = (s', None)" "js_Load dec_images i s = Inl old"
    "list_all (storable_message enc_images) ms"
  shows "js_Load dec_images i s' = Inl (old @ map norm_message ms)"
proof -
  let ?p = "js_path s i" and ?f = "read_file s (js_path s i)"
  have nf: "js_fault s ?p = None" using assms(2) by (auto simp: js_Append_def Let_def split: option.splits prod.splits)
  then obtain d where d: "write_messages enc_images ms (ensureTrailingNewline ?f) = (d, None)" "s' = write_file ?p d s"
    using assms(2) by (auto simp: js_Append_def Let_def split: prod.splits)
  then obtain ls where ls: "map (marshal_message enc_images) ms = map Some ls" "d = ensureTrailingNewline ?f @ lines_text ls"
    using write_messages_ok by blast
  note st = stored_lines [OF ls(1) assms(4)]
  have old: "scan_ok ?f" "old = List.map_filter (unmarshal_message dec_images) (scan_lines ?f)"
    using assms(3) nf by (auto simp: js_Load_def read_file_def Let_def scan_ok_def scan_lines_def raw_lines_def
        List.map_filter_def split: option.splits if_splits)
  have sc: "scan_ok d \<and> scan_lines d = scan_lines ?f @ ls"
    unfolding ls(2) using st old(1) by (intro scan_append(2)) blast+
  have "js_path s' i = ?p" "js_fault s' = js_fault s" "map_of (js_files s') ?p = Some \<lparr>f_data = d, f_mtime = js_now s\<rparr>"
    using d(2) by (simp_all add: write_file_def js_path_def js_fault_def fun_eq_iff update_conv)
  then show ?thesis
    using sc nf st old(2) by (simp add: js_Load_def Let_def List.map_filter_def)
qed

end

section \<open>Sessions do not mix\<close>

definition okid :: "string \<Rightarrow> bool" where
  "okid i \<longleftrightarrow> CHR ''/'' \<notin> set i"

lemma okid_file_name: "okid i \<Longrightarrow> file_name (i @ ''.jsonl'')"
  by (auto simp: okid_def file_name_def append_eq_Cons_conv)

lemma strings_join_last:
  "x \<noteq> [] \<Longrightarrow> strings_join (es @ [x]) s \<noteq> [] \<and> last (strings_join (es @ [x]) s) = last x"
  by (cases "es = []") (simp_all add: strings_join_append)

lemma js_path_last: "okid i \<Longrightarrow> last (js_path s i) = CHR ''l'' \<and> js_path s i \<noteq> []"
proof -
  assume "okid i"
  note f = Join_dir_name [OF okid_file_name [OF this], of "js_dir s"]
  let ?es = "clean_elems (is_abs (js_dir s)) (split_on CHR ''/'' (js_dir s))"
  have "strings_join (?es @ [i @ ''.jsonl'']) ''/'' \<noteq> [] \<and> last (strings_join (?es @ [i @ ''.jsonl'']) ''/'') = CHR ''l''"
    using strings_join_last [of "i @ ''.jsonl''" ?es] by simp
  then show ?thesis using f by (cases "is_abs (js_dir s)") (simp_all add: js_path_def unclean_def)
qed

lemma js_path_inj: "okid i \<Longrightarrow> okid j \<Longrightarrow> js_path s i = js_path s j \<Longrightarrow> i = j"
  unfolding js_path_def using Join_inj okid_file_name by blast

lemma paths_differ:
  assumes "okid i" "okid j"
  shows "js_path s i \<noteq> summaries_path s j" "i \<noteq> j \<Longrightarrow> js_path s i \<noteq> js_path s j"
    "i \<noteq> j \<Longrightarrow> summaries_path s i \<noteq> summaries_path s j"
  using js_path_last [OF assms(1), of s] js_path_inj [OF assms, of s]
  by (auto simp: summaries_path_def)

lemma write_file_paths [simp]:
  "js_path (write_file p d s) i = js_path s i" "summaries_path (write_file p d s) i = summaries_path s i"
  "js_fault (write_file p d s) = js_fault s" "js_dir (write_file p d s) = js_dir s"
  "map_of (js_files (write_file p d s)) q = (if q = p then Some \<lparr>f_data = d, f_mtime = js_now s\<rparr> else map_of (js_files s) q)"
  by (auto simp: write_file_def js_path_def summaries_path_def update_conv js_fault_def)

lemma js_Append_other:
  assumes "js_Append enc i ms s = (s', e)"
  shows "s' = s \<or> (\<exists>d. s' = write_file (js_path s i) d s)"
  using assms by (auto simp: js_Append_def Let_def split: option.splits prod.splits)

lemma js_Load_other: "js_path s i \<noteq> p \<Longrightarrow> js_Load dec i (write_file p d s) = js_Load dec i s"
  by (simp add: js_Load_def Let_def split: option.split)

lemma js_LoadBranchSummaries_other:
  "summaries_path s i \<noteq> p \<Longrightarrow> js_LoadBranchSummaries i (write_file p d s) = js_LoadBranchSummaries i s"
  by (simp add: js_LoadBranchSummaries_def Let_def split: option.split)

section \<open>Summaries\<close>

definition storable_summary :: "BranchSummary \<Rightarrow> bool" where
  "storable_summary b \<longleftrightarrow> - (2 ^ 63) \<le> bs_StartIdx b \<and> bs_StartIdx b < 2 ^ 63 \<and>
     - (2 ^ 63) \<le> bs_EndIdx b \<and> bs_EndIdx b < 2 ^ 63 \<and> is_rfc3339 (bs_CreatedAt b) \<and>
     (case bs_Usage b of None \<Rightarrow> True | Some u \<Rightarrow> usage_in_range u) \<and> length (marshal_summary b) < MaxScanTokenSize"

definition norm_summary :: "BranchSummary \<Rightarrow> BranchSummary" where
  "norm_summary b = b\<lparr>bs_Summary := to_valid (bs_Summary b)\<rparr>"

definition plain_chars :: "string \<Rightarrow> bool" where
  "plain_chars s \<longleftrightarrow> list_all (\<lambda>c. is_digit c \<or> c \<in> set ''-+:.TZ'') s"

lemma plain_json_string: "plain_chars s \<Longrightarrow> json_string s = json_time s"
proof -
  assume p: "plain_chars s"
  have "concat (map esc_chunk (runes s)) = s"
    using p
  proof (induction s)
    case (Cons c s)
    then have c: "is_digit c \<or> c \<in> set ''-+:.TZ''" and s: "concat (map esc_chunk (runes s)) = s"
      by (simp_all add: plain_chars_def)
    have b: "byte c < 0x80" "esc_byte c = [c]"
      using c by (auto simp: is_digit_def esc_byte_def)
    then have "esc_chunk (byte c, [c]) = [c]" by (simp add: esc_chunk_def)
    then show ?case using s by (simp add: runes_Cons_ascii [OF b(1)])
  qed simp
  then show ?thesis by (simp add: json_string_def json_time_def)
qed

lemma plain_not_newline: "plain_chars s \<Longrightarrow> newline \<notin> set s"
  by (auto simp: plain_chars_def list_all_iff is_digit_def)

lemma plain_append [simp]: "plain_chars (a @ b) \<longleftrightarrow> plain_chars a \<and> plain_chars b"
  by (simp add: plain_chars_def)

lemma zone_plain:
  assumes "zone_ok z"
  shows "plain_chars z"
proof (cases "z = ''Z''")
  case False
  then have "length z = 6" "z ! 0 = CHR ''+'' \<or> z ! 0 = CHR ''-''" "digits_at z [1, 2, 4, 5]" "z ! 3 = CHR '':''"
    using assms by (auto simp: zone_ok_def)
  then show ?thesis
    by (auto simp: plain_chars_def list_all_length digits_at_def less_Suc_eq numeral_eq_Suc)
qed (simp add: plain_chars_def)

lemma after_fraction_plain: "plain_chars (after_fraction s) \<Longrightarrow> plain_chars s"
proof -
  assume a: "plain_chars (after_fraction s)"
  show ?thesis
  proof (cases "2 \<le> length s \<and> s ! 0 = CHR ''.'' \<and> is_digit (s ! 1)")
    case True
    then obtain t where s: "s = CHR ''.'' # t" by (cases s) auto
    have "plain_chars (takeWhile is_digit t)"
      by (auto simp: plain_chars_def list_all_iff dest: set_takeWhileD)
    moreover have "plain_chars (dropWhile is_digit t)" using a True s by (simp add: after_fraction_def)
    ultimately have "plain_chars t" by (metis plain_append takeWhile_dropWhile_id)
    then show ?thesis using s by (simp add: plain_chars_def)
  next
    case False
    then show ?thesis using a by (auto simp: after_fraction_def)
  qed
qed

lemma rfc3339_plain:
  assumes "is_rfc3339 s"
  shows "plain_chars s"
proof -
  have l: "20 \<le> length s" and d: "digits_at s [0, 1, 2, 3, 5, 6, 8, 9, 11, 12, 14, 15, 17, 18]"
    "s ! 4 = CHR ''-''" "s ! 7 = CHR ''-''" "s ! 10 = CHR ''T''" "s ! 13 = CHR '':''" "s ! 16 = CHR '':''"
    and z: "plain_chars (drop 19 s)"
    using assms after_fraction_plain zone_plain by (auto simp: is_rfc3339_def)
  have "plain_chars (take 19 s)"
    using l d by (auto simp: plain_chars_def list_all_length digits_at_def less_Suc_eq numeral_eq_Suc)
  then show ?thesis using z by (metis append_take_drop_id plain_append)
qed

lemma dec_time_json: "is_rfc3339 t \<Longrightarrow> dec_time (json_time t) cur = (t, True)"
  by (simp add: dec_time_def json_time_def)

lemma itoa_no_newline: "newline \<notin> set (itoa i)"
  using parse_num_exact(2) [OF parse_num_itoa] num_chars_no_quote by (fastforce simp: is_ws_def)

lemma json_usage_no_newline: "newline \<notin> set (json_usage u)"
  unfolding json_usage_def by (rule obj_text_no_newline) (simp add: itoa_no_newline)

lemma summary_roundtrip:
  assumes "storable_summary b"
  shows "unmarshal_summary (marshal_summary b) = Some (norm_summary b)" "newline \<notin> set (marshal_summary b)"
    "marshal_summary b \<noteq> []" "last (marshal_summary b) \<noteq> CHR 0x0D"
proof -
  define ms where "ms = [(''StartIdx'', itoa (bs_StartIdx b)), (''EndIdx'', itoa (bs_EndIdx b)),
      (''Summary'', json_string (bs_Summary b)), (''CreatedAt'', json_time (bs_CreatedAt b))]
    @ (case bs_Usage b of None \<Rightarrow> [] | Some u \<Rightarrow> [(''Usage'', json_usage u)])"
  have m: "marshal_summary b = obj_text ms" by (simp add: marshal_summary_def ms_def)
  have t: "plain_chars (bs_CreatedAt b)" "is_rfc3339 (bs_CreatedAt b)"
    using assms rfc3339_plain by (auto simp: storable_summary_def)
  have "\<exists>v. raw_value (json_time (bs_CreatedAt b)) v"
    using raw_value_string [of "bs_CreatedAt b"] by (auto simp: plain_json_string [OF t(1)])
  then have w: "list_all (\<lambda>m. valid_utf8 (fst m) \<and> (\<exists>v. raw_value (snd m) v)) ms"
    using raw_value_int raw_value_string raw_value_usage by (auto simp: ms_def split: option.splits)
  show "unmarshal_summary (marshal_summary b) = Some (norm_summary b)"
    using assms dec_usage_json dec_time_json [OF t(2)]
    by (cases "bs_Usage b")
      (simp_all add: m unmarshal_summary_def unmarshal_struct_obj [OF w],
       simp_all add: ms_def step_summary_def dec_field_def reads zero_summary_def norm_summary_def storable_summary_def)
  have "newline \<notin> set (json_time (bs_CreatedAt b))"
    using plain_not_newline [OF t(1)] by (simp add: json_time_def)
  then show "newline \<notin> set (marshal_summary b)" unfolding m
    using json_string_no_newline itoa_no_newline json_usage_no_newline
    by (intro obj_text_no_newline) (auto simp: ms_def split: option.splits)
  show "marshal_summary b \<noteq> []" "last (marshal_summary b) \<noteq> CHR 0x0D" unfolding m using obj_text_ends [of ms] by auto
qed

lemma js_summaries_append:
  assumes "js_AppendBranchSummary i b s = (s', None)" "js_LoadBranchSummaries i s = Inl bs" "storable_summary b"
  shows "js_LoadBranchSummaries i s' = Inl (bs @ [norm_summary b])"
proof -
  let ?p = "summaries_path s i" and ?f = "read_file s (summaries_path s i)"
  let ?d = "ensureTrailingNewline ?f @ lines_text [marshal_summary b]"
  have nf: "js_fault s ?p = None" "s' = write_file ?p ?d s"
    using assms(1) by (auto simp: js_AppendBranchSummary_def Let_def lines_text_def split: option.splits)
  note r = summary_roundtrip [OF assms(3)]
  have old: "scan_ok ?f" "bs = List.map_filter unmarshal_summary (scan_lines ?f)"
    using assms(2) nf by (auto simp: js_LoadBranchSummaries_def read_file_def Let_def scan_ok_def scan_lines_def
        raw_lines_def List.map_filter_def split: option.splits if_splits)
  have "scan_ok ?d \<and> scan_lines ?d = scan_lines ?f @ [marshal_summary b]"
    using r assms(3) old(1) by (intro scan_append(2)) (simp_all add: storable_summary_def)
  then show ?thesis using nf r(1) old(2) by (simp add: js_LoadBranchSummaries_def Let_def List.map_filter_def)
qed

sublocale image_codec \<subseteq> jsonl: session_repo "js_Append enc_images" "js_Load dec_images" js_AppendBranchSummary
  js_LoadBranchSummaries okid "storable_message enc_images" norm_message storable_summary norm_summary
proof unfold_locales
  fix i ms s s' old
  assume "okid i" "js_Append enc_images i ms s = (s', None)" "js_Load dec_images i s = Inl old"
    "list_all (storable_message enc_images) ms"
  then show "js_Load dec_images i s' = Inl (old @ map norm_message ms)"
    using js_Append_Load okid_file_name by blast
next
  fix i j ms s s' e
  assume a: "okid i" "okid j" "js_Append enc_images i ms s = (s', e)"
  note w = js_Append_other [OF a(3)]
  show "js_LoadBranchSummaries j s' = js_LoadBranchSummaries j s"
    using w js_LoadBranchSummaries_other paths_differ(1) [OF a(1,2), of s] by metis
  assume "i \<noteq> j"
  then show "js_Load dec_images j s' = js_Load dec_images j s"
    using w js_Load_other paths_differ(2) [OF a(1,2), of s] by metis
next
  fix i j b s s' e
  assume a: "okid i" "okid j" "js_AppendBranchSummary i b s = (s', e)"
  then have "s' = s \<or> (\<exists>d. s' = write_file (summaries_path s i) d s)"
    by (auto simp: js_AppendBranchSummary_def Let_def split: option.splits)
  then show "js_Load dec_images j s' = js_Load dec_images j s"
    using js_Load_other paths_differ(1) [OF a(2,1), of s] by metis
next
  fix i b s s' bs
  assume "js_AppendBranchSummary i b s = (s', None)" "js_LoadBranchSummaries i s = Inl bs" "storable_summary b"
  then show "js_LoadBranchSummaries i s' = Inl (bs @ [norm_summary b])" by (rule js_summaries_append)
qed


section \<open>A codec for images\<close>

text \<open>
  The codec of Go's default encoding of a slice of structs with the two fields, as an instance of
  the interface.
\<close>

definition image_json :: "ImageContent \<Rightarrow> json" where
  "image_json i = JObj [(''Data'', JStr (b64_encode (img_Data i))), (''MimeType'', JStr (img_MimeType i))]"

fun image_of_json :: "json \<Rightarrow> ImageContent \<times> bool" where
  "image_of_json (JObj [(_, JStr d), (_, JStr m)]) =
     (case b64_decode d of
        Some b \<Rightarrow> (\<lparr>img_Data = b, img_MimeType = m\<rparr>, True)
      | None \<Rightarrow> (\<lparr>img_Data = [], img_MimeType = m\<rparr>, False))"
| "image_of_json _ = (\<lparr>img_Data = [], img_MimeType = []\<rparr>, False)"

definition plain_enc_images :: "ImageContent list \<Rightarrow> string" where
  "plain_enc_images ims = json_print (JArr (map image_json ims))"

definition plain_dec_images :: "ImageContent list decoder" where
  "plain_dec_images raw cur =
     (case json_unmarshal raw of
        Some (JArr vs) \<Rightarrow> (map (fst \<circ> image_of_json) vs, list_all (snd \<circ> image_of_json) vs)
      | Some JNull \<Rightarrow> ([], True)
      | _ \<Rightarrow> (cur, False))"

lemma print_no_newline:
  "wf_json v \<Longrightarrow> newline \<notin> set (json_print v)"
  "list_all wf_json vs \<Longrightarrow> newline \<notin> set (print_elems vs)"
  "list_all (\<lambda>m. valid_utf8 (fst m) \<and> wf_json (snd m)) ms \<Longrightarrow> newline \<notin> set (print_members ms)"
proof (induction v and vs and ms rule: json_print_print_elems_print_members.induct)
  case (3 l)
  then show ?case using parse_num_exact(2) [of l l "[]"] num_chars_no_quote [of l newline] by (auto simp: is_ws_def)
qed (auto simp: json_string_no_newline)

lemma images_wf: "list_all (\<lambda>i. valid_utf8 (img_MimeType i)) ims \<Longrightarrow> wf_json (JArr (map image_json ims))"
  by (auto simp: list_all_iff image_json_def b64_encode_valid valid_utf8_Cons_ascii)

interpretation plain_images: image_codec plain_enc_images plain_dec_images
proof
  fix ims :: "ImageContent list"
  assume "list_all (\<lambda>i. valid_utf8 (img_MimeType i)) ims"
  note wf = images_wf [OF this]
  show "\<exists>v. raw_value (plain_enc_images ims) v"
    unfolding plain_enc_images_def using raw_value_print [OF wf] by blast
  show "newline \<notin> set (plain_enc_images ims)"
    unfolding plain_enc_images_def by (rule print_no_newline(1) [OF wf])
  have "json_unmarshal (plain_enc_images ims) = Some (JArr (map image_json ims))"
    unfolding plain_enc_images_def by (rule unmarshal_print [OF wf])
  then show "plain_dec_images (plain_enc_images ims) [] = (ims, True)"
    by (simp add: plain_dec_images_def image_json_def b64_decode_encode list_all_iff comp_def map_idI)
qed

section \<open>Properties\<close>

context image_codec
begin

lemma append_load_laws:
  "okid i \<Longrightarrow> okid j \<Longrightarrow> i \<noteq> j \<Longrightarrow> js_Append enc_images i ms s = (s', None) \<Longrightarrow> js_Load dec_images i s = Inl old \<Longrightarrow>
     list_all (storable_message enc_images) ms \<Longrightarrow>
     js_Load dec_images i s' = Inl (old @ map norm_message ms) \<and> js_Load dec_images j s' = js_Load dec_images j s \<and>
     js_LoadBranchSummaries i s' = js_LoadBranchSummaries i s"
  using jsonl.load_append [of i ms s s' old] jsonl.load_append_other [of i j ms s s' None]
    jsonl.summaries_append [of i i ms s s' None] by blast

end

lemma base_name_Join: "file_name n \<Longrightarrow> base_name (filepath_Join [dir, n]) = n"
proof -
  assume f: "file_name n"
  have n: "n \<noteq> []" "CHR ''/'' \<notin> set n" using f by (auto simp: file_name_def)
  let ?es = "clean_elems (is_abs dir) (split_on CHR ''/'' dir)"
  have "\<forall>x \<in> set (?es @ [n]). CHR ''/'' \<notin> set x"
    using n clean_elems_subset split_on_no_sep by fastforce
  then have "split_on CHR ''/'' (strings_join (?es @ [n]) ''/'') = ?es @ [n]"
    by (intro split_on_join) auto
  then show ?thesis using n Join_dir_name [OF f, of dir]
    by (auto simp: base_name_def unclean_def split_on_single)
qed


definition witness_store :: JSONLSession where
  "witness_store = \<lparr>js_dir = ''/s'', js_files = [(''/s/a.jsonl'', \<lparr>f_data = ''oops'', f_mtime = ''t''\<rparr>)],
     js_faults = [], js_now = ''t'', js_rand = []\<rparr>"

lemma witness_facts:
  "snd (js_Append plain_enc_images ''a'' [NewText ''user'' ''hi''] witness_store) = None"
  "okid ''a''" "okid ''b''" "file_name ''a''" "js_path witness_store ''a'' = ''/s/a.jsonl''" "raw_lines ''oops'' = [''oops'']"
  "unmarshal_message plain_dec_images ''oops'' = None"
  "marshal_message plain_enc_images (NewText ''user'' ''hi'') = Some ''{\"Role\":\"user\",\"Type\":\"text\",\"Body\":\"hi\"}''"
  by code_simp+


text \<open>
  A message whose line is 64 KB or longer is written without an error, and from then on Load fails
  for its session: the scanner's default limit cuts the transcript off.
\<close>

theorem jsonl_long_line:
  assumes "js_Append enc i [m] s = (s', None)" "marshal_message enc m = Some l" "newline \<notin> set l"
    "MaxScanTokenSize \<le> length l"
  shows "js_Load dec i s' = Inr (wrap_err ''reading session file: '' token_too_long)"
proof -
  let ?p = "js_path s i" and ?f = "read_file s (js_path s i)"
  let ?d = "ensureTrailingNewline ?f @ l @ [newline]"
  have nf: "js_fault s ?p = None" "s' = write_file ?p ?d s"
    using assms(1,2) by (auto simp: js_Append_def Let_def split: option.splits)
  have "raw_lines ?d = raw_lines ?f @ [l]"
    using raw_lines_line [OF ensure_ends assms(3)] by (simp add: raw_lines_repair)
  then have "\<not> scan_ok ?d" using assms(4) by (simp add: scan_ok_def)
  then show ?thesis using nf by (simp add: js_Load_def Let_def)
qed

definition long_text :: string where
  "long_text = replicate MaxScanTokenSize CHR ''a''"

lemma runes_as: "concat (map esc_chunk (runes (replicate n CHR ''a''))) = replicate n CHR ''a''"
proof (induction n)
  case (Suc n)
  have "esc_chunk (97, ''a'') = ''a''" by code_simp
  with Suc show ?case by (simp add: runes_Cons_ascii)
qed simp

lemma compact_as: "compact_scan True (replicate n CHR ''a'' @ t) = replicate n CHR ''a'' @ compact_scan True t"
  by (induction n) (simp_all add: compact_scan.simps)

lemma marshal_long:
  "\<exists>l. marshal_message plain_enc_images (NewText ''user'' long_text) = Some l \<and> newline \<notin> set l \<and> MaxScanTokenSize \<le> length l"
proof -
  have s: "json_string long_text = dquote # long_text @ [dquote]"
    by (simp add: json_string_def long_text_def runes_as)
  have "json_valid (json_string long_text)"
    using raw_value_unmarshal [OF raw_value_string, of long_text] by (simp add: json_valid_def)
  then have "marshal_raw (Some (json_string long_text)) = Some (dquote # long_text @ [dquote])"
    by (simp add: marshal_raw_def json_compact_def s)
      (simp add: long_text_def compact_scan.simps compact_as)
  moreover have "m_Images (NewText ''user'' long_text) = []" by (simp add: NewText_def mk_message_def)
  ultimately obtain l where l: "marshal_message plain_enc_images (NewText ''user'' long_text) = Some l"
    "MaxScanTokenSize \<le> length l"
    by (simp add: marshal_message_def new_text_bodies obj_text_def long_text_def)
  then show ?thesis
    using plain_images.message_roundtrip(2) [OF l(1)] by (simp add: NewText_def mk_message_def)
qed

theorem jsonl_long_line_witness:
  "js_Load plain_dec_images ''a'' (fst (js_Append plain_enc_images ''a'' [NewText ''user'' long_text] witness_store))
     = Inr (wrap_err ''reading session file: '' token_too_long)"
proof -
  obtain l where l: "marshal_message plain_enc_images (NewText ''user'' long_text) = Some l" "newline \<notin> set l"
    "MaxScanTokenSize \<le> length l" using marshal_long by blast
  have "js_Append plain_enc_images ''a'' [NewText ''user'' long_text] witness_store
      = (fst (js_Append plain_enc_images ''a'' [NewText ''user'' long_text] witness_store), None)"
    using l(1) by (simp add: js_Append_def js_fault_def witness_store_def Let_def)
  then show ?thesis using jsonl_long_line l by blast
qed

text \<open>
  The ids List returns are file names: a stored session is listed under its id with the extension,
  an id whose transcript is empty, and not under its own id.
\<close>

theorem jsonl_list_names:
  assumes "okid i" "file_name i" "map_of (js_files s) (js_path s i) \<noteq> None" "js_fault s (js_dir s) = None"
    "map_of (js_files s) (filepath_Join [js_dir s, i]) = None" "map_of (js_files s) (js_path s (i @ ''.jsonl'')) = None"
  shows "\<exists>metas. js_List s = Inl metas \<and> i @ ''.jsonl'' \<in> sm_ID ` metas \<and> i \<notin> sm_ID ` metas \<and>
    js_Load dec (i @ ''.jsonl'') s = Inl []"
proof -
  let ?p = "js_path s i"
  obtain f where f: "(?p, f) \<in> set (js_files s)" using assms(3) map_of_SomeD by fastforce
  have b: "base_name ?p = i @ ''.jsonl''"
    unfolding js_path_def by (rule base_name_Join [OF okid_file_name [OF assms(1)]])
  then have "?p = filepath_Join [js_dir s, base_name ?p]" by (simp add: js_path_def)
  with f b have "i @ ''.jsonl'' \<in> sm_ID ` {\<lparr>sm_ID = base_name p, sm_CreatedAt = f_mtime f, sm_UpdatedAt = f_mtime f\<rparr> |p f.
      (p, f) \<in> set (js_files s) \<and> p = filepath_Join [js_dir s, base_name p]}" by force
  moreover have "p \<noteq> filepath_Join [js_dir s, i]" if "(p, f) \<in> set (js_files s)" for p f
    using that assms(5) by (force simp: map_of_eq_None_iff)
  moreover have "js_Load dec (i @ ''.jsonl'') s = Inl []" using assms(6) by (simp add: js_Load_def Let_def)
  ultimately show ?thesis using assms(4) by (auto simp: js_List_def image_iff)
qed

theorem jsonl_list_names_witness:
  "\<exists>metas. js_List witness_store = Inl metas \<and> ''a.jsonl'' \<in> sm_ID ` metas \<and> ''a'' \<notin> sm_ID ` metas \<and>
    js_Load plain_dec_images ''a.jsonl'' witness_store = Inl []"
proof -
  have "map_of (js_files witness_store) (js_path witness_store ''a'') \<noteq> None"
    "js_fault witness_store (js_dir witness_store) = None"
    "map_of (js_files witness_store) (filepath_Join [js_dir witness_store, ''a'']) = None"
    "map_of (js_files witness_store) (js_path witness_store (''a'' @ ''.jsonl'')) = None"
    by code_simp+
  then show ?thesis
    using jsonl_list_names [OF witness_facts(2,4), of witness_store plain_dec_images] by simp
qed

end
