(* ===== verification/Compaction.thy ===== *)
theory Compaction
  imports Session_Repo Go_Fmt "HOL-Library.Multiset"
begin

text \<open>
  The pure part of compaction (compact.go): the settings and their per-model overrides, the token
  estimate, the choice of the cut point, and the context built from a transcript and its summaries.
  A slice expression out of range is a panic, here \<open>None\<close>.
\<close>

section \<open>Model references (agent.go)\<close>

definition parseModelRef :: "string \<Rightarrow> (string \<times> string) + err" where
  "parseModelRef ref =
     (case strings_index ref ''/'' of
        Some (Suc i) \<Rightarrow> Inl (take (Suc i) ref, drop (Suc (Suc i)) ref)
      | _ \<Rightarrow> Inr (errorf_w (''model reference '' @ go_quote ref @ '' missing provider prefix'') ErrInvalidModelRef))"

lemma parseModelRef_Inl:
  assumes "parseModelRef ref = Inl (p, m)"
  shows "ref = p @ ''/'' @ m" "p \<noteq> []" "CHR ''/'' \<notin> set p"
proof -
  obtain i where i: "strings_index ref ''/'' = Some (Suc i)" "p = take (Suc i) ref" "m = drop (Suc (Suc i)) ref"
    using assms by (auto simp: parseModelRef_def split: option.splits nat.splits)
  have s: "Suc (Suc i) \<le> length ref" "take 1 (drop (Suc i) ref) = ''/''"
    using strings_index_Some [OF i(1)] by simp_all
  have sl: "ref ! Suc i = CHR ''/''"
    using s by (metis Cons_nth_drop_Suc Suc_le_lessD take_Suc_Cons One_nat_def list.inject)
  have "ref = take (Suc i) ref @ ref ! Suc i # drop (Suc (Suc i)) ref"
    by (rule id_take_nth_drop) (use s(1) in simp)
  then show "ref = p @ ''/'' @ m" using i sl by simp
  show "p \<noteq> []" using i s by (cases ref) auto
  have "ref ! j \<noteq> CHR ''/''" if "j < Suc i" for j
  proof -
    have "j < length ref" using that s(1) by simp
    then have "take 1 (drop j ref) = [ref ! j]" by (simp add: Cons_nth_drop_Suc [symmetric])
    then show ?thesis using strings_index_least [OF i(1) that] by auto
  qed
  then show "CHR ''/'' \<notin> set p" using i(2) s(1) by (auto simp: in_set_conv_nth)
qed

lemma parseModelRef_ok: "CHR ''/'' \<notin> set p \<Longrightarrow> p \<noteq> [] \<Longrightarrow> parseModelRef (p @ ''/'' @ m) = Inl (p, m)"
proof -
  assume p: "CHR ''/'' \<notin> set p" "p \<noteq> []"
  have "strings_index (p @ CHR ''/'' # m) ''/'' = Some (length p)"
    using p(1) by (induction p) auto
  then show ?thesis using p(2) by (cases "length p") (auto simp: parseModelRef_def)
qed

section \<open>Settings\<close>

record CompactionBudget =
  cb_ReserveTokens :: int
  cb_KeepRecentTokens :: int

record CompactionSettings =
  cs_Enabled :: bool
  cs_ReserveTokens :: int
  cs_KeepRecentTokens :: int
  cs_ModelOverrides :: "(string \<times> CompactionBudget) list"

definition find_override :: "(string \<times> CompactionBudget) list \<Rightarrow> string \<Rightarrow> CompactionBudget option" where
  "find_override ovs model =
     (case map_of ovs model of
        Some ov \<Rightarrow> Some ov
      | None \<Rightarrow> (case parseModelRef model of Inl (_, bare) \<Rightarrow> map_of ovs bare | Inr _ \<Rightarrow> None))"

definition ForModel :: "CompactionSettings \<Rightarrow> string \<Rightarrow> CompactionSettings" where
  "ForModel s model =
     (if cs_ModelOverrides s = [] \<or> model = [] then s
      else case find_override (cs_ModelOverrides s) model of
             None \<Rightarrow> s
           | Some ov \<Rightarrow>
               s\<lparr>cs_ReserveTokens := (if cb_ReserveTokens ov > 0 then cb_ReserveTokens ov else cs_ReserveTokens s),
                 cs_KeepRecentTokens := (if cb_KeepRecentTokens ov > 0 then cb_KeepRecentTokens ov else cs_KeepRecentTokens s)\<rparr>)"

definition DefaultCompactionSettings :: CompactionSettings where
  "DefaultCompactionSettings = \<lparr>cs_Enabled = True, cs_ReserveTokens = 16384, cs_KeepRecentTokens = 20000,
     cs_ModelOverrides = []\<rparr>"

definition ShouldCompact :: "int \<Rightarrow> int \<Rightarrow> CompactionSettings \<Rightarrow> bool" where
  "ShouldCompact contextTokens contextWindow settings =
     (if \<not> cs_Enabled settings \<or> contextWindow \<le> 0 then False
      else contextTokens > contextWindow - cs_ReserveTokens settings)"

section \<open>Token estimates\<close>

definition message_chars :: "Message \<Rightarrow> nat" where
  "message_chars m = length (body_bytes m) + length (m_Role m) + length (m_Type m) + 4800 * length (m_Images m)"

definition EstimateTokens :: "Message list \<Rightarrow> nat" where
  "EstimateTokens messages = (sum_list (map message_chars messages) + 3) div 4"

definition estimateMessageTokens :: "Message \<Rightarrow> nat" where
  "estimateMessageTokens m = (message_chars m + 3) div 4"

section \<open>The cut point\<close>

definition isValidCutPoint :: "Message \<Rightarrow> bool" where
  "isValidCutPoint m \<longleftrightarrow> \<not> (m_Type m = ''tool_result'' \<or> m_Type m = ''active_tools_change'')"

text \<open>The forward search of the inner loop, over the messages from \<open>j\<close> on.\<close>

fun first_valid :: "Message list \<Rightarrow> nat \<Rightarrow> nat option" where
  "first_valid [] j = None"
| "first_valid (m # ms) j = (if isValidCutPoint m then Some j else first_valid ms (Suc j))"

text \<open>The outer loop: \<open>n\<close> messages are still to be visited, from the newest of them down.\<close>

fun cut_walk :: "Message list \<Rightarrow> int \<Rightarrow> nat \<Rightarrow> nat \<Rightarrow> nat" where
  "cut_walk msgs keep 0 tokens = 0"
| "cut_walk msgs keep (Suc i) tokens =
     (let tokens' = tokens + estimateMessageTokens (msgs ! i) in
      if keep \<le> int tokens' then (case first_valid (drop i msgs) i of Some j \<Rightarrow> j | None \<Rightarrow> i)
      else cut_walk msgs keep i tokens')"

definition findCutPoint :: "Message list \<Rightarrow> int \<Rightarrow> nat" where
  "findCutPoint msgs keepRecentTokens = cut_walk msgs keepRecentTokens (length msgs) 0"

record compactionPrep =
  cp_cutIdx :: nat
  cp_prefix :: "Message list"
  cp_keptTail :: "Message list"

definition prepareCompaction :: "Message list \<Rightarrow> CompactionSettings \<Rightarrow> compactionPrep option" where
  "prepareCompaction msgs settings =
     (if msgs = [] then None
      else if m_Type (last msgs) = ''branch_summary'' then None
      else let cutIdx = findCutPoint msgs (cs_KeepRecentTokens settings) in
           if cutIdx = 0 then None
           else Some \<lparr>cp_cutIdx = cutIdx, cp_prefix = take cutIdx msgs, cp_keptTail = drop cutIdx msgs\<rparr>)"

section \<open>The context sent to the model\<close>

definition excludeBookkeeping :: "Message list \<Rightarrow> Message list" where
  "excludeBookkeeping msgs = filter (\<lambda>m. m_Type m \<noteq> ''active_tools_change'') msgs"

text \<open>The exchange sort of the code: \<open>sort_inner\<close> is the loop over \<open>j\<close> for one \<open>i\<close>.\<close>

definition swap :: "'a list \<Rightarrow> nat \<Rightarrow> nat \<Rightarrow> 'a list" where
  "swap xs i j = xs[i := xs ! j, j := xs ! i]"

definition sort_inner :: "nat \<Rightarrow> BranchSummary list \<Rightarrow> BranchSummary list" where
  "sort_inner i xs =
     fold (\<lambda>j ys. if bs_StartIdx (ys ! j) < bs_StartIdx (ys ! i) then swap ys i j else ys) [Suc i..<length xs] xs"

definition sort_summaries :: "BranchSummary list \<Rightarrow> BranchSummary list" where
  "sort_summaries xs = fold sort_inner [0..<length xs - 1] xs"

definition slice :: "'a list \<Rightarrow> int \<Rightarrow> int \<Rightarrow> 'a list option" where
  "slice xs a b =
     (if 0 \<le> a \<and> a \<le> b \<and> b \<le> int (length xs) then Some (take (nat (b - a)) (drop (nat a) xs)) else None)"

text \<open>
  The loop over the sorted summaries; the pair is \<open>out\<close> and \<open>lastEnd\<close>.
\<close>

fun apply_summaries :: "Message list \<Rightarrow> BranchSummary list \<Rightarrow> Message list \<Rightarrow> int \<Rightarrow> (Message list \<times> int) option" where
  "apply_summaries transcript [] out lastEnd = Some (out, lastEnd)"
| "apply_summaries transcript (s # ss) out lastEnd =
     (if bs_StartIdx s < lastEnd then apply_summaries transcript ss out lastEnd
      else
        case (if lastEnd < bs_StartIdx s \<and> bs_StartIdx s \<le> int (length transcript)
              then map_option (\<lambda>p. out @ p) (slice transcript lastEnd (bs_StartIdx s)) else Some out) of
          None \<Rightarrow> None
        | Some out' \<Rightarrow>
            apply_summaries transcript ss (out' @ [NewBranchSummaryMessage (bs_Summary s)]) (bs_EndIdx s))"

definition BuildLLMContext :: "Message list \<Rightarrow> BranchSummary list \<Rightarrow> Message list option" where
  "BuildLLMContext transcript summaries =
     (if summaries = [] then Some (excludeBookkeeping transcript)
      else case apply_summaries transcript (sort_summaries summaries) [] 0 of
             None \<Rightarrow> None
           | Some (out, lastEnd) \<Rightarrow>
               map_option excludeBookkeeping
                 (if lastEnd < int (length transcript)
                  then map_option (\<lambda>p. out @ p) (slice transcript lastEnd (int (length transcript)))
                  else Some out))"

section \<open>Lemmas on the cut point\<close>

definition tokens_of :: "Message list \<Rightarrow> nat" where
  "tokens_of msgs = sum_list (map estimateMessageTokens msgs)"

lemma first_valid_Some:
  "first_valid ms j = Some k \<Longrightarrow>
     j \<le> k \<and> k < j + length ms \<and> isValidCutPoint (ms ! (k - j)) \<and> (\<forall>l. j \<le> l \<and> l < k \<longrightarrow> \<not> isValidCutPoint (ms ! (l - j)))"
proof (induction ms j rule: first_valid.induct)
  case (2 m ms j)
  show ?case
  proof (cases "isValidCutPoint m")
    case False
    then have IH: "Suc j \<le> k" "k < Suc j + length ms" "isValidCutPoint (ms ! (k - Suc j))"
      "\<And>l. Suc j \<le> l \<Longrightarrow> l < k \<Longrightarrow> \<not> isValidCutPoint (ms ! (l - Suc j))"
      using 2 by auto
    have n: "(m # ms) ! (l - j) = ms ! (l - Suc j)" if "Suc j \<le> l" for l
      using that by (simp add: nth_Cons')
    have "\<not> isValidCutPoint ((m # ms) ! (l - j))" if "j \<le> l" "l < k" for l
      using that False IH(4) n by (cases "l = j") auto
    then show ?thesis using IH(1-3) n by auto
  qed (use 2 in auto)
qed simp

lemma first_valid_None: "first_valid ms j = None \<longleftrightarrow> (\<forall>m \<in> set ms. \<not> isValidCutPoint m)"
  by (induction ms j rule: first_valid.induct) auto

text \<open>
  \<open>cut_at msgs keep i c\<close>: the walk stopped at message \<open>i\<close>, where the tokens of the messages from
  there on first reach \<open>keep\<close>, and the cut was put at \<open>c\<close>.
\<close>

definition cut_at :: "Message list \<Rightarrow> int \<Rightarrow> nat \<Rightarrow> nat \<Rightarrow> bool" where
  "cut_at msgs keep i c \<longleftrightarrow> i \<le> c \<and> c < length msgs \<and>
     keep \<le> int (tokens_of (drop i msgs)) \<and> int (tokens_of (drop (Suc i) msgs)) < keep \<and>
     (\<forall>l. i \<le> l \<and> l < c \<longrightarrow> \<not> isValidCutPoint (msgs ! l)) \<and>
     (isValidCutPoint (msgs ! c) \<or> c = i \<and> (\<forall>m \<in> set (drop i msgs). \<not> isValidCutPoint m))"

lemma cut_walk_spec:
  "n \<le> length msgs \<Longrightarrow> tokens = tokens_of (drop n msgs) \<Longrightarrow> int tokens < keep \<Longrightarrow>
     (\<exists>i. cut_at msgs keep i (cut_walk msgs keep n tokens)) \<or>
     cut_walk msgs keep n tokens = 0 \<and> int (tokens_of msgs) < keep"
proof (induction n arbitrary: tokens)
  case (Suc i)
  have d: "drop i msgs = msgs ! i # drop (Suc i) msgs" using Suc.prems(1) by (simp add: Cons_nth_drop_Suc)
  define t' where "t' = tokens + estimateMessageTokens (msgs ! i)"
  have t': "t' = tokens_of (drop i msgs)" using Suc.prems(2) d by (simp add: t'_def tokens_of_def)
  show ?case
  proof (cases "keep \<le> int t'")
    case False
    then have "int t' < keep" by simp
    from Suc.IH [OF _ t' this] Suc.prems(1) False show ?thesis by (simp add: Let_def t'_def)
  next
    case True
    have cw: "cut_walk msgs keep (Suc i) tokens = (case first_valid (drop i msgs) i of Some j \<Rightarrow> j | None \<Rightarrow> i)"
      using True by (simp add: Let_def t'_def)
    have sums: "keep \<le> int (tokens_of (drop i msgs))" "int (tokens_of (drop (Suc i) msgs)) < keep"
      using True t' Suc.prems by simp_all
    have "cut_at msgs keep i (cut_walk msgs keep (Suc i) tokens)"
    proof (cases "first_valid (drop i msgs) i")
      case None
      then have "\<forall>m \<in> set (drop i msgs). \<not> isValidCutPoint m" by (simp only: first_valid_None)
      then show ?thesis unfolding cw None option.case using sums Suc.prems(1) by (auto simp: cut_at_def)
    next
      case (Some k)
      have nth: "drop i msgs ! (l - i) = msgs ! l" if "i \<le> l" for l
        using that Suc.prems(1) by simp
      show ?thesis unfolding cw Some option.case
        using sums Suc.prems(1) first_valid_Some [OF Some] nth by (auto simp: cut_at_def)
    qed
    then show ?thesis by blast
  qed
qed (simp add: tokens_of_def)

lemma findCutPoint_spec:
  "0 < keep \<Longrightarrow> (\<exists>i. cut_at msgs keep i (findCutPoint msgs keep)) \<or>
     findCutPoint msgs keep = 0 \<and> int (tokens_of msgs) < keep"
  using cut_walk_spec [of "length msgs" msgs 0 keep] by (simp add: findCutPoint_def tokens_of_def)

lemma prepareCompaction_Some:
  assumes "prepareCompaction msgs st = Some p"
  shows "cp_prefix p @ cp_keptTail p = msgs" "cp_cutIdx p = findCutPoint msgs (cs_KeepRecentTokens st)"
    "0 < cp_cutIdx p" "cp_prefix p = take (cp_cutIdx p) msgs" "cp_keptTail p = drop (cp_cutIdx p) msgs"
  using assms by (auto simp: prepareCompaction_def Let_def split: if_splits)

section \<open>Lemmas on the sort\<close>

lemma length_swap [simp]: "length (swap xs i j) = length xs"
  by (simp add: swap_def)

lemma mset_swap': "i < length xs \<Longrightarrow> j < length xs \<Longrightarrow> mset (swap xs i j) = mset xs"
  unfolding swap_def by (rule mset_swap)

lemma nth_swap:
  "i < length xs \<Longrightarrow> j < length xs \<Longrightarrow>
     swap xs i j ! k = (if k = j then xs ! i else if k = i then xs ! j else xs ! k)"
  by (simp add: swap_def nth_list_update)

definition inner_step :: "nat \<Rightarrow> nat \<Rightarrow> BranchSummary list \<Rightarrow> BranchSummary list" where
  "inner_step i j ys = (if bs_StartIdx (ys ! j) < bs_StartIdx (ys ! i) then swap ys i j else ys)"

lemma inner_invariant:
  assumes "i < length xs"
  shows "m \<le> length xs \<Longrightarrow> Suc i \<le> m \<Longrightarrow>
    (let ys = fold (inner_step i) [Suc i..<m] xs in
       length ys = length xs \<and> mset ys = mset xs \<and> take i ys = take i xs \<and>
       (\<forall>k. i < k \<and> k < m \<longrightarrow> bs_StartIdx (ys ! i) \<le> bs_StartIdx (ys ! k)))"
proof (induction m)
  case (Suc m)
  show ?case
  proof (cases "Suc i \<le> m")
    case False
    then have "[Suc i..<Suc m] = []" "\<not> (\<exists>k. i < k \<and> k < Suc m)" using Suc.prems by auto
    then show ?thesis by (auto simp: Let_def)
  next
    case True
    define ys where "ys = fold (inner_step i) [Suc i..<m] xs"
    have IH: "length ys = length xs" "mset ys = mset xs" "take i ys = take i xs"
      "\<And>k. i < k \<Longrightarrow> k < m \<Longrightarrow> bs_StartIdx (ys ! i) \<le> bs_StartIdx (ys ! k)"
      using Suc.IH Suc.prems True by (auto simp: ys_def Let_def)
    have f: "fold (inner_step i) [Suc i..<Suc m] xs = inner_step i m ys"
      using True by (simp add: ys_def)
    have ij: "i < length ys" "m < length ys" using assms Suc.prems IH(1) by auto
    have tk: "take i (swap ys i m) = take i ys"
      using True by (simp add: swap_def)
    have le: "bs_StartIdx (inner_step i m ys ! i) \<le> bs_StartIdx (inner_step i m ys ! k)" if k: "i < k" "k < Suc m" for k
    proof (cases "bs_StartIdx (ys ! m) < bs_StartIdx (ys ! i)")
      case lt: True
      then show ?thesis
        using IH(4) [of k] k True ij by (cases "k = m") (auto simp: inner_step_def nth_swap)
    next
      case False
      then show ?thesis using IH(4) [of k] k by (cases "k = m") (auto simp: inner_step_def)
    qed
    show ?thesis unfolding f Let_def
      using le IH(1-3) tk mset_swap' [OF ij] by (auto simp: inner_step_def)
  qed
qed simp

lemma sort_inner_props:
  assumes "i < length xs"
  shows "length (sort_inner i xs) = length xs" "mset (sort_inner i xs) = mset xs" "take i (sort_inner i xs) = take i xs"
    "i < k \<Longrightarrow> k < length xs \<Longrightarrow> bs_StartIdx (sort_inner i xs ! i) \<le> bs_StartIdx (sort_inner i xs ! k)"
proof -
  have e: "sort_inner i xs = fold (inner_step i) [Suc i..<length xs] xs"
    unfolding sort_inner_def inner_step_def ..
  show "length (sort_inner i xs) = length xs" "mset (sort_inner i xs) = mset xs" "take i (sort_inner i xs) = take i xs"
    "i < k \<Longrightarrow> k < length xs \<Longrightarrow> bs_StartIdx (sort_inner i xs ! i) \<le> bs_StartIdx (sort_inner i xs ! k)"
    using inner_invariant [OF assms, of "length xs"] assms by (auto simp: e Let_def)
qed

lemma sort_outer:
  "m \<le> length xs \<Longrightarrow>
    (let ys = fold sort_inner [0..<m] xs in
       length ys = length xs \<and> mset ys = mset xs \<and>
       (\<forall>a b. a < m \<and> a < b \<and> b < length xs \<longrightarrow> bs_StartIdx (ys ! a) \<le> bs_StartIdx (ys ! b)))"
proof (induction m)
  case (Suc m)
  define ys where "ys = fold sort_inner [0..<m] xs"
  define zs where "zs = sort_inner m ys"
  have IH: "length ys = length xs" "mset ys = mset xs"
    "\<And>a b. a < m \<Longrightarrow> a < b \<Longrightarrow> b < length xs \<Longrightarrow> bs_StartIdx (ys ! a) \<le> bs_StartIdx (ys ! b)"
    using Suc by (auto simp: ys_def Let_def)
  have m: "m < length ys" using Suc.prems IH(1) by simp
  note z = sort_inner_props [OF m, folded zs_def]
  have dset: "set (drop m zs) = set (drop m ys)"
  proof -
    have "mset (take m zs) + mset (drop m zs) = mset (take m ys) + mset (drop m ys)"
      using z(2) by (simp add: mset_append [symmetric] del: mset_append)
    then have "mset (drop m zs) = mset (drop m ys)" using z(3) by simp
    then show ?thesis by (rule mset_eq_setD)
  qed
  have "bs_StartIdx (zs ! a) \<le> bs_StartIdx (zs ! b)" if ab: "a < Suc m" "a < b" "b < length xs" for a b
  proof (cases "a = m")
    case True
    then show ?thesis using z(4) ab IH(1) by simp
  next
    case False
    then have am: "a < m" using ab by simp
    then have za: "zs ! a = ys ! a" using z(3) by (metis nth_take)
    show ?thesis
    proof (cases "b < m")
      case True
      then have "zs ! b = ys ! b" using z(3) by (metis nth_take)
      then show ?thesis using za IH(3) am ab by simp
    next
      case False
      then have "zs ! b \<in> set (drop m zs)" using ab z(1) IH(1)
        by (auto simp: in_set_conv_nth intro!: exI [of _ "b - m"])
      then obtain c where "c < length ys - m" "zs ! b = ys ! (m + c)"
        unfolding dset by (auto simp: in_set_conv_nth)
      then show ?thesis using za IH(1,3) am by auto
    qed
  qed
  then show ?case using z(1,2) IH(1,2) by (auto simp: ys_def zs_def Let_def)
qed simp

theorem sort_summaries_sorted:
  "mset (sort_summaries xs) = mset xs" "sorted (map bs_StartIdx (sort_summaries xs))"
proof -
  have o: "length (sort_summaries xs) = length xs" "mset (sort_summaries xs) = mset xs"
    "\<And>a b. a < length xs - 1 \<Longrightarrow> a < b \<Longrightarrow> b < length xs \<Longrightarrow>
       bs_StartIdx (sort_summaries xs ! a) \<le> bs_StartIdx (sort_summaries xs ! b)"
    using sort_outer [of "length xs - 1" xs] by (auto simp: sort_summaries_def Let_def)
  show "mset (sort_summaries xs) = mset xs" by (rule o(2))
  show "sorted (map bs_StartIdx (sort_summaries xs))"
    using o(1,3) by (auto simp: sorted_iff_nth_mono_less)
qed

text \<open>On a list that is already sorted, the sort changes nothing.\<close>

lemma sort_inner_id:
  assumes "\<forall>j. i < j \<and> j < length xs \<longrightarrow> bs_StartIdx (xs ! i) \<le> bs_StartIdx (xs ! j)"
  shows "sort_inner i xs = xs"
proof -
  have "m \<le> length xs \<Longrightarrow> fold (inner_step i) [Suc i..<m] xs = xs" for m
  proof (induction m)
    case (Suc m)
    then have "Suc i \<le> m \<Longrightarrow> \<not> bs_StartIdx (xs ! m) < bs_StartIdx (xs ! i)" using assms by (simp add: not_less)
    then show ?case using Suc by (cases "Suc i \<le> m") (simp_all add: inner_step_def)
  qed simp
  from this [of "length xs"] show ?thesis unfolding sort_inner_def inner_step_def by simp
qed

lemma sort_summaries_id:
  assumes "sorted (map bs_StartIdx xs)"
  shows "sort_summaries xs = xs"
proof -
  have "fold sort_inner [0..<m] xs = xs" if "m \<le> length xs" for m
    using that
  proof (induction m)
    case (Suc m)
    have "sort_inner m xs = xs"
      using assms by (intro sort_inner_id) (auto simp: sorted_iff_nth_mono_less)
    with Suc show ?case by simp
  qed simp
  then show ?thesis by (simp add: sort_summaries_def)
qed


section \<open>Lemmas on the built context\<close>

text \<open>
  The reference: the transcript from \<open>pos\<close> on with each range replaced by its summary, for ranges
  that follow one another (\<open>chain\<close>).
\<close>

fun splice :: "Message list \<Rightarrow> nat \<Rightarrow> BranchSummary list \<Rightarrow> Message list" where
  "splice tr pos [] = drop pos tr"
| "splice tr pos (s # ss) =
     take (nat (bs_StartIdx s) - pos) (drop pos tr) @ NewBranchSummaryMessage (bs_Summary s) # splice tr (nat (bs_EndIdx s)) ss"

fun chain :: "nat \<Rightarrow> int \<Rightarrow> BranchSummary list \<Rightarrow> bool" where
  "chain n pos [] = True"
| "chain n pos (s # ss) \<longleftrightarrow> pos \<le> bs_StartIdx s \<and> bs_StartIdx s < bs_EndIdx s \<and> bs_EndIdx s \<le> int n \<and> chain n (bs_EndIdx s) ss"

lemma slice_nat: "0 \<le> a \<Longrightarrow> a \<le> b \<Longrightarrow> b \<le> int (length xs) \<Longrightarrow> slice xs a b = Some (take (nat b - nat a) (drop (nat a) xs))"
  by (simp add: slice_def nat_diff_distrib)

lemma apply_summaries_chain:
  "chain (length tr) pos ss \<Longrightarrow> 0 \<le> pos \<Longrightarrow> pos \<le> int (length tr) \<Longrightarrow>
     \<exists>o' e. apply_summaries tr ss out pos = Some (o', e) \<and> 0 \<le> e \<and> e \<le> int (length tr) \<and>
       o' @ drop (nat e) tr = out @ splice tr (nat pos) ss"
proof (induction ss arbitrary: out pos)
  case (Cons s ss)
  let ?p = "take (nat (bs_StartIdx s) - nat pos) (drop (nat pos) tr)"
  have c: "pos \<le> bs_StartIdx s" "bs_StartIdx s < bs_EndIdx s" "bs_EndIdx s \<le> int (length tr)" "chain (length tr) (bs_EndIdx s) ss"
    using Cons.prems(1) by simp_all
  have "(if pos < bs_StartIdx s \<and> bs_StartIdx s \<le> int (length tr)
      then map_option (\<lambda>p. out @ p) (slice tr pos (bs_StartIdx s)) else Some out) = Some (out @ ?p)"
    using c Cons.prems(2) slice_nat [of pos "bs_StartIdx s" tr] by auto
  then have "apply_summaries tr (s # ss) out pos
      = apply_summaries tr ss ((out @ ?p) @ [NewBranchSummaryMessage (bs_Summary s)]) (bs_EndIdx s)"
    using c by simp
  then show ?case
    using Cons.IH [OF c(4), of "(out @ ?p) @ [NewBranchSummaryMessage (bs_Summary s)]"] c Cons.prems(2) by simp
qed simp

lemma chain_sorted: "chain n pos ss \<Longrightarrow> sorted_wrt (<) (map bs_StartIdx ss) \<and> (\<forall>s \<in> set ss. pos \<le> bs_StartIdx s)"
  by (induction ss arbitrary: pos) fastforce+

lemma BuildLLMContext_chain:
  assumes "chain (length tr) 0 ss" "mset ss' = mset ss"
  shows "BuildLLMContext tr ss' = Some (excludeBookkeeping (splice tr 0 ss))"
proof (cases "ss = []")
  case True
  then show ?thesis using assms(2) by (simp add: BuildLLMContext_def)
next
  case False
  have st: "sorted_wrt (<) (map bs_StartIdx ss)" using chain_sorted [OF assms(1)] by simp
  then have s: "sorted (map bs_StartIdx ss)" "distinct (map bs_StartIdx ss)"
    by (simp_all add: strict_sorted_iff)
  have "sort_key bs_StartIdx (sort_summaries ss') = ss"
    using s sort_summaries_sorted(1) [of ss'] assms(2)
    by (intro sort_key_inj_key_eq) (simp_all add: distinct_map flip: set_mset_mset)
  moreover have "sort_key bs_StartIdx (sort_summaries ss') = sort_summaries ss'"
    using sort_summaries_sorted(2) by (rule sort_key_id_if_sorted)
  ultimately have e: "sort_summaries ss' = ss" by simp
  obtain o' e' where a: "apply_summaries tr ss [] 0 = Some (o', e')" "0 \<le> e'" "e' \<le> int (length tr)"
    "o' @ drop (nat e') tr = splice tr 0 ss" using apply_summaries_chain [OF assms(1), of "[]"] by auto
  have "ss' \<noteq> []" using False assms(2) by auto
  moreover have "slice tr e' (int (length tr)) = Some (drop (nat e') tr)" using a(2,3) by (simp add: slice_nat)
  ultimately show ?thesis using a by (auto simp: BuildLLMContext_def e)
qed

lemma apply_summaries_overlapping:
  "\<forall>s \<in> set ss. bs_StartIdx s < pos \<Longrightarrow> apply_summaries tr ss out pos = Some (out, pos)"
  by (induction ss) auto

lemma BuildLLMContext_first_wins:
  assumes "\<forall>s \<in> set (s1 # later). bs_StartIdx s = 0" "0 < bs_EndIdx s1"
  shows "BuildLLMContext tr (s1 # later) = BuildLLMContext tr [s1]"
proof -
  have "sorted (map bs_StartIdx (s1 # later))" "sorted (map bs_StartIdx [s1])"
    using assms(1) by (auto simp: sorted_iff_nth_mono_less in_set_conv_nth nth_Cons' all_set_conv_all_nth)
  then have e: "sort_summaries (s1 # later) = s1 # later" "sort_summaries [s1] = [s1]" by (simp_all only: sort_summaries_id)
  have "apply_summaries tr later out (bs_EndIdx s1) = Some (out, bs_EndIdx s1)" for out
    using assms by (intro apply_summaries_overlapping) auto
  then show ?thesis using assms by (simp add: BuildLLMContext_def e)
qed

lemma BuildLLMContext_no_bookkeeping:
  "BuildLLMContext tr ss = Some out \<Longrightarrow> m \<in> set out \<Longrightarrow> m_Type m \<noteq> ''active_tools_change''"
  by (auto simp: BuildLLMContext_def excludeBookkeeping_def split: if_splits option.splits)

section \<open>Properties\<close>



text \<open>
  Summaries that all start at index 0, as Compact writes them: the first one stored decides the
  context, and the later ones, which cover more of the transcript, change nothing.
\<close>

theorem second_compaction_ignored:
  assumes "\<forall>s \<in> set (s1 # later). bs_StartIdx s = 0" "0 < bs_EndIdx s1"
  shows "BuildLLMContext tr (s1 # later) = BuildLLMContext tr [s1]"
  by (rule BuildLLMContext_first_wins [OF assms])

definition summary_at :: "int \<Rightarrow> int \<Rightarrow> string \<Rightarrow> BranchSummary" where
  "summary_at a b t = \<lparr>bs_StartIdx = a, bs_EndIdx = b, bs_Summary = t, bs_CreatedAt = [], bs_Usage = None\<rparr>"

text \<open>
  The sort of the summaries orders them by start and keeps them all, but it is not stable: two
  summaries with the same start can change places.
\<close>

theorem summary_sort_not_stable:
  "mset (sort_summaries xs) = mset xs \<and> sorted (map bs_StartIdx (sort_summaries xs)) \<and>
   sort_summaries [summary_at 2 3 ''a'', summary_at 2 4 ''b'', summary_at 1 2 ''c'']
     = [summary_at 1 2 ''c'', summary_at 2 4 ''b'', summary_at 2 3 ''a'']"
proof -
  have "sort_summaries [summary_at 2 3 ''a'', summary_at 2 4 ''b'', summary_at 1 2 ''c'']
     = [summary_at 1 2 ''c'', summary_at 2 4 ''b'', summary_at 2 3 ''a'']"
    by code_simp
  then show ?thesis using sort_summaries_sorted by blast
qed



theorem second_compaction_ignored_witness:
  "BuildLLMContext [NewText ''user'' ''a'', NewText ''user'' ''b'', NewText ''user'' ''c''] [summary_at 0 1 ''s'', summary_at 0 2 ''t'']
     = BuildLLMContext [NewText ''user'' ''a'', NewText ''user'' ''b'', NewText ''user'' ''c''] [summary_at 0 1 ''s'']"
  by (rule second_compaction_ignored) (simp_all add: summary_at_def)

end
