(* ===== verification/Llm_Convert.thy ===== *)
theory Llm_Convert
  imports Tools Compaction
begin

text \<open>
  From the transcript to the messages of a provider request: \<open>DefaultConvertToLLM\<close> (agent.go) and the
  skill index put into the system prompt (skill.go). The message and content types of the provider
  package are modelled by the fields the code sets.
\<close>

datatype Content =
    TextContent string "string option"
  | ToolCallContent string string "string option" "string option"
  | ToolResultContent string string string "string option" bool "ImageContent list"
  | ThinkingContent string "string option"
  | ImagePart ImageContent

record llm_Message =
  l_Role :: string
  l_Content :: Content

definition llm_msg :: "string \<Rightarrow> Content \<Rightarrow> llm_Message" where
  "llm_msg role c = \<lparr>l_Role = role, l_Content = c\<rparr>"

section \<open>DefaultConvertToLLM\<close>

definition convert_content :: "Message \<Rightarrow> llm_Message list" where
  "convert_content m =
     (if m_Type m = ''text'' then [llm_msg (m_Role m) (TextContent (msg_Text m) (msg_TextThoughtSignature m))]
      else if m_Type m = ''tool_call'' then
        (case msg_ToolCall m of
           Some c \<Rightarrow> [llm_msg ''assistant''
                        (ToolCallContent (tc_CallID c) (tc_ToolName c) (tc_Args c) (msg_ToolCallThoughtSignature m))]
         | None \<Rightarrow> [])
      else if m_Type m = ''tool_result'' then
        (case msg_ToolResult m of
           Some r \<Rightarrow> [llm_msg ''tool''
                        (ToolResultContent (rf_CallID r) (rf_ToolName r) (rf_Content r) (rf_Data r) (rf_IsError r) (m_Images m))]
         | None \<Rightarrow> [])
      else if m_Type m = ''thinking'' then
        [llm_msg (m_Role m) (ThinkingContent (msg_ThinkingText m) (msg_ThinkingThoughtSignature m))]
      else if m_Type m = ''branch_summary'' then
        [llm_msg (m_Role m) (TextContent (''<summary>'' @ msg_Text m @ ''</summary>'') None)]
      else if m_Type m = ''active_tools_change'' then []
      else [llm_msg (m_Role m) (TextContent (body_bytes m) None)])"

definition convert_images :: "Message \<Rightarrow> llm_Message list" where
  "convert_images m =
     (if m_Type m \<noteq> ''tool_result'' then map (\<lambda>im. llm_msg (m_Role m) (ImagePart im)) (m_Images m) else [])"

definition DefaultConvertToLLM :: "Message list \<Rightarrow> llm_Message list" where
  "DefaultConvertToLLM messages = concat (map (\<lambda>m. convert_content m @ convert_images m) messages)"

section \<open>Skills\<close>

record Skill =
  sk_Name :: string
  sk_Description :: string
  sk_Content :: string
  sk_FilePath :: string
  sk_DisableModelInvocation :: bool

definition escape_byte :: "char \<Rightarrow> string" where
  "escape_byte c =
     (if c = CHR ''&'' then ''&amp;'' else if c = CHR ''<'' then ''&lt;'' else if c = CHR ''>'' then ''&gt;''
      else if c = dquote then ''&quot;'' else if c = CHR 0x27 then ''&apos;'' else [c])"

definition escapeXML :: "string \<Rightarrow> string" where
  "escapeXML s = concat (map escape_byte s)"

definition skills_header :: string where
  "skills_header =
     ''The following skills provide specialized instructions for specific tasks.'' @ [newline] @
     ''Read the full skill file when the task matches its description.'' @ [newline] @
     ''When a skill file references a relative path, resolve it against the skill directory (parent of SKILL.md / dirname of the path) and use that absolute path in tool commands.'' @
     [newline, newline] @ ''<available_skills>''"

definition skill_entry :: "Skill \<Rightarrow> string" where
  "skill_entry s =
     [newline] @ ''  <skill>'' @
     [newline] @ ''    <name>'' @ escapeXML (sk_Name s) @ ''</name>'' @
     [newline] @ ''    <description>'' @ escapeXML (sk_Description s) @ ''</description>'' @
     [newline] @ ''    <location>'' @ escapeXML (sk_FilePath s) @ ''</location>'' @
     [newline] @ ''  </skill>''"

text \<open>The loop, with the builder and the count of visible skills.\<close>

fun format_skills :: "Skill list \<Rightarrow> string \<Rightarrow> nat \<Rightarrow> string \<times> nat" where
  "format_skills [] b visible = (b, visible)"
| "format_skills (s # ss) b visible =
     (if sk_DisableModelInvocation s then format_skills ss b visible
      else format_skills ss ((if visible = 0 then b @ skills_header else b) @ skill_entry s) (Suc visible))"

definition formatSkillsForSystemPrompt :: "Skill list \<Rightarrow> string" where
  "formatSkillsForSystemPrompt skills =
     (case format_skills skills [] 0 of
        (b, visible) \<Rightarrow> if visible = 0 then [] else b @ [newline] @ ''</available_skills>'')"

fun append_index :: "string \<Rightarrow> llm_Message list \<Rightarrow> llm_Message list option" where
  "append_index index [] = None"
| "append_index index (m # ms) =
     (if l_Role m = ''system'' then
        (case l_Content m of
           TextContent t _ \<Rightarrow>
             Some (m\<lparr>l_Content := TextContent (if t = [] then index else t @ [newline, newline] @ index) None\<rparr> # ms)
         | _ \<Rightarrow> map_option (Cons m) (append_index index ms))
      else map_option (Cons m) (append_index index ms))"

definition applySkillsToSystemPrompt :: "llm_Message list \<Rightarrow> Skill list \<Rightarrow> llm_Message list" where
  "applySkillsToSystemPrompt msgs skills =
     (let index = formatSkillsForSystemPrompt skills in
      if index = [] then msgs
      else case append_index index msgs of
             Some msgs' \<Rightarrow> msgs'
           | None \<Rightarrow> llm_msg ''system'' (TextContent index None) # msgs)"

section \<open>Lemmas\<close>

lemma convert_Nil [simp]: "DefaultConvertToLLM [] = []"
  by (simp add: DefaultConvertToLLM_def)

lemma convert_append [simp]: "DefaultConvertToLLM (a @ b) = DefaultConvertToLLM a @ DefaultConvertToLLM b"
  by (simp add: DefaultConvertToLLM_def)

lemma convert_Cons: "DefaultConvertToLLM (m # ms) = convert_content m @ convert_images m @ DefaultConvertToLLM ms"
  by (simp add: DefaultConvertToLLM_def)

lemma convert_text:
  "DefaultConvertToLLM [NewTextWithSignature role s g]
     = [llm_msg role (TextContent (to_valid s) (if g = [] then None else Some g))]"
proof -
  have t: "m_Type (NewTextWithSignature role s g) = ''text''" "m_Images (NewTextWithSignature role s g) = []"
    "m_Role (NewTextWithSignature role s g) = role"
    by (simp_all add: NewTextWithSignature_def NewText_def mk_message_def)
  then show ?thesis using text_roundtrip [of role s g]
    by (simp add: convert_Cons convert_content_def convert_images_def)
qed

lemma convert_tool_call:
  "marshal_raw a = Some c \<Longrightarrow>
   DefaultConvertToLLM [NewToolCallWithSignature role i n a g]
     = [llm_msg ''assistant'' (ToolCallContent (to_valid i) (to_valid n) (Some c) (if g = [] then None else Some g))]"
proof -
  assume a: "marshal_raw a = Some c"
  have t: "m_Type (NewToolCallWithSignature role i n a g) = ''tool_call''" "m_Images (NewToolCallWithSignature role i n a g) = []"
    by (simp_all add: NewToolCallWithSignature_def NewToolCall_def mk_message_def)
  then show ?thesis using tool_call_roundtrip [where a = a and r = role and i = i and n = n and g = g] a
    by (simp add: convert_Cons convert_content_def convert_images_def call_fields_def)
qed

lemma convert_tool_call_invalid:
  "marshal_raw a = None \<Longrightarrow> DefaultConvertToLLM [NewToolCallWithSignature role i n a g] = []"
proof -
  assume a: "marshal_raw a = None"
  have t: "m_Type (NewToolCallWithSignature role i n a g) = ''tool_call''" "m_Images (NewToolCallWithSignature role i n a g) = []"
    by (simp_all add: NewToolCallWithSignature_def NewToolCall_def mk_message_def)
  then show ?thesis using tool_call_roundtrip [where a = a and r = role and i = i and n = n and g = g] a
    by (simp add: convert_Cons convert_content_def convert_images_def)
qed

lemma convert_tool_result:
  "marshal_raw (tr_Data res) = Some c \<Longrightarrow>
   DefaultConvertToLLM [NewToolResultMsg i n res]
     = [llm_msg ''tool'' (ToolResultContent (to_valid i) (to_valid n) (to_valid (tr_Content res)) (Some c)
          (tr_IsError res) (tr_Images res))]"
proof -
  assume a: "marshal_raw (tr_Data res) = Some c"
  have t: "m_Type (NewToolResultMsg i n res) = ''tool_result''"
    by (simp add: NewToolResultMsg_def mk_message_def)
  then show ?thesis using tool_result_roundtrip [OF a, of i n]
    by (simp add: convert_Cons convert_content_def convert_images_def)
qed

lemma convert_bookkeeping:
  "m_Type m = ''active_tools_change'' \<Longrightarrow> m_Images m = [] \<Longrightarrow> DefaultConvertToLLM [m] = []"
  by (simp add: convert_Cons convert_content_def convert_images_def)

lemma escapeXML_Cons: "escapeXML (c # s) = escape_byte c @ escapeXML s"
  by (simp add: escapeXML_def)

lemma escapeXML_chars: "CHR ''<'' \<notin> set (escapeXML s) \<and> CHR ''>'' \<notin> set (escapeXML s) \<and> dquote \<notin> set (escapeXML s)"
  by (induction s) (auto simp: escapeXML_Cons escape_byte_def, simp_all add: escapeXML_def)

lemma escapeXML_inj: "escapeXML s = escapeXML t \<Longrightarrow> s = t"
proof (induction s arbitrary: t)
  case Nil
  then show ?case by (cases t) (auto simp: escapeXML_Cons escape_byte_def escapeXML_def [of "[]"] split: if_splits)
next
  case (Cons c s)
  then obtain d u where t: "t = d # u"
    by (cases t) (auto simp: escapeXML_Cons escape_byte_def escapeXML_def [of "[]"] split: if_splits)
  have "c = d \<and> escapeXML s = escapeXML u"
    using Cons.prems t by (auto simp: escapeXML_Cons escape_byte_def split: if_splits)
  then show ?case using Cons.IH t by blast
qed

definition visible_skills :: "Skill list \<Rightarrow> Skill list" where
  "visible_skills skills = filter (\<lambda>s. \<not> sk_DisableModelInvocation s) skills"

lemma format_skills_more:
  "0 < v \<Longrightarrow> format_skills ss b v = (b @ concat (map skill_entry (visible_skills ss)), v + length (visible_skills ss))"
  by (induction ss arbitrary: b v) (auto simp: visible_skills_def)

lemma format_skills_first:
  "format_skills ss [] 0 =
     (if visible_skills ss = [] then ([], 0)
      else (skills_header @ concat (map skill_entry (visible_skills ss)), length (visible_skills ss)))"
  by (induction ss) (auto simp: visible_skills_def format_skills_more)

lemma formatSkills_iff:
  "formatSkillsForSystemPrompt skills =
     (if visible_skills skills = [] then []
      else skills_header @ concat (map skill_entry (visible_skills skills)) @ [newline] @ ''</available_skills>'')"
  by (simp add: formatSkillsForSystemPrompt_def format_skills_first)

definition is_system_text :: "llm_Message \<Rightarrow> bool" where
  "is_system_text m \<longleftrightarrow> l_Role m = ''system'' \<and> (\<exists>t g. l_Content m = TextContent t g)"

lemma append_index_None: "append_index index ms = None \<longleftrightarrow> (\<forall>m \<in> set ms. \<not> is_system_text m)"
  by (induction ms) (auto simp: is_system_text_def split: Content.splits)

lemma append_index_Some:
  "append_index index ms = Some ms' \<Longrightarrow>
     \<exists>pre m post t g. ms = pre @ m # post \<and> (\<forall>p \<in> set pre. \<not> is_system_text p) \<and> l_Role m = ''system'' \<and>
       l_Content m = TextContent t g \<and>
       ms' = pre @ m\<lparr>l_Content := TextContent (if t = [] then index else t @ [newline, newline] @ index) None\<rparr> # post"
proof (induction ms arbitrary: ms')
  case (Cons m ms)
  show ?case
  proof (cases "is_system_text m")
    case True
    then obtain t g where tg: "l_Role m = ''system''" "l_Content m = TextContent t g"
      by (auto simp: is_system_text_def)
    then show ?thesis using Cons.prems
      by (intro exI [of _ "[]"] exI [of _ m] exI [of _ ms] exI [of _ t] exI [of _ g]) simp
  next
    case False
    then obtain ms'' where "append_index index ms = Some ms''" "ms' = m # ms''"
      using Cons.prems by (auto simp: is_system_text_def split: if_splits Content.splits)
    then obtain pre n post t g where "ms = pre @ n # post" "\<forall>p \<in> set pre. \<not> is_system_text p"
      "l_Role n = ''system''" "l_Content n = TextContent t g"
      "ms'' = pre @ n\<lparr>l_Content := TextContent (if t = [] then index else t @ [newline, newline] @ index) None\<rparr> # post"
      using Cons.IH [of ms''] by blast
    then show ?thesis using False \<open>ms' = m # ms''\<close>
      by (intro exI [of _ "m # pre"] exI [of _ n] exI [of _ post] exI [of _ t] exI [of _ g]) simp
  qed
qed simp


section \<open>Properties\<close>


text \<open>
  A tool call whose arguments are not JSON loses its body when it is put into the transcript, so
  the conversion drops the call and keeps its result: the provider sees a result without a call.
\<close>

theorem convert_drops_invalid_call:
  assumes "\<not> json_valid raw"
  shows "DefaultConvertToLLM
      [NewToolCallWithSignature ''assistant'' i n (Some raw) g, NewToolResultMsg i n (zero_result\<lparr>tr_Content := txt, tr_IsError := True\<rparr>)] =
      [llm_msg ''tool'' (ToolResultContent (to_valid i) (to_valid n) (to_valid txt) (Some ''null'') True [])]"
proof -
  have "marshal_raw (Some raw) = None" using assms by (simp add: marshal_raw_def json_compact_def)
  moreover have "marshal_raw (tr_Data (zero_result\<lparr>tr_Content := txt, tr_IsError := True\<rparr>)) = Some ''null''"
    by (simp add: zero_result_def marshal_raw_def)
  moreover have "DefaultConvertToLLM [x, y] = DefaultConvertToLLM [x] @ DefaultConvertToLLM [y]" for x y
    by (simp add: convert_Cons)
  ultimately show ?thesis
    by (simp add: convert_tool_call_invalid convert_tool_result) (simp add: zero_result_def)
qed

text \<open>
  The skill index goes into the request exactly once: after the first system text (or as a new
  first message when there is none), and every other message stays as it was; the index is empty
  exactly when no skill is visible to the model, and the file names in it can be read back.
\<close>

theorem skill_index_placed:
  "(formatSkillsForSystemPrompt skills = [] \<longleftrightarrow> visible_skills skills = []) \<and>
   (visible_skills skills = [] \<longrightarrow> applySkillsToSystemPrompt msgs skills = msgs) \<and>
   (visible_skills skills \<noteq> [] \<and> (\<forall>m \<in> set msgs. \<not> is_system_text m) \<longrightarrow>
      applySkillsToSystemPrompt msgs skills
        = llm_msg ''system'' (TextContent (formatSkillsForSystemPrompt skills) None) # msgs) \<and>
   (visible_skills skills \<noteq> [] \<and> (\<exists>m \<in> set msgs. is_system_text m) \<longrightarrow>
      (\<exists>pre m post t g. msgs = pre @ m # post \<and> (\<forall>p \<in> set pre. \<not> is_system_text p) \<and> l_Content m = TextContent t g \<and>
         applySkillsToSystemPrompt msgs skills
           = pre @ m\<lparr>l_Content := TextContent (if t = [] then formatSkillsForSystemPrompt skills
                                            else t @ [newline, newline] @ formatSkillsForSystemPrompt skills) None\<rparr> # post)) \<and>
   (escapeXML (sk_FilePath a) = escapeXML (sk_FilePath b) \<longrightarrow> sk_FilePath a = sk_FilePath b)"
proof -
  let ?index = "formatSkillsForSystemPrompt skills"
  have e: "?index = [] \<longleftrightarrow> visible_skills skills = []" by (simp add: formatSkills_iff skills_header_def)
  have n: "\<forall>m \<in> set msgs. \<not> is_system_text m \<Longrightarrow> append_index ?index msgs = None" by (simp add: append_index_None)
  have s: "\<exists>pre m post t g. msgs = pre @ m # post \<and> (\<forall>p \<in> set pre. \<not> is_system_text p) \<and> l_Content m = TextContent t g \<and>
      append_index ?index msgs = Some (pre @ m\<lparr>l_Content := TextContent (if t = [] then ?index
         else t @ [newline, newline] @ ?index) None\<rparr> # post)" if ex: "\<exists>m \<in> set msgs. is_system_text m"
  proof -
    obtain ms' where ms': "append_index ?index msgs = Some ms'"
      using ex append_index_None [of ?index msgs] by (cases "append_index ?index msgs") auto
    show ?thesis using append_index_Some [OF ms'] ms' by blast
  qed
  show ?thesis
  proof (cases "visible_skills skills = []")
    case True
    then show ?thesis using e escapeXML_inj by (simp add: applySkillsToSystemPrompt_def)
  next
    case False
    then have ne: "?index \<noteq> []" using e by blast
    have app: "applySkillsToSystemPrompt msgs skills = (case append_index ?index msgs of Some msgs' \<Rightarrow> msgs'
        | None \<Rightarrow> llm_msg ''system'' (TextContent ?index None) # msgs)"
      using ne by (simp add: applySkillsToSystemPrompt_def Let_def)
    show ?thesis
    proof (intro conjI impI)
      assume "visible_skills skills \<noteq> [] \<and> (\<exists>m \<in> set msgs. is_system_text m)"
      from s [OF conjunct2 [OF this]] show "\<exists>pre m post t g. msgs = pre @ m # post \<and> (\<forall>p \<in> set pre. \<not> is_system_text p) \<and>
         l_Content m = TextContent t g \<and> applySkillsToSystemPrompt msgs skills
           = pre @ m\<lparr>l_Content := TextContent (if t = [] then ?index else t @ [newline, newline] @ ?index) None\<rparr> # post"
        unfolding app by (elim exE conjE) (intro exI conjI, assumption+, simp)
    qed (use e False n app escapeXML_inj in auto)
  qed
qed


theorem convert_drops_invalid_call_witness:
  "DefaultConvertToLLM
      [NewToolCallWithSignature ''assistant'' ''c1'' ''ls'' (Some ''{'') [],
       NewToolResultMsg ''c1'' ''ls'' (zero_result\<lparr>tr_Content := ''cut'', tr_IsError := True\<rparr>)] =
      [llm_msg ''tool'' (ToolResultContent (to_valid ''c1'') (to_valid ''ls'') (to_valid ''cut'') (Some ''null'') True [])]"
proof -
  have "\<not> json_valid ''{''" by code_simp
  from convert_drops_invalid_call [OF this] show ?thesis by blast
qed

definition demo_skill :: Skill where
  "demo_skill = \<lparr>sk_Name = ''pdf'', sk_Description = ''d'', sk_Content = ''c'', sk_FilePath = ''/s/a&b.md'', sk_DisableModelInvocation = False\<rparr>"

theorem skill_index_placed_witness:
  "visible_skills [demo_skill] \<noteq> [] \<and>
   applySkillsToSystemPrompt [llm_msg ''user'' (TextContent ''hi'' None)] [demo_skill]
     = [llm_msg ''system'' (TextContent (formatSkillsForSystemPrompt [demo_skill]) None),
        llm_msg ''user'' (TextContent ''hi'' None)]"
proof -
  have "visible_skills [demo_skill] \<noteq> []" by (simp add: visible_skills_def demo_skill_def)
  moreover have "\<forall>m \<in> set [llm_msg ''user'' (TextContent ''hi'' None)]. \<not> is_system_text m"
    by (simp add: is_system_text_def llm_msg_def)
  ultimately show ?thesis
    using skill_index_placed [of "[demo_skill]" "[llm_msg ''user'' (TextContent ''hi'' None)]" demo_skill demo_skill] by blast
qed

end
