(* ===== verification/Agent_Config.thy ===== *)
theory Agent_Config
  imports Llm_Convert
begin

text \<open>
  The agent object (agent.go), its configuration (config.go, hooks.go, prompt_opts.go), the per-turn
  snapshot (snapshot.go) and the setters (setters.go). The storage backend is a record of operations
  \<open>R\<close> with its state kept in the agent; a provider is its name and what it says of its models. The
  calls of the configuration hook are returned as a list. The level of thinking, the transport
  preference and the provider hints are the provider package's.
\<close>

datatype ThinkingLevel = ThinkingOff | ThinkingOn string

record Provider =
  pr_Name :: string
  pr_Thinking :: "string \<Rightarrow> bool"

record SummarizationRetryPolicy =
  rp_MaxRetries :: int
  rp_BaseDelay :: int
  rp_MaxDelay :: int

record PromptOpts =
  po_SessionID :: string
  po_Model :: string
  po_SystemPrompt :: string
  po_Thinking :: ThinkingLevel
  po_ProviderHints :: string

text \<open>
  The hooks of the agent's life cycle, functions of their arguments; \<open>None\<close> is nil. The ones that return
  nothing (\<open>AfterCompact\<close>, \<open>OnSummarizationRetry\<close>, \<open>OnConfigUpdate\<close>) are flags, their calls being
  recorded. The two that the provider calls with HTTP headers are passed on to it and left out.
\<close>

record Hooks =
  h_BeforeAgentStart :: "(PromptOpts \<Rightarrow> err option) option"
  h_BeforeToolCall :: "(string \<Rightarrow> string \<Rightarrow> string option \<Rightarrow> err option) option"
  h_AfterToolCall :: "(string \<Rightarrow> string \<Rightarrow> ToolResult \<Rightarrow> err option) option"
  h_BeforeCompact :: "(string \<Rightarrow> nat \<Rightarrow> err option) option"
  h_TransformContext :: "(Message list \<Rightarrow> Message list + err) option"
  h_AfterCompact :: bool
  h_OnSummarizationRetry :: bool
  h_ShouldStopAfterTurn :: "(nat \<Rightarrow> bool \<Rightarrow> bool) option"
  h_OnConfigUpdate :: bool

datatype ToolExecutionMode = ToolExecParallel | ToolExecSequential

record AgentConfig =
  c_Providers :: "Provider list"
  c_DefaultModel :: string
  c_SystemPrompt :: string
  c_Tools :: "RegisteredTool list"
  c_ActiveToolNames :: "string list option"
  c_Hooks :: Hooks
  c_ConvertToLLM :: "(Message list \<Rightarrow> llm_Message list) option"
  c_ToolExecution :: ToolExecutionMode
  c_MaxParallelTools :: int
  c_ShutdownTimeout :: int
  c_EventBufferSize :: int
  c_SteerBufferSize :: int
  c_DefaultThinking :: ThinkingLevel
  c_ThinkingBudgets :: "(ThinkingLevel \<times> int) list"
  c_ReserveTokens :: int
  c_KeepRecentTokens :: int
  c_CompactionModelOverrides :: "(string \<times> CompactionBudget) list"
  c_SummarizationRetry :: SummarizationRetryPolicy
  c_Transport :: string
  c_Skills :: "Skill list"

record 's Agent =
  a_config :: AgentConfig
  a_session :: 's
  a_hooks :: Hooks
  a_running :: int
  a_model :: string
  a_tools :: "RegisteredTool list"
  a_activeToolNames :: "string list option"
  a_systemPrompt :: string
  a_thinkingLevel :: ThinkingLevel
  a_thinkingBudgets :: "(ThinkingLevel \<times> int) list"
  a_skills :: "Skill list"
  a_pendingActiveTools :: "string list option list"
  a_lastSessionID :: string

section \<open>NewAgent\<close>

definition or_default :: "int \<Rightarrow> int \<Rightarrow> int" where
  "or_default v d = (if v = 0 then d else v)"

definition config_defaults :: "AgentConfig \<Rightarrow> AgentConfig" where
  "config_defaults cfg = cfg\<lparr>
     c_EventBufferSize := or_default (c_EventBufferSize cfg) 16,
     c_SteerBufferSize := or_default (c_SteerBufferSize cfg) 8,
     c_MaxParallelTools := or_default (c_MaxParallelTools cfg) 32,
     c_ShutdownTimeout := or_default (c_ShutdownTimeout cfg) 30000000000,
     c_ReserveTokens := or_default (c_ReserveTokens cfg) 16384,
     c_KeepRecentTokens := or_default (c_KeepRecentTokens cfg) 20000,
     c_ConvertToLLM := (case c_ConvertToLLM cfg of None \<Rightarrow> Some DefaultConvertToLLM | Some f \<Rightarrow> Some f)\<rparr>"

text \<open>\<open>session\<close> is the configured backend's state, or a new in-memory session's.\<close>

definition NewAgent :: "'s \<Rightarrow> AgentConfig \<Rightarrow> 's Agent + err" where
  "NewAgent session cfg0 =
     (let cfg = config_defaults cfg0 in
      case validateToolConfig (c_Tools cfg) (c_ActiveToolNames cfg) of
        Some e \<Rightarrow> Inr e
      | None \<Rightarrow> Inl \<lparr>a_config = cfg, a_session = session, a_hooks = c_Hooks cfg, a_running = 0,
                    a_model = c_DefaultModel cfg, a_tools = c_Tools cfg, a_activeToolNames = c_ActiveToolNames cfg,
                    a_systemPrompt = c_SystemPrompt cfg, a_thinkingLevel = c_DefaultThinking cfg,
                    a_thinkingBudgets = c_ThinkingBudgets cfg, a_skills = c_Skills cfg,
                    a_pendingActiveTools = [], a_lastSessionID = []\<rparr>)"

definition isRunning :: "'s Agent \<Rightarrow> bool" where
  "isRunning a \<longleftrightarrow> a_running a > 0"

fun find_provider :: "Provider list \<Rightarrow> string \<Rightarrow> Provider option" where
  "find_provider [] name = None"
| "find_provider (p # ps) name = (if pr_Name p = name then Some p else find_provider ps name)"

definition providerByName :: "'s Agent \<Rightarrow> string \<Rightarrow> Provider + err" where
  "providerByName a name =
     (case find_provider (c_Providers (a_config a)) name of
        Some p \<Rightarrow> Inl p
      | None \<Rightarrow> Inr (errorf_w (''provider '' @ go_quote name @ '' not found'') ErrInvalidModelRef))"

section \<open>The turn snapshot\<close>

record turnSnapshot =
  ts_model :: string
  ts_tools :: "RegisteredTool list"
  ts_systemPrompt :: string
  ts_thinkingLevel :: ThinkingLevel
  ts_thinkingBudgets :: "(ThinkingLevel \<times> int) list"
  ts_skills :: "Skill list"
  ts_transport :: string

definition snapshot :: "'s Agent \<Rightarrow> turnSnapshot" where
  "snapshot a = \<lparr>ts_model = a_model a, ts_tools = filterActiveTools (a_tools a) (a_activeToolNames a),
     ts_systemPrompt = a_systemPrompt a, ts_thinkingLevel = a_thinkingLevel a,
     ts_thinkingBudgets = a_thinkingBudgets a, ts_skills = a_skills a, ts_transport = c_Transport (a_config a)\<rparr>"

section \<open>Setters\<close>

datatype ConfigUpdate =
    CU_Model string string
  | CU_Tools "RegisteredTool list" "RegisteredTool list"
  | CU_SystemPrompt string string
  | CU_ThinkingLevel ThinkingLevel ThinkingLevel
  | CU_ActiveTools "string list option" "string list option"
  | CU_Skills "Skill list" "Skill list"

definition notify :: "'s Agent \<Rightarrow> ConfigUpdate \<Rightarrow> ConfigUpdate list" where
  "notify a u = (if h_OnConfigUpdate (a_hooks a) then [u] else [])"

definition SetModel :: "string \<Rightarrow> 's Agent \<Rightarrow> 's Agent \<times> ConfigUpdate list" where
  "SetModel model a = (a\<lparr>a_model := model\<rparr>, notify a (CU_Model (a_model a) model))"

definition SetTools :: "RegisteredTool list \<Rightarrow> 's Agent \<Rightarrow> 's Agent \<times> ConfigUpdate list \<times> err option" where
  "SetTools tools a =
     (case validateToolConfig tools (a_activeToolNames a) of
        Some e \<Rightarrow> (a, [], Some e)
      | None \<Rightarrow> (a\<lparr>a_tools := tools\<rparr>, notify a (CU_Tools (a_tools a) tools), None))"

definition SetSystemPrompt :: "string \<Rightarrow> 's Agent \<Rightarrow> 's Agent \<times> ConfigUpdate list" where
  "SetSystemPrompt prompt a = (a\<lparr>a_systemPrompt := prompt\<rparr>, notify a (CU_SystemPrompt (a_systemPrompt a) prompt))"

definition SetThinkingLevel :: "ThinkingLevel \<Rightarrow> 's Agent \<Rightarrow> 's Agent \<times> ConfigUpdate list" where
  "SetThinkingLevel level a = (a\<lparr>a_thinkingLevel := level\<rparr>, notify a (CU_ThinkingLevel (a_thinkingLevel a) level))"

definition SetSkills :: "Skill list \<Rightarrow> 's Agent \<Rightarrow> 's Agent \<times> ConfigUpdate list" where
  "SetSkills skills a = (a\<lparr>a_skills := skills\<rparr>, notify a (CU_Skills (a_skills a) skills))"

definition SetActiveTools :: "'s SessionRepo \<Rightarrow> string list option \<Rightarrow> 's Agent \<Rightarrow>
    's Agent \<times> ConfigUpdate list \<times> err option" where
  "SetActiveTools R names a =
     (case validateToolConfig (a_tools a) names of
        Some e \<Rightarrow> (a, [], Some e)
      | None \<Rightarrow>
          (let old = a_activeToolNames a;
               a1 = a\<lparr>a_activeToolNames := names\<rparr>;
               sid = a_lastSessionID a1;
               bound = (sid \<noteq> []);
               running = isRunning a1;
               a2 = (if bound \<and> running
                     then a1\<lparr>a_pendingActiveTools := a_pendingActiveTools a1 @ [names]\<rparr> else a1)
           in if bound \<and> \<not> running then
                (case repo_Append R sid [NewActiveToolsChange names] (a_session a2) of
                   (s, Some e) \<Rightarrow> (a2\<lparr>a_session := s\<rparr>, [], Some (wrap_err ''persisting active tools change: '' e))
                 | (s, None) \<Rightarrow> (a2\<lparr>a_session := s\<rparr>, notify a2 (CU_ActiveTools old names), None))
              else (a2, notify a2 (CU_ActiveTools old names), None)))"

section \<open>The configuration invariant\<close>

text \<open>
  \<open>wf_agent\<close>: the registered tools have distinct names and valid schemas. \<open>active_ok\<close>: the active
  names are registered ones, without repetition; restoring a session does not keep it.
\<close>

definition wf_agent :: "'s Agent \<Rightarrow> bool" where
  "wf_agent a \<longleftrightarrow> distinct (toolNames (a_tools a)) \<and> list_all (\<lambda>t. schema_ok (t_Schema t)) (a_tools a)"

definition active_ok :: "'s Agent \<Rightarrow> bool" where
  "active_ok a \<longleftrightarrow>
     (\<forall>ns. a_activeToolNames a = Some ns \<longrightarrow> distinct ns \<and> set ns \<subseteq> set (toolNames (a_tools a)))"

lemma NewAgent_wf: "NewAgent s cfg = Inl a \<Longrightarrow> wf_agent a \<and> active_ok a"
  by (auto simp: NewAgent_def Let_def wf_agent_def active_ok_def validateToolConfig_None split: option.splits)

lemma SetTools_wf: "SetTools tools a = (a', us, None) \<Longrightarrow> wf_agent a' \<and> active_ok a'"
  by (auto simp: SetTools_def wf_agent_def active_ok_def validateToolConfig_None split: option.splits)

lemma SetActiveTools_fields:
  assumes "SetActiveTools R names a = (a', us, e)"
  shows "a_tools a' = a_tools a" "a_config a' = a_config a" "a_running a' = a_running a"
    "a_lastSessionID a' = a_lastSessionID a"
    "e = None \<Longrightarrow> validateToolConfig (a_tools a) names = None \<and> a_activeToolNames a' = names"
    "validateToolConfig (a_tools a) names \<noteq> None \<Longrightarrow> a' = a"
  using assms by (auto simp: SetActiveTools_def Let_def split: option.splits if_splits prod.splits)

lemma SetActiveTools_wf:
  "SetActiveTools R names a = (a', us, None) \<Longrightarrow> wf_agent a \<Longrightarrow> wf_agent a' \<and> active_ok a'"
  using SetActiveTools_fields(1,5) [of R names a a' us None]
  by (auto simp: wf_agent_def active_ok_def validateToolConfig_None)

text \<open>What the snapshot offers: the active ones among the registered tools, each name once.\<close>

lemma snapshot_tools:
  assumes "wf_agent a" "active_ok a"
  shows "distinct (toolNames (ts_tools (snapshot a)))"
    "set (toolNames (ts_tools (snapshot a))) =
       (case a_activeToolNames a of None \<Rightarrow> set (toolNames (a_tools a)) | Some ns \<Rightarrow> set ns)"
proof -
  have "toolNames (filter (\<lambda>t. t_Name t \<in> S) ts) = filter (\<lambda>n. n \<in> S) (toolNames ts)" for S ts
    by (simp add: toolNames_def filter_map comp_def)
  then show "distinct (toolNames (ts_tools (snapshot a)))"
    "set (toolNames (ts_tools (snapshot a))) =
       (case a_activeToolNames a of None \<Rightarrow> set (toolNames (a_tools a)) | Some ns \<Rightarrow> set ns)"
    using assms by (auto simp: snapshot_def filterActiveTools_def wf_agent_def active_ok_def split: option.splits)
qed

section \<open>Properties\<close>

text \<open>
  C38
  The validator accepts exactly the tool sets with distinct names and valid schemas and an active
  subset that is absent or made of distinct registered names; the agent NewAgent returns, and any
  set SetTools or SetActiveTools accepts, is such a set, so the next snapshot offers exactly the
  active tools, each once. A set that is refused leaves the agent as it was.
\<close>

theorem tool_config_validated:
  "(validateToolConfig tools names = None \<longleftrightarrow>
      distinct (toolNames tools) \<and> list_all (\<lambda>t. schema_ok (t_Schema t)) tools \<and>
      (\<forall>ns. names = Some ns \<longrightarrow> distinct ns \<and> set ns \<subseteq> set (toolNames tools))) \<and>
   (NewAgent s cfg = Inl a0 \<longrightarrow> wf_agent a0 \<and> active_ok a0) \<and>
   (wf_agent a \<and> SetActiveTools R names a = (a1, us, None) \<longrightarrow>
      wf_agent a1 \<and> active_ok a1 \<and> distinct (toolNames (ts_tools (snapshot a1))) \<and>
      set (toolNames (ts_tools (snapshot a1))) =
        (case names of None \<Rightarrow> set (toolNames (a_tools a)) | Some ns \<Rightarrow> set ns)) \<and>
   (SetTools tools a = (a2, us', None) \<longrightarrow> wf_agent a2 \<and> active_ok a2) \<and>
   (SetTools tools a = (a3, us'', Some e) \<longrightarrow> a3 = a) \<and>
   (validateToolConfig (a_tools a) names \<noteq> None \<longrightarrow> fst (SetActiveTools R names a) = a)"
proof -
  have act: "wf_agent a1 \<and> active_ok a1 \<and> distinct (toolNames (ts_tools (snapshot a1))) \<and>
      set (toolNames (ts_tools (snapshot a1))) =
        (case names of None \<Rightarrow> set (toolNames (a_tools a)) | Some ns \<Rightarrow> set ns)"
    if "wf_agent a" "SetActiveTools R names a = (a1, us, None)"
    using SetActiveTools_wf [OF that(2,1)] snapshot_tools [of a1] SetActiveTools_fields(1,5) [OF that(2)]
    by (auto split: option.splits)
  have "fst (SetActiveTools R names a) = a" if "validateToolConfig (a_tools a) names \<noteq> None"
    using that by (auto simp: SetActiveTools_def split: option.splits)
  moreover have "SetTools tools a = (a3, us'', Some e) \<longrightarrow> a3 = a"
    by (auto simp: SetTools_def split: option.splits)
  ultimately show ?thesis
    using validateToolConfig_None [of tools names] NewAgent_wf [of s cfg a0] act SetTools_wf [of tools a a2 us'] by blast
qed

section \<open>Witnesses\<close>

text \<open>A configuration of two tools, and the agent it gives over the in-memory backend.\<close>

definition demo_tool :: "string \<Rightarrow> RegisteredTool" where
  "demo_tool name = NewDynamicTool name ''a tool'' (Some ''{}'') (\<lambda>callID args. (zero_result, None)) None"

definition no_hooks :: Hooks where
  "no_hooks = \<lparr>h_BeforeAgentStart = None, h_BeforeToolCall = None, h_AfterToolCall = None, h_BeforeCompact = None,
     h_TransformContext = None, h_AfterCompact = False, h_OnSummarizationRetry = False, h_ShouldStopAfterTurn = None, h_OnConfigUpdate = True\<rparr>"

definition demo_config :: AgentConfig where
  "demo_config = \<lparr>c_Providers = [\<lparr>pr_Name = ''p'', pr_Thinking = (\<lambda>m. False)\<rparr>], c_DefaultModel = ''p/m'',
     c_SystemPrompt = [], c_Tools = [demo_tool ''read'', demo_tool ''write''], c_ActiveToolNames = None,
     c_Hooks = no_hooks, c_ConvertToLLM = None, c_ToolExecution = ToolExecParallel, c_MaxParallelTools = 0, c_ShutdownTimeout = 0,
     c_EventBufferSize = 0, c_SteerBufferSize = 0, c_DefaultThinking = ThinkingOff, c_ThinkingBudgets = [],
     c_ReserveTokens = 0, c_KeepRecentTokens = 0, c_CompactionModelOverrides = [],
     c_SummarizationRetry = \<lparr>rp_MaxRetries = 0, rp_BaseDelay = 0, rp_MaxDelay = 0\<rparr>, c_Transport = [], c_Skills = []\<rparr>"

definition demo_store :: internalMemorySession where
  "demo_store = newInternalMemorySession ''2026-01-01T00:00:00Z'' ''0123456789abcdef''"

definition demo_agent :: "'s \<Rightarrow> 's Agent" where
  "demo_agent s = (case NewAgent s demo_config of Inl a \<Rightarrow> a)"

lemma schema_ok_empty_object: "schema_ok (Some ''{}'')"
proof -
  have "json_valid ''{}''" by code_simp
  then show ?thesis by (simp add: schema_ok_def)
qed

lemma demo_tools_valid:
  "names = None \<or> names = Some [''read''] \<Longrightarrow>
     validateToolConfig [demo_tool ''read'', demo_tool ''write''] names = None"
  by (auto simp: validateToolConfig_None toolNames_def demo_tool_def NewDynamicTool_def schema_ok_empty_object)

lemma demo_NewAgent: "NewAgent s demo_config = Inl (demo_agent s)"
  using demo_tools_valid [of None]
  by (simp add: demo_agent_def NewAgent_def demo_config_def config_defaults_def Let_def)

lemma demo_agent_fields:
  "a_tools (demo_agent s) = [demo_tool ''read'', demo_tool ''write'']" "a_activeToolNames (demo_agent s) = None"
  "a_lastSessionID (demo_agent s) = []" "a_running (demo_agent s) = 0" "a_session (demo_agent s) = s"
  "a_pendingActiveTools (demo_agent s) = []" "a_systemPrompt (demo_agent s) = []" "a_model (demo_agent s) = ''p/m''"
  "a_hooks (demo_agent s) = no_hooks" "a_config (demo_agent s) = config_defaults demo_config"
  using demo_tools_valid [of None]
  by (simp_all add: demo_agent_def NewAgent_def demo_config_def config_defaults_def Let_def)

lemma demo_SetActiveTools:
  "\<exists>a us. SetActiveTools R (Some [''read'']) (demo_agent s) = (a, us, None)"
  using demo_tools_valid [of "Some [''read'']"]
  by (simp add: SetActiveTools_def demo_agent_fields Let_def)

theorem tool_config_validated_witness:
  "wf_agent (demo_agent demo_store) \<and>
   (\<exists>a us. SetActiveTools im_repo (Some [''read'']) (demo_agent demo_store) = (a, us, None) \<and>
      set (toolNames (ts_tools (snapshot a))) = {''read''})"
proof -
  have wf: "wf_agent (demo_agent demo_store)"
    using tool_config_validated [of "[]" None demo_store demo_config "demo_agent demo_store"] demo_NewAgent [of demo_store] by blast
  obtain a us where a: "SetActiveTools im_repo (Some [''read'']) (demo_agent demo_store) = (a, us, None)"
    using demo_SetActiveTools [of im_repo demo_store] by blast
  show ?thesis
    using tool_config_validated [of "[]" "Some [''read'']" demo_store demo_config "demo_agent demo_store" "demo_agent demo_store" im_repo a us] wf a by auto
qed

end
