(* ===== verification/Summarize.thy ===== *)
theory Summarize
  imports Agent_Config Summary_Prompts Go_Int
begin

text \<open>
  Compaction of a session (compact.go from \<open>Compact\<close> on, summarize_retry.go): the summarization
  calls with their bounded retries, and what is stored. The provider's answers and the outcomes of
  the waits come from an environment, by the number of the call; the calls made, the waits and the
  hook calls are recorded. Go's \<^verbatim>\<open>int\<close> and \<^verbatim>\<open>time.Duration\<close> are integers whose arithmetic wraps to 64 bits.
\<close>

datatype 'a outcome = Returned 'a | Failed err | Panicked

section \<open>The retry policy\<close>

definition DefaultSummarizationRetryBaseDelay :: int where
  "DefaultSummarizationRetryBaseDelay = 1000000000"

definition DefaultSummarizationRetryMaxDelay :: int where
  "DefaultSummarizationRetryMaxDelay = 60 * 1000000000"

definition normalized :: "SummarizationRetryPolicy \<Rightarrow> SummarizationRetryPolicy" where
  "normalized p =
     p\<lparr>rp_BaseDelay := (if rp_BaseDelay p \<le> 0 then DefaultSummarizationRetryBaseDelay else rp_BaseDelay p),
       rp_MaxDelay := (if rp_MaxDelay p \<le> 0 then DefaultSummarizationRetryMaxDelay else rp_MaxDelay p)\<rparr>"

text \<open>The doubling loop, for the iterations left.\<close>

fun backoff_loop :: "nat \<Rightarrow> int \<Rightarrow> int \<Rightarrow> int" where
  "backoff_loop 0 mx d = d"
| "backoff_loop (Suc n) mx d = (if d < mx then backoff_loop n mx (wrap64 (d * 2)) else d)"

definition backoff :: "SummarizationRetryPolicy \<Rightarrow> int \<Rightarrow> int" where
  "backoff p attempt =
     (let d = backoff_loop (nat (attempt - 1)) (rp_MaxDelay p) (rp_BaseDelay p)
      in if d > rp_MaxDelay p then rp_MaxDelay p else d)"

definition isTransientSummarizationError :: "err \<Rightarrow> bool" where
  "isTransientSummarizationError e \<longleftrightarrow>
     \<not> (errors_is e LlmProviderFatal \<or> errors_is e LlmContextOverflow \<or> errors_is e ErrSummaryTruncated \<or>
        errors_is e CtxCanceled)"

section \<open>One summarization call\<close>

datatype StopReason = StopReasonNone | StopReasonLength | StopReasonOther string

datatype sum_event = SumTextDelta string | SumUsage int int | SumMessageEnd StopReason | SumOther

record llm_answer =
  an_Events :: "sum_event list"
  an_Err :: "err option"

record llm_request =
  rq_Model :: string
  rq_Messages :: "llm_Message list"

text \<open>\<open>se_Answer n\<close>: what the provider answers the \<open>n\<close>th request; \<open>se_Sleep n d\<close>: how the \<open>n\<close>th wait ends.\<close>

record sum_env =
  se_Answer :: "nat \<Rightarrow> llm_request \<Rightarrow> llm_answer"
  se_Sleep :: "nat \<Rightarrow> int \<Rightarrow> err option"

datatype SummarizationRetryPhase =
    SummarizationRetryScheduled | SummarizationRetryAttemptStart | SummarizationRetryFinished

record SummarizationRetryCtx =
  rc_Phase :: SummarizationRetryPhase
  rc_Attempt :: int
  rc_MaxAttempts :: int
  rc_Delay :: int
  rc_Success :: bool
  rc_Err :: "err option"

record sum_state =
  ss_Calls :: "llm_request list"
  ss_Sleeps :: "int list"
  ss_Hooks :: "SummarizationRetryCtx list"

record sum_acc =
  ac_Text :: string
  ac_Usage :: "Usage option"
  ac_Stop :: StopReason

definition sum_event_step :: "sum_acc \<Rightarrow> sum_event \<Rightarrow> sum_acc" where
  "sum_event_step a ev =
     (case ev of
        SumTextDelta d \<Rightarrow> a\<lparr>ac_Text := ac_Text a @ d\<rparr>
      | SumUsage i t \<Rightarrow>
          (let u = (case ac_Usage a of None \<Rightarrow> \<lparr>u_InputTokens = 0, u_OutputTokens = 0\<rparr> | Some u \<Rightarrow> u)
           in a\<lparr>ac_Usage := Some \<lparr>u_InputTokens = wrap64 (u_InputTokens u + i), u_OutputTokens = wrap64 (u_OutputTokens u + t)\<rparr>\<rparr>)
      | SumMessageEnd s \<Rightarrow> a\<lparr>ac_Stop := s\<rparr>
      | SumOther \<Rightarrow> a)"

definition sum_result :: "llm_answer \<Rightarrow> (string \<times> Usage option) + err" where
  "sum_result ans =
     (let a = foldl sum_event_step \<lparr>ac_Text = [], ac_Usage = None, ac_Stop = StopReasonNone\<rparr> (an_Events ans)
      in case an_Err ans of
           Some e \<Rightarrow> Inr e
         | None \<Rightarrow> if ac_Stop a = StopReasonLength
                   then Inr (errorf_w ''summary truncated at output token limit'' ErrSummaryTruncated)
                   else Inl (trim_space (ac_Text a), ac_Usage a))"

definition summarizeOnce :: "sum_env \<Rightarrow> string \<Rightarrow> Message list \<Rightarrow> sum_state \<Rightarrow> sum_state \<times> ((string \<times> Usage option) + err)" where
  "summarizeOnce E modelID msgs st =
     (let req = \<lparr>rq_Model = modelID, rq_Messages = DefaultConvertToLLM msgs\<rparr>
      in (st\<lparr>ss_Calls := ss_Calls st @ [req]\<rparr>, sum_result (se_Answer E (length (ss_Calls st)) req)))"

definition sleepCtx :: "sum_env \<Rightarrow> int \<Rightarrow> sum_state \<Rightarrow> sum_state \<times> err option" where
  "sleepCtx E d st = (st\<lparr>ss_Sleeps := ss_Sleeps st @ [d]\<rparr>, se_Sleep E (length (ss_Sleeps st)) d)"

definition notifySummarizationRetry :: "bool \<Rightarrow> SummarizationRetryCtx \<Rightarrow> sum_state \<Rightarrow> sum_state" where
  "notifySummarizationRetry hook c st = (if hook then st\<lparr>ss_Hooks := ss_Hooks st @ [c]\<rparr> else st)"

definition retry_scheduled :: "int \<Rightarrow> int \<Rightarrow> int \<Rightarrow> err \<Rightarrow> SummarizationRetryCtx" where
  "retry_scheduled attempt mx d e = \<lparr>rc_Phase = SummarizationRetryScheduled, rc_Attempt = attempt, rc_MaxAttempts = mx,
     rc_Delay = d, rc_Success = False, rc_Err = Some e\<rparr>"

definition retry_start :: "int \<Rightarrow> SummarizationRetryCtx" where
  "retry_start attempt = \<lparr>rc_Phase = SummarizationRetryAttemptStart, rc_Attempt = attempt, rc_MaxAttempts = 0,
     rc_Delay = 0, rc_Success = False, rc_Err = None\<rparr>"

definition retry_finished :: "int \<Rightarrow> err option \<Rightarrow> SummarizationRetryCtx" where
  "retry_finished attempt e = \<lparr>rc_Phase = SummarizationRetryFinished, rc_Attempt = attempt, rc_MaxAttempts = 0,
     rc_Delay = 0, rc_Success = (e = None), rc_Err = e\<rparr>"

section \<open>Retries\<close>

function retry_loop :: "sum_env \<Rightarrow> bool \<Rightarrow> SummarizationRetryPolicy \<Rightarrow> string \<Rightarrow> Message list \<Rightarrow> int \<Rightarrow> err \<Rightarrow> sum_state \<Rightarrow>
    sum_state \<times> ((string \<times> Usage option) + err)" where
  "retry_loop E hook p modelID msgs attempt e st =
     (let d = backoff p attempt;
          st1 = notifySummarizationRetry hook (retry_scheduled attempt (rp_MaxRetries p) d e) st
      in case sleepCtx E d st1 of
           (st2, Some se) \<Rightarrow> (notifySummarizationRetry hook (retry_finished attempt (Some e)) st2,
                              Inr (wrap_err ''summarization retry wait: '' se))
         | (st2, None) \<Rightarrow>
             (case summarizeOnce E modelID msgs (notifySummarizationRetry hook (retry_start attempt) st2) of
                (st3, Inl x) \<Rightarrow> (notifySummarizationRetry hook (retry_finished attempt None) st3, Inl x)
              | (st3, Inr e') \<Rightarrow>
                  (if attempt \<ge> rp_MaxRetries p \<or> \<not> isTransientSummarizationError e'
                   then (notifySummarizationRetry hook (retry_finished attempt (Some e')) st3, Inr e')
                   else retry_loop E hook p modelID msgs (attempt + 1) e' st3)))"
  by pat_completeness auto
termination
  by (relation "measure (\<lambda>(E, hook, p, modelID, msgs, attempt, e, st). nat (rp_MaxRetries p - attempt))") auto

definition summarizeWithLLM :: "sum_env \<Rightarrow> 's Agent \<Rightarrow> string \<Rightarrow> Message list \<Rightarrow> sum_state \<Rightarrow>
    sum_state \<times> ((string \<times> Usage option) + err)" where
  "summarizeWithLLM E a modelID msgs st =
     (let policy = normalized (c_SummarizationRetry (a_config a)) in
      case summarizeOnce E modelID msgs st of
        (st1, Inl x) \<Rightarrow> (st1, Inl x)
      | (st1, Inr e) \<Rightarrow>
          (if rp_MaxRetries policy = 0 \<or> \<not> isTransientSummarizationError e then (st1, Inr e)
           else retry_loop E (h_OnSummarizationRetry (a_hooks a)) policy modelID msgs 1 e st1))"

section \<open>The summary of a prefix\<close>

definition combineUsage :: "Usage option \<Rightarrow> Usage option \<Rightarrow> Usage option" where
  "combineUsage a b =
     (case a of None \<Rightarrow> b
      | Some x \<Rightarrow> (case b of None \<Rightarrow> a
          | Some y \<Rightarrow> Some \<lparr>u_InputTokens = wrap64 (u_InputTokens x + u_InputTokens y),
                            u_OutputTokens = wrap64 (u_OutputTokens x + u_OutputTokens y)\<rparr>))"

definition split_marker :: string where
  "split_marker = [newline, newline] @ ''---'' @ [newline, newline] @ ''**Turn Context (split turn):**'' @ [newline, newline]"

definition splitTurnSummarize :: "sum_env \<Rightarrow> 's Agent \<Rightarrow> string \<Rightarrow> compactionPrep \<Rightarrow> sum_state \<Rightarrow>
    sum_state \<times> ((string \<times> Usage option) + err)" where
  "splitTurnSummarize E a modelID prep st =
     (case summarizeWithLLM E a modelID
             (NewSystem SummarizationSystemPrompt # cp_prefix prep @ [NewText ''user'' SummarizationPrompt]) st of
        (st1, Inr e) \<Rightarrow> (st1, Inr (wrap_err ''history summarization: '' e))
      | (st1, Inl (hs, hu)) \<Rightarrow>
          (case summarizeWithLLM E a modelID
                  (NewSystem SummarizationSystemPrompt # cp_prefix prep @ [NewText ''user'' TurnPrefixSummarizationPrompt]) st1 of
             (st2, Inr e) \<Rightarrow> (st2, Inr (wrap_err ''turn prefix summarization: '' e))
           | (st2, Inl (ts, tu)) \<Rightarrow> (st2, Inl (hs @ split_marker @ ts, combineUsage hu tu))))"

text \<open>The instruction list: an existing summary is put before the messages and updated.\<close>

definition summary_messages :: "BranchSummary list \<Rightarrow> Message list \<Rightarrow> Message list" where
  "summary_messages summaries msgs =
     (if summaries \<noteq> []
      then NewSystem SummarizationSystemPrompt # NewBranchSummaryMessage (bs_Summary (last summaries)) # msgs
             @ [NewText ''user'' UpdateSummarizationPrompt]
      else NewSystem SummarizationSystemPrompt # msgs @ [NewText ''user'' SummarizationPrompt])"

definition summarize :: "sum_env \<Rightarrow> 's SessionRepo \<Rightarrow> string \<Rightarrow> compactionPrep \<Rightarrow> 's Agent \<Rightarrow> sum_state \<Rightarrow>
    sum_state \<times> (string \<times> Usage option) outcome" where
  "summarize E R sid prep a st =
     (if c_Providers (a_config a) = [] then (st, Panicked)
      else if c_DefaultModel (a_config a) = []
      then (st, Failed (errorf_w ''no model configured for summarization'' ErrInvalidModel))
      else case parseModelRef (c_DefaultModel (a_config a)) of
        Inr e \<Rightarrow> (st, Failed e)
      | Inl (_, modelID) \<Rightarrow>
          (case repo_LoadBranchSummaries R sid (a_session a) of
             Inr e \<Rightarrow> (st, Failed e)
           | Inl summaries \<Rightarrow>
               (let go = (if cp_keptTail prep \<noteq> [] \<and> cp_cutIdx prep > 0 \<and> m_Type (last (cp_prefix prep)) = ''tool_call''
                          then splitTurnSummarize E a modelID prep st
                          else summarizeWithLLM E a modelID (summary_messages summaries (cp_prefix prep)) st)
                in case go of (st1, Inl x) \<Rightarrow> (st1, Returned x) | (st1, Inr e) \<Rightarrow> (st1, Failed e))))"

section \<open>Compact\<close>

record CompactOpts =
  co_KeepRecentTokens :: int
  co_SessionID :: string

text \<open>\<open>CompactResult\<close> is \<open>None\<close> when nothing was compacted; \<open>now\<close> is the clock's reading.\<close>

type_synonym CompactResult = "(BranchSummary \<times> nat) option"

definition compact_settings :: "'s Agent \<Rightarrow> CompactOpts \<Rightarrow> CompactionSettings" where
  "compact_settings a opts =
     (let s = ForModel \<lparr>cs_Enabled = True, cs_ReserveTokens = c_ReserveTokens (a_config a),
                cs_KeepRecentTokens = c_KeepRecentTokens (a_config a),
                cs_ModelOverrides = c_CompactionModelOverrides (a_config a)\<rparr> (c_DefaultModel (a_config a))
      in if co_KeepRecentTokens opts > 0 then s\<lparr>cs_KeepRecentTokens := co_KeepRecentTokens opts\<rparr> else s)"

definition Compact :: "sum_env \<Rightarrow> 's SessionRepo \<Rightarrow> string \<Rightarrow> CompactOpts \<Rightarrow> 's Agent \<Rightarrow> sum_state \<Rightarrow>
    's Agent \<times> sum_state \<times> (string \<times> BranchSummary) list \<times> CompactResult outcome" where
  "Compact E R now opts a st =
     (if isRunning a then (a, st, [], Failed (errorf_w ''agent is busy'' ErrAgentBusy))
      else
        let settings = compact_settings a opts;
            sid = (if co_SessionID opts = [] then a_lastSessionID a else co_SessionID opts)
        in if sid = [] then (a, st, [], Returned None)
        else case repo_Load R sid (a_session a) of
          Inr e \<Rightarrow> (a, st, [], Failed (wrap_err ''loading session: '' e))
        | Inl msgs \<Rightarrow>
          (case prepareCompaction msgs settings of
             None \<Rightarrow> (a, st, [], Returned None)
           | Some prep \<Rightarrow>
             (case (case h_BeforeCompact (a_hooks a) of None \<Rightarrow> None | Some h \<Rightarrow> h sid (cp_cutIdx prep)) of
                Some e \<Rightarrow> (a, st, [], Failed (wrap_err ''before compact hook: '' e))
              | None \<Rightarrow>
                (case summarize E R sid prep a st of
                   (st1, Panicked) \<Rightarrow> (a, st1, [], Panicked)
                 | (st1, Failed e) \<Rightarrow> (a, st1, [], Failed (wrap_err ''summarization failed: '' e))
                 | (st1, Returned (summary, usage)) \<Rightarrow>
                   (let bs = \<lparr>bs_StartIdx = 0, bs_EndIdx = int (cp_cutIdx prep), bs_Summary = summary,
                             bs_CreatedAt = now, bs_Usage = usage\<rparr> in
                    case repo_AppendBranchSummary R sid bs (a_session a) of
                      (s, Some e) \<Rightarrow> (a\<lparr>a_session := s\<rparr>, st1, [], Failed (wrap_err ''persisting branch summary: '' e))
                    | (s, None) \<Rightarrow> (a\<lparr>a_session := s\<rparr>, st1,
                        if h_AfterCompact (a_hooks a) then [(sid, bs)] else [],
                        Returned (Some (bs, cp_cutIdx prep))))))))"

section \<open>Lemmas on the retries\<close>

lemma backoff_loop_min:
  "0 < d \<Longrightarrow> mx \<le> 2 ^ 62 \<Longrightarrow> min mx (backoff_loop n mx d) = min mx (d * 2 ^ n)"
proof (induction n arbitrary: d)
  case (Suc n)
  show ?case
  proof (cases "d < mx")
    case True
    then have "wrap64 (d * 2) = d * 2" using Suc.prems by (intro wrap64_id) auto
    then show ?thesis using True Suc.IH [of "d * 2"] Suc.prems by (simp add: mult.assoc)
  next
    case False
    have "d * 1 \<le> d * 2 ^ Suc n" using Suc.prems one_le_power [of "2 :: int" "Suc n"] by (intro mult_left_mono) simp_all
    then show ?thesis using False by (simp add: min_def)
  qed
qed simp

text \<open>The request of one summarization call, and what its \<open>k\<close>th answer amounts to.\<close>

definition summary_request :: "string \<Rightarrow> Message list \<Rightarrow> llm_request" where
  "summary_request modelID msgs = \<lparr>rq_Model = modelID, rq_Messages = DefaultConvertToLLM msgs\<rparr>"

definition once_result :: "sum_env \<Rightarrow> llm_request \<Rightarrow> nat \<Rightarrow> (string \<times> Usage option) + err" where
  "once_result E req k = sum_result (se_Answer E k req)"

definition fails_transiently :: "sum_env \<Rightarrow> llm_request \<Rightarrow> nat \<Rightarrow> bool" where
  "fails_transiently E req k \<longleftrightarrow> (\<exists>e. once_result E req k = Inr e \<and> isTransientSummarizationError e)"

lemma summarizeOnce_eq:
  "summarizeOnce E modelID msgs st =
     (st\<lparr>ss_Calls := ss_Calls st @ [summary_request modelID msgs]\<rparr>,
      once_result E (summary_request modelID msgs) (length (ss_Calls st)))"
  by (simp add: summarizeOnce_def summary_request_def once_result_def Let_def)

lemma notify_fields [simp]:
  "ss_Calls (notifySummarizationRetry hook c st) = ss_Calls st"
  "ss_Sleeps (notifySummarizationRetry hook c st) = ss_Sleeps st"
  "ss_Hooks (notifySummarizationRetry hook c st) = ss_Hooks st @ (if hook then [c] else [])"
  by (simp_all add: notifySummarizationRetry_def)

text \<open>
  The lifecycle calls of the retries \<open>a\<close> to \<open>b\<close>, of which the last may be aborted in its wait: each is
  scheduled and started, and one call says that the last has finished.
\<close>

definition phases :: "SummarizationRetryCtx list \<Rightarrow> (SummarizationRetryPhase \<times> int) list" where
  "phases cs = map (\<lambda>c. (rc_Phase c, rc_Attempt c)) cs"

definition attempt_phases :: "int \<Rightarrow> (SummarizationRetryPhase \<times> int) list" where
  "attempt_phases k = [(SummarizationRetryScheduled, k), (SummarizationRetryAttemptStart, k)]"

definition lifecycle :: "int \<Rightarrow> int \<Rightarrow> bool \<Rightarrow> (SummarizationRetryPhase \<times> int) list" where
  "lifecycle a b aborted =
     concat (map attempt_phases [a..b - 1]) @
     (if aborted then [(SummarizationRetryScheduled, b)] else attempt_phases b) @ [(SummarizationRetryFinished, b)]"

lemma lifecycle_Cons: "a < b \<Longrightarrow> lifecycle a b ab = attempt_phases a @ lifecycle (a + 1) b ab"
  using upto_rec1 [of a "b - 1"] by (simp add: lifecycle_def)

lemma phases_simps [simp]:
  "phases (xs @ ys) = phases xs @ phases ys" "phases [] = []"
  "phases [retry_scheduled k mx d e] = [(SummarizationRetryScheduled, k)]"
  "phases [retry_start k] = [(SummarizationRetryAttemptStart, k)]"
  "phases [retry_finished k x] = [(SummarizationRetryFinished, k)]"
  by (simp_all add: phases_def retry_scheduled_def retry_start_def retry_finished_def)

definition retried :: "sum_env \<Rightarrow> bool \<Rightarrow> SummarizationRetryPolicy \<Rightarrow> llm_request \<Rightarrow> int \<Rightarrow> int \<Rightarrow> sum_state \<Rightarrow> sum_state \<Rightarrow>
    (string \<times> Usage option) + err \<Rightarrow> bool" where
  "retried E hook p req a b st st' r \<longleftrightarrow>
     ss_Sleeps st' = ss_Sleeps st @ map (backoff p) [a..b] \<and>
     (\<forall>k. length (ss_Calls st) \<le> k \<and> Suc k < length (ss_Calls st') \<longrightarrow> fails_transiently E req k) \<and>
     (\<exists>aborted. phases (ss_Hooks st') = phases (ss_Hooks st) @ (if hook then lifecycle a b aborted else []) \<and>
        (if aborted
         then ss_Calls st' = ss_Calls st @ replicate (nat (b - a)) req \<and>
           (\<exists>se. se_Sleep E (length (ss_Sleeps st') - 1) (backoff p b) = Some se \<and>
              r = Inr (wrap_err ''summarization retry wait: '' se)) \<and>
           (ss_Calls st \<noteq> ss_Calls st' \<longrightarrow> fails_transiently E req (length (ss_Calls st') - 1))
         else ss_Calls st' = ss_Calls st @ replicate (nat (b - a) + 1) req \<and>
           r = once_result E req (length (ss_Calls st') - 1) \<and>
           (\<forall>e. r = Inr e \<longrightarrow> rp_MaxRetries p \<le> b \<or> \<not> isTransientSummarizationError e)))"

lemma retry_loop_retried:
  assumes "retry_loop E hook p m msgs a e st = (st', r)"
  shows "\<exists>b \<ge> a. b \<le> max a (rp_MaxRetries p) \<and> retried E hook p (summary_request m msgs) a b st st' r"
  using assms
proof (induction E hook p m msgs a e st rule: retry_loop.induct)
  case (1 E hook p m msgs a e st)
  let ?req = "summary_request m msgs"
  let ?d = "backoff p a"
  let ?st1 = "notifySummarizationRetry hook (retry_scheduled a (rp_MaxRetries p) ?d e) st"
  obtain st2 w where s: "sleepCtx E ?d ?st1 = (st2, w)" by fastforce
  then have st2: "st2 = ?st1\<lparr>ss_Sleeps := ss_Sleeps st @ [?d]\<rparr>" "w = se_Sleep E (length (ss_Sleeps st)) ?d"
    by (simp_all add: sleepCtx_def)
  show ?case
  proof (cases w)
    case (Some se)
    with 1(2) s have "st' = notifySummarizationRetry hook (retry_finished a (Some e)) st2"
      "r = Inr (wrap_err ''summarization retry wait: '' se)"
      by (simp_all add: retry_loop.simps [of E hook p m msgs a e st] Let_def del: retry_loop.simps)
    then have "retried E hook p ?req a a st st' r"
      using Some st2 by (auto simp: retried_def lifecycle_def intro!: exI [of _ True])
    then show ?thesis by auto
  next
    case None
    let ?st3 = "notifySummarizationRetry hook (retry_start a) st2"
    obtain st4 q where o: "summarizeOnce E m msgs ?st3 = (st4, q)" by fastforce
    then have st4: "st4 = ?st3\<lparr>ss_Calls := ss_Calls st @ [?req]\<rparr>" "q = once_result E ?req (length (ss_Calls st))"
      using st2 by (simp_all add: summarizeOnce_eq)
    show ?thesis
    proof (cases "\<exists>e'. q = Inr e' \<and> \<not> (a \<ge> rp_MaxRetries p \<or> \<not> isTransientSummarizationError e')")
      case False
      then have "st' = notifySummarizationRetry hook (retry_finished a (case q of Inl x \<Rightarrow> None | Inr e' \<Rightarrow> Some e')) st4" "r = q"
        using 1(2) s None o
        by (auto simp: retry_loop.simps [of E hook p m msgs a e st] Let_def simp del: retry_loop.simps split: sum.splits if_splits)
      then have "retried E hook p ?req a a st st' r"
        using False st2 st4 by (auto simp: retried_def lifecycle_def attempt_phases_def intro!: exI [of _ False])
      then show ?thesis by auto
    next
      case True
      then obtain e' where e': "q = Inr e'" "a < rp_MaxRetries p" "isTransientSummarizationError e'" by auto
      then have "retry_loop E hook p m msgs (a + 1) e' st4 = (st', r)"
        using 1(2) s None o
        by (simp add: retry_loop.simps [of E hook p m msgs a e st] Let_def del: retry_loop.simps)
      then obtain b where b: "a + 1 \<le> b" "b \<le> max (a + 1) (rp_MaxRetries p)" "retried E hook p ?req (a + 1) b st4 st' r"
        using 1(1) [OF refl refl s [symmetric] None o [symmetric]] e' by force
      have up: "[a..b] = a # [a + 1..b]" using b(1) by (simp add: upto_rec1)
      have n: "nat (b - a) = Suc (nat (b - (a + 1)))" using b(1) by simp
      have ft: "fails_transiently E ?req (length (ss_Calls st))"
        using e' st4(2) by (simp add: fails_transiently_def)
      have c4: "ss_Calls st4 = ss_Calls st @ [?req]" "ss_Sleeps st4 = ss_Sleeps st @ [?d]"
        "phases (ss_Hooks st4) = phases (ss_Hooks st) @ (if hook then attempt_phases a else [])"
        using st4 st2 by (simp_all add: attempt_phases_def)
      from b(3) obtain aborted where ab: "phases (ss_Hooks st') = phases (ss_Hooks st4) @ (if hook then lifecycle (a + 1) b aborted else [])"
        "ss_Sleeps st' = ss_Sleeps st4 @ map (backoff p) [a + 1..b]"
        "\<forall>k. length (ss_Calls st4) \<le> k \<and> Suc k < length (ss_Calls st') \<longrightarrow> fails_transiently E ?req k"
        and out: "if aborted
         then ss_Calls st' = ss_Calls st4 @ replicate (nat (b - (a + 1))) ?req \<and>
           (\<exists>se. se_Sleep E (length (ss_Sleeps st') - 1) (backoff p b) = Some se \<and>
              r = Inr (wrap_err ''summarization retry wait: '' se)) \<and>
           (ss_Calls st4 \<noteq> ss_Calls st' \<longrightarrow> fails_transiently E ?req (length (ss_Calls st') - 1))
         else ss_Calls st' = ss_Calls st4 @ replicate (nat (b - (a + 1)) + 1) ?req \<and>
           r = once_result E ?req (length (ss_Calls st') - 1) \<and>
           (\<forall>e. r = Inr e \<longrightarrow> rp_MaxRetries p \<le> b \<or> \<not> isTransientSummarizationError e)"
        unfolding retried_def by blast
      have "fails_transiently E ?req k" if "length (ss_Calls st) \<le> k" "Suc k < length (ss_Calls st')" for k
        using that ab(3) ft c4(1) by (cases "k = length (ss_Calls st)") auto
      moreover have "ss_Sleeps st' = ss_Sleeps st @ map (backoff p) [a..b]" using ab(2) c4(2) up by simp
      moreover have "phases (ss_Hooks st') = phases (ss_Hooks st) @ (if hook then lifecycle a b aborted else [])"
        using ab(1) c4(3) b(1) lifecycle_Cons [of a b aborted] by simp
      moreover have "if aborted
         then ss_Calls st' = ss_Calls st @ replicate (nat (b - a)) ?req \<and>
           (\<exists>se. se_Sleep E (length (ss_Sleeps st') - 1) (backoff p b) = Some se \<and>
              r = Inr (wrap_err ''summarization retry wait: '' se)) \<and>
           (ss_Calls st \<noteq> ss_Calls st' \<longrightarrow> fails_transiently E ?req (length (ss_Calls st') - 1))
         else ss_Calls st' = ss_Calls st @ replicate (nat (b - a) + 1) ?req \<and>
           r = once_result E ?req (length (ss_Calls st') - 1) \<and>
           (\<forall>e. r = Inr e \<longrightarrow> rp_MaxRetries p \<le> b \<or> \<not> isTransientSummarizationError e)"
        using out c4(1) n ft by (auto split: if_splits)
      ultimately have "retried E hook p ?req a b st st' r" unfolding retried_def by blast
      then show ?thesis using b(1,2) e'(2) by (intro exI [of _ b]) auto
    qed
  qed
qed

section \<open>Compact and the store\<close>

lemma summarizeWithLLM_cases:
  assumes "summarizeWithLLM E a m msgs st = (st', r)"
  defines "p \<equiv> normalized (c_SummarizationRetry (a_config a))" and "req \<equiv> summary_request m msgs"
    and "hook \<equiv> h_OnSummarizationRetry (a_hooks a)"
  shows "(st' = st\<lparr>ss_Calls := ss_Calls st @ [req]\<rparr> \<and> r = once_result E req (length (ss_Calls st)) \<and>
      (\<forall>e. r = Inr e \<longrightarrow> rp_MaxRetries p = 0 \<or> \<not> isTransientSummarizationError e)) \<or>
    (rp_MaxRetries p \<noteq> 0 \<and> fails_transiently E req (length (ss_Calls st)) \<and>
     (\<exists>b \<ge> 1. b \<le> max 1 (rp_MaxRetries p) \<and>
        retried E hook p req 1 b (st\<lparr>ss_Calls := ss_Calls st @ [req]\<rparr>) st' r))"
proof (cases "once_result E req (length (ss_Calls st))")
  case (Inl x)
  then show ?thesis using assms by (auto simp: summarizeWithLLM_def summarizeOnce_eq Let_def)
next
  case (Inr e)
  show ?thesis
  proof (cases "rp_MaxRetries p = 0 \<or> \<not> isTransientSummarizationError e")
    case True
    then show ?thesis using assms Inr by (auto simp: summarizeWithLLM_def summarizeOnce_eq Let_def)
  next
    case False
    then have "retry_loop E hook p m msgs 1 e (st\<lparr>ss_Calls := ss_Calls st @ [req]\<rparr>) = (st', r)"
      using assms Inr by (simp add: summarizeWithLLM_def summarizeOnce_eq Let_def del: retry_loop.simps)
    from retry_loop_retried [OF this] show ?thesis
      using False Inr by (auto simp: fails_transiently_def req_def)
  qed
qed

text \<open>The stop reason of an answer is that of its last end event.\<close>

definition stop_reason :: "llm_answer \<Rightarrow> StopReason" where
  "stop_reason ans = foldl (\<lambda>s ev. case ev of SumMessageEnd x \<Rightarrow> x | _ \<Rightarrow> s) StopReasonNone (an_Events ans)"

lemma ac_Stop_foldl:
  "ac_Stop (foldl sum_event_step a evs) = foldl (\<lambda>s ev. case ev of SumMessageEnd x \<Rightarrow> x | _ \<Rightarrow> s) (ac_Stop a) evs"
  by (induction evs arbitrary: a) (simp_all add: sum_event_step_def Let_def split: sum_event.split)

lemma sum_result_truncated:
  assumes "stop_reason ans = StopReasonLength"
  shows "\<exists>e. sum_result ans = Inr e \<and> (an_Err ans = None \<longrightarrow> errors_is e ErrSummaryTruncated)"
  using assms by (auto simp: sum_result_def Let_def stop_reason_def ac_Stop_foldl errorf_w_def split: option.split)

lemma first_valid_less: "first_valid ms j = Some k \<Longrightarrow> k < j + length ms"
  by (induction ms j rule: first_valid.induct) (auto split: if_splits)

lemma findCutPoint_less: "msgs \<noteq> [] \<Longrightarrow> findCutPoint msgs keep < length msgs"
proof -
  assume ne: "msgs \<noteq> []"
  have "msgs \<noteq> [] \<Longrightarrow> n \<le> length msgs \<Longrightarrow> cut_walk msgs keep n t < length msgs" for n t
  proof (induction msgs keep n t rule: cut_walk.induct)
    case (2 msgs keep i tokens)
    then show ?case using first_valid_less [of "drop i msgs" i] by (auto simp: Let_def split: option.split)
  qed simp
  then show ?thesis using ne by (simp add: findCutPoint_def)
qed

lemma Compact_cases:
  assumes "Compact E R now opts a st = (a', st', hs, out)"
  defines "sid \<equiv> (if co_SessionID opts = [] then a_lastSessionID a else co_SessionID opts)"
  shows "(a' = a \<and> hs = [] \<and> (\<forall>x. out \<noteq> Returned (Some x))) \<or>
    (\<exists>msgs prep summary usage s e bs.
       \<not> isRunning a \<and> sid \<noteq> [] \<and>
       repo_Load R sid (a_session a) = Inl msgs \<and> prepareCompaction msgs (compact_settings a opts) = Some prep \<and>
       summarize E R sid prep a st = (st', Returned (summary, usage)) \<and>
       bs = \<lparr>bs_StartIdx = 0, bs_EndIdx = int (cp_cutIdx prep), bs_Summary = summary, bs_CreatedAt = now, bs_Usage = usage\<rparr> \<and>
       repo_AppendBranchSummary R sid bs (a_session a) = (s, e) \<and> a' = a\<lparr>a_session := s\<rparr> \<and>
       (case e of None \<Rightarrow> out = Returned (Some (bs, cp_cutIdx prep)) \<and> hs = (if h_AfterCompact (a_hooks a) then [(sid, bs)] else [])
        | Some x \<Rightarrow> out = Failed (wrap_err ''persisting branch summary: '' x) \<and> hs = []))"
proof -
  note u = assms(1) [unfolded Compact_def Let_def, folded sid_def]
  have *: ?thesis if "\<not> isRunning a" "sid \<noteq> []" "repo_Load R sid (a_session a) = Inl msgs"
      "prepareCompaction msgs (compact_settings a opts) = Some prep"
      "(case h_BeforeCompact (a_hooks a) of None \<Rightarrow> None | Some h \<Rightarrow> h sid (cp_cutIdx prep)) = None" for msgs prep
  proof -
    obtain st1 r where s: "summarize E R sid prep a st = (st1, r)" by fastforce
    show ?thesis
    proof (cases r)
      case (Returned x)
      obtain summary usage where x: "x = (summary, usage)" by fastforce
      obtain s' e where w: "repo_AppendBranchSummary R sid \<lparr>bs_StartIdx = 0, bs_EndIdx = int (cp_cutIdx prep),
          bs_Summary = summary, bs_CreatedAt = now, bs_Usage = usage\<rparr> (a_session a) = (s', e)" by fastforce
      show ?thesis
        by (rule disjI2, rule exI [of _ msgs], rule exI [of _ prep], rule exI [of _ summary], rule exI [of _ usage],
          rule exI [of _ s'], rule exI [of _ e], rule exI, intro conjI, rule that(1), rule that(2), rule that(3), rule that(4))
          (use u that s Returned x w in \<open>auto split: option.splits\<close>)
    next
      case (Failed e)
      then show ?thesis using u that s by auto
    next
      case Panicked
      then show ?thesis using u that s by auto
    qed
  qed
  show ?thesis
  proof (cases "isRunning a \<or> sid = []")
    case True
    then show ?thesis using u by (intro disjI1) (auto split: if_splits)
  next
    case False
    show ?thesis
    proof (cases "repo_Load R sid (a_session a)")
      case (Inr e)
      then show ?thesis using False u by auto
    next
      case (Inl msgs)
      show ?thesis
      proof (cases "prepareCompaction msgs (compact_settings a opts)")
        case None
        then show ?thesis using False Inl u by auto
      next
        case (Some prep)
        show ?thesis
        proof (cases "case h_BeforeCompact (a_hooks a) of None \<Rightarrow> None | Some h \<Rightarrow> h sid (cp_cutIdx prep)")
          case None
          then show ?thesis using * False Inl Some by blast
        next
          case (Some e)
          then show ?thesis using False Inl \<open>prepareCompaction _ _ = Some prep\<close> u
            by auto
        qed
      qed
    qed
  qed
qed

context session_repo
begin

text \<open>A compaction never touches a transcript, and what it stores is one summary of the prefix.\<close>

lemma Compact_stores:
  assumes "repo_Load R = load" "repo_AppendBranchSummary R = append_summary" "repo_LoadBranchSummaries R = load_summaries"
    and run: "Compact E R now opts a st = (a', st', hs, out)"
  defines "sid \<equiv> (if co_SessionID opts = [] then a_lastSessionID a else co_SessionID opts)"
  assumes ok: "okid sid" "okid j"
  shows "load j (a_session a') = load j (a_session a)"
    "out = Returned (Some (bs, n)) \<Longrightarrow> load_summaries sid (a_session a) = Inl old \<Longrightarrow> storable_summary bs \<Longrightarrow>
       load_summaries sid (a_session a') = Inl (old @ [norm_summary bs]) \<and>
       bs_StartIdx bs = 0 \<and> bs_EndIdx bs = int n \<and>
       (\<exists>msgs. load sid (a_session a) = Inl msgs \<and> 0 < n \<and> n < length msgs)"
proof -
  note c = Compact_cases [OF run, folded sid_def, unfolded assms(1-3)]
  show "load j (a_session a') = load j (a_session a)"
    using c load_append_summary [OF ok] by auto
  assume out: "out = Returned (Some (bs, n))" "load_summaries sid (a_session a) = Inl old" "storable_summary bs"
  from c out(1) obtain msgs prep s where m: "load sid (a_session a) = Inl msgs"
      "prepareCompaction msgs (compact_settings a opts) = Some prep" "append_summary sid bs (a_session a) = (s, None)"
      "a' = a\<lparr>a_session := s\<rparr>" "n = cp_cutIdx prep" "bs_StartIdx bs = 0" "bs_EndIdx bs = int n"
    by (auto split: option.splits)
  show "load_summaries sid (a_session a') = Inl (old @ [norm_summary bs]) \<and>
       bs_StartIdx bs = 0 \<and> bs_EndIdx bs = int n \<and>
       (\<exists>msgs. load sid (a_session a) = Inl msgs \<and> 0 < n \<and> n < length msgs)"
    proof -
    have "msgs \<noteq> []" using m(2) by (auto simp: prepareCompaction_def)
    from findCutPoint_less [OF this] have "0 < n \<and> n < length msgs"
      using m(5) prepareCompaction_Some(2,3) [OF m(2)] by simp
    then show ?thesis using summaries_append_summary [OF ok(1) m(3) out(2,3)] m by simp
  qed
qed

end

section \<open>Properties\<close>

text \<open>
  C31
  A summary costs at most one call more than the configured retries, all of them the same request;
  every call but the last failed transiently, so a fatal error, an overflow, a truncated summary or
  a cancellation is never retried. The waits are those of the policy, in order; the result is that
  of the last call, or the error that ended a wait. The hook sees each retry scheduled and started
  and one final call, and sees nothing when there was no retry.
\<close>

theorem summarize_retry_protocol:
  assumes "summarizeWithLLM E a m msgs st = (st', r)" "0 \<le> rp_MaxRetries (c_SummarizationRetry (a_config a))"
  defines "p \<equiv> normalized (c_SummarizationRetry (a_config a))" and "req \<equiv> summary_request m msgs"
  shows "\<exists>n b aborted. n \<le> nat (rp_MaxRetries p) \<and> 0 \<le> b \<and> b \<le> rp_MaxRetries p \<and>
     ss_Calls st' = ss_Calls st @ replicate (Suc n) req \<and>
     (\<forall>k < n. fails_transiently E req (length (ss_Calls st) + k)) \<and>
     ss_Sleeps st' = ss_Sleeps st @ map (backoff p) [1..b] \<and>
     phases (ss_Hooks st') = phases (ss_Hooks st) @
       (if h_OnSummarizationRetry (a_hooks a) \<and> 1 \<le> b then lifecycle 1 b aborted else []) \<and>
     (if aborted then 1 \<le> b \<and> int n = b - 1 \<and> fails_transiently E req (length (ss_Calls st) + n) \<and>
        (\<exists>e. se_Sleep E (length (ss_Sleeps st') - 1) (backoff p b) = Some e \<and>
              r = Inr (wrap_err ''summarization retry wait: '' e))
      else int n = b \<and> r = once_result E req (length (ss_Calls st) + n) \<and>
        (b < rp_MaxRetries p \<longrightarrow> \<not> fails_transiently E req (length (ss_Calls st) + n)))"
proof -
  have mx: "rp_MaxRetries p = rp_MaxRetries (c_SummarizationRetry (a_config a))" by (simp add: p_def normalized_def)
  let ?c = "length (ss_Calls st)"
  consider "st' = st\<lparr>ss_Calls := ss_Calls st @ [req]\<rparr>" "r = once_result E req ?c"
      "\<forall>e. r = Inr e \<longrightarrow> rp_MaxRetries p = 0 \<or> \<not> isTransientSummarizationError e"
    | b where "fails_transiently E req ?c" "1 \<le> b" "b \<le> rp_MaxRetries p"
      "retried E (h_OnSummarizationRetry (a_hooks a)) p req 1 b (st\<lparr>ss_Calls := ss_Calls st @ [req]\<rparr>) st' r"
    using summarizeWithLLM_cases [OF assms(1), folded p_def req_def] assms(2) mx by (force simp: max_def)
  then show ?thesis
  proof cases
    case 1
    then show ?thesis using assms(2) mx
      by (intro exI [of _ 0] exI [of _ False]) (auto simp: fails_transiently_def)
  next
    case (2 b)
    define s1 where "s1 = st\<lparr>ss_Calls := ss_Calls st @ [req]\<rparr>"
    have c1: "ss_Calls s1 = ss_Calls st @ [req]" "ss_Sleeps s1 = ss_Sleeps st" "ss_Hooks s1 = ss_Hooks st"
      by (simp_all add: s1_def)
    obtain ab where r: "ss_Sleeps st' = ss_Sleeps st @ map (backoff p) [1..b]"
      "\<forall>k. length (ss_Calls st @ [req]) \<le> k \<and> Suc k < length (ss_Calls st') \<longrightarrow> fails_transiently E req k"
      "phases (ss_Hooks st') = phases (ss_Hooks st) @ (if h_OnSummarizationRetry (a_hooks a) then lifecycle 1 b ab else [])"
      and o: "if ab
         then ss_Calls st' = (ss_Calls st @ [req]) @ replicate (nat (b - 1)) req \<and>
           (\<exists>se. se_Sleep E (length (ss_Sleeps st') - 1) (backoff p b) = Some se \<and>
              r = Inr (wrap_err ''summarization retry wait: '' se)) \<and>
           (ss_Calls st @ [req] \<noteq> ss_Calls st' \<longrightarrow> fails_transiently E req (length (ss_Calls st') - 1))
         else ss_Calls st' = (ss_Calls st @ [req]) @ replicate (nat (b - 1) + 1) req \<and>
           r = once_result E req (length (ss_Calls st') - 1) \<and>
           (\<forall>e. r = Inr e \<longrightarrow> rp_MaxRetries p \<le> b \<or> \<not> isTransientSummarizationError e)"
      using 2(4) [folded s1_def] unfolding retried_def c1 by blast
    define n where "n = nat (if ab then b - 1 else b)"
    have calls: "ss_Calls st' = ss_Calls st @ replicate (Suc n) req"
      using o 2(2) by (auto simp: n_def nat_diff_distrib replicate_app_Cons_same split: if_splits simp flip: replicate_Suc)
    have "fails_transiently E req (?c + k)" if "k < n" for k
      using r(2) 2(1) that calls by (cases k) auto
    moreover have "if ab then 1 \<le> b \<and> int n = b - 1 \<and> fails_transiently E req (?c + n) \<and>
        (\<exists>e. se_Sleep E (length (ss_Sleeps st') - 1) (backoff p b) = Some e \<and>
              r = Inr (wrap_err ''summarization retry wait: '' e))
      else int n = b \<and> r = once_result E req (?c + n) \<and>
        (b < rp_MaxRetries p \<longrightarrow> \<not> fails_transiently E req (?c + n))"
    proof (cases ab)
      case True
      then have "fails_transiently E req (?c + n)" using o 2(1,2) calls by (cases n) auto
      then show ?thesis using o True 2(2) by (simp add: n_def)
    next
      case False
      then show ?thesis using o calls 2(2) by (auto simp: n_def fails_transiently_def)
    qed
    ultimately show ?thesis using calls r(1,3) 2(2,3)
      by (intro exI [of _ n] exI [of _ b] exI [of _ ab]) (auto simp: n_def)
  qed
qed

text \<open>
  C10
  The wait before retry \<open>n\<close> is the base delay doubled \<open>n - 1\<close> times, capped: no doubling overflows as
  long as the cap is at most 2^62 nanoseconds (about 146 years). The normalized policy's delays are
  positive.
\<close>

theorem backoff_capped:
  assumes "1 \<le> n" "rp_MaxDelay (normalized p) \<le> 2 ^ 62"
  shows "backoff (normalized p) n = min (rp_MaxDelay (normalized p)) (rp_BaseDelay (normalized p) * 2 ^ nat (n - 1)) \<and>
    0 < backoff (normalized p) n"
proof -
  have pos: "0 < rp_BaseDelay (normalized p)" "0 < rp_MaxDelay (normalized p)"
    by (simp_all add: normalized_def DefaultSummarizationRetryBaseDelay_def DefaultSummarizationRetryMaxDelay_def)
  have "backoff (normalized p) n = min (rp_MaxDelay (normalized p))
      (backoff_loop (nat (n - 1)) (rp_MaxDelay (normalized p)) (rp_BaseDelay (normalized p)))"
    by (simp add: backoff_def Let_def min_def)
  then show ?thesis using backoff_loop_min [OF pos(1) assms(2)] pos by simp
qed

text \<open>
  When the output limit cuts off the provider's answer, the summary is never returned: the call
  fails, and unless the stream itself failed with something else, with the truncation error, after
  one call and without a retry.
\<close>

theorem truncated_summary_rejected:
  assumes "summarizeWithLLM E a m msgs st = (st', r)"
    "stop_reason (se_Answer E (length (ss_Calls st)) (summary_request m msgs)) = StopReasonLength"
    "an_Err (se_Answer E (length (ss_Calls st)) (summary_request m msgs)) = None"
  shows "\<exists>e. r = Inr e \<and> errors_is e ErrSummaryTruncated \<and> length (ss_Calls st') = Suc (length (ss_Calls st)) \<and>
    ss_Sleeps st' = ss_Sleeps st \<and> ss_Hooks st' = ss_Hooks st"
proof -
  obtain e where e: "once_result E (summary_request m msgs) (length (ss_Calls st)) = Inr e" "errors_is e ErrSummaryTruncated"
    using sum_result_truncated [OF assms(2)] assms(3) by (auto simp: once_result_def)
  then have "\<not> isTransientSummarizationError e" by (simp add: isTransientSummarizationError_def)
  then have "r = Inr e" "st' = st\<lparr>ss_Calls := ss_Calls st @ [summary_request m msgs]\<rparr>"
    using assms(1) e(1) by (simp_all add: summarizeWithLLM_def summarizeOnce_eq Let_def)
  then show ?thesis using e(2) by simp
qed



section \<open>Witnesses\<close>

text \<open>
  A provider whose first answer fails with an ordinary error and whose later ones are empty, one that
  always answers, and one that runs into the output limit; an agent with two retries; a stored session of two messages.
\<close>

definition no_calls :: sum_state where
  "no_calls = \<lparr>ss_Calls = [], ss_Sleeps = [], ss_Hooks = []\<rparr>"

definition flaky_env :: sum_env where
  "flaky_env = \<lparr>se_Answer = (\<lambda>n req. if n = 0 then \<lparr>an_Events = [], an_Err = Some (errors_new ''timeout'')\<rparr>
      else \<lparr>an_Events = [], an_Err = None\<rparr>), se_Sleep = (\<lambda>n d. None)\<rparr>"

definition steady_env :: sum_env where
  "steady_env = \<lparr>se_Answer = (\<lambda>n req. \<lparr>an_Events = [], an_Err = None\<rparr>), se_Sleep = (\<lambda>n d. None)\<rparr>"

definition limit_env :: sum_env where
  "limit_env = \<lparr>se_Answer = (\<lambda>n req. \<lparr>an_Events = [SumTextDelta ''## Go'', SumMessageEnd StopReasonLength], an_Err = None\<rparr>),
      se_Sleep = (\<lambda>n d. None)\<rparr>"

definition retry_config :: AgentConfig where
  "retry_config = (config_defaults demo_config)\<lparr>c_SummarizationRetry := \<lparr>rp_MaxRetries = 2, rp_BaseDelay = 0, rp_MaxDelay = 0\<rparr>\<rparr>"

definition retry_agent :: "MemorySession Agent" where
  "retry_agent = (demo_agent (NewMemorySession ''2026-01-01T00:00:00Z'' ''0123456789abcdef''
       \<lparr>ms_sessions := [''s'' \<mapsto> [NewText ''user'' ''a'', NewText ''user'' ''b'']]\<rparr>))\<lparr>a_config := retry_config\<rparr>"

lemma retry_agent_fields:
  "a_config retry_agent = retry_config" "a_running retry_agent = 0" "a_hooks retry_agent = no_hooks"
  "ms_Load ''s'' (a_session retry_agent) = Inl [NewText ''user'' ''a'', NewText ''user'' ''b'']"
  "ms_LoadBranchSummaries ''s'' (a_session retry_agent) = Inl []"
  "c_Providers retry_config \<noteq> []" "c_DefaultModel retry_config = ''p/m''"
  "c_CompactionModelOverrides retry_config = []" "rp_MaxRetries (c_SummarizationRetry retry_config) = 2"
  by (simp_all add: retry_agent_def demo_agent_fields ms_Load_def ms_LoadBranchSummaries_def NewMemorySession_def map_slice_def
      retry_config_def config_defaults_def demo_config_def Let_def)

theorem summarize_retry_protocol_witness:
  "length (ss_Calls (fst (summarizeWithLLM flaky_env retry_agent ''m'' [NewText ''user'' ''a''] no_calls))) \<le> 3"
proof -
  obtain st' r where r: "summarizeWithLLM flaky_env retry_agent ''m'' [NewText ''user'' ''a''] no_calls = (st', r)" by fastforce
  have "\<exists>n \<le> 2. length (ss_Calls st') = Suc n"
    using summarize_retry_protocol [OF r] retry_agent_fields(1,9)
    by (auto simp: normalized_def no_calls_def)
  then show ?thesis using r by auto
qed

theorem backoff_capped_witness:
  "backoff (normalized \<lparr>rp_MaxRetries = 9, rp_BaseDelay = 0, rp_MaxDelay = 0\<rparr>) 3 = 4 * 1000000000 \<and>
   backoff (normalized \<lparr>rp_MaxRetries = 9, rp_BaseDelay = 0, rp_MaxDelay = 0\<rparr>) 9 = 60 * 1000000000"
  using backoff_capped [of 3 "\<lparr>rp_MaxRetries = 9, rp_BaseDelay = 0, rp_MaxDelay = 0\<rparr>"]
    backoff_capped [of 9 "\<lparr>rp_MaxRetries = 9, rp_BaseDelay = 0, rp_MaxDelay = 0\<rparr>"]
  by (simp add: normalized_def DefaultSummarizationRetryBaseDelay_def DefaultSummarizationRetryMaxDelay_def)

theorem truncated_summary_rejected_witness:
  "\<exists>e. snd (summarizeWithLLM limit_env retry_agent ''m'' [NewText ''user'' ''a''] no_calls) = Inr e \<and>
     errors_is e ErrSummaryTruncated"
proof -
  obtain st' r where r: "summarizeWithLLM limit_env retry_agent ''m'' [NewText ''user'' ''a''] no_calls = (st', r)" by fastforce
  show ?thesis using truncated_summary_rejected [OF r] r
    by (auto simp: limit_env_def stop_reason_def)
qed

lemma demo_prepareCompaction:
  "prepareCompaction [NewText ''user'' ''a'', NewText ''user'' ''b''] (compact_settings retry_agent \<lparr>co_KeepRecentTokens = 1, co_SessionID = ''s''\<rparr>)
     = Some \<lparr>cp_cutIdx = 1, cp_prefix = [NewText ''user'' ''a''], cp_keptTail = [NewText ''user'' ''b'']\<rparr>"
proof -
  have k: "cs_KeepRecentTokens (compact_settings retry_agent \<lparr>co_KeepRecentTokens = 1, co_SessionID = ''s''\<rparr>) = 1"
    by (simp add: compact_settings_def)
  have t: "m_Type (NewText ''user'' s) = ''text''" for s by (simp add: NewText_def mk_message_def)
  have "1 \<le> estimateMessageTokens (NewText ''user'' ''b'')"
    by (simp add: estimateMessageTokens_def message_chars_def NewText_def mk_message_def)
  then have "findCutPoint [NewText ''user'' ''a'', NewText ''user'' ''b''] 1 = 1"
    using t by (simp add: findCutPoint_def Let_def isValidCutPoint_def numeral_2_eq_2)
  then show ?thesis using k t by (simp add: prepareCompaction_def)
qed

lemma demo_Compact:
  "\<exists>a' st' hs bs. Compact steady_env ms_repo now \<lparr>co_KeepRecentTokens = 1, co_SessionID = ''s''\<rparr> retry_agent no_calls
     = (a', st', hs, Returned (Some (bs, 1)))"
proof -
  have "parseModelRef ''p/m'' = Inl (''p'', ''m'')" using parseModelRef_ok [of "''p''" "''m''"] by simp
  moreover have "m_Type (NewText ''user'' ''a'') = ''text''" by (simp add: NewText_def mk_message_def)
  moreover have "summarizeWithLLM steady_env retry_agent m msgs st
      = (st\<lparr>ss_Calls := ss_Calls st @ [summary_request m msgs]\<rparr>, Inl (trim_space [], None))" for m msgs st
    by (simp add: summarizeWithLLM_def summarizeOnce_eq Let_def once_result_def steady_env_def sum_result_def)
  ultimately have "summarize steady_env ms_repo ''s'' \<lparr>cp_cutIdx = 1, cp_prefix = [NewText ''user'' ''a''], cp_keptTail = [NewText ''user'' ''b'']\<rparr>
      retry_agent no_calls = (no_calls\<lparr>ss_Calls := [summary_request ''m'' (summary_messages [] [NewText ''user'' ''a''])]\<rparr>,
        Returned (trim_space [], None))"
    using retry_agent_fields(4-7) by (simp add: summarize_def retry_agent_fields(1) ms_repo_def no_calls_def)
  then show ?thesis
    using retry_agent_fields(4) demo_prepareCompaction
    by (simp add: Compact_def Let_def isRunning_def retry_agent_fields(1-3) ms_repo_def no_hooks_def ms_AppendBranchSummary_def)
qed


end
