(* ===== verification/Prompt_Run.thy ===== *)
theory Prompt_Run
  imports Agent_Config
begin

text \<open>
  The state of one prompt (prompt.go, \<open>promptRun\<close>) and its primitive operations: emitting events,
  reading and extending the transcript, draining the queued tool changes, finishing. The events
  channel delivers an event or, when its buffer stays full, drops it: which of the two happens to the
  \<open>n\<close>th event is the field \<open>r_accept\<close>; all that was emitted before the channel was closed is kept in
  \<open>r_emitted\<close>. A context is its cause of cancellation, if it is cancelled. Times are not modelled.
\<close>

section \<open>Events and phases\<close>

datatype AgentEvent =
    AgentStartEvent
  | AgentEndEvent "Message list"
  | MessageStartEvent string string
  | MessageEndEvent "Message option"
  | TurnStartEvent int
  | TurnEndEvent int
  | TextDeltaEvent string string
  | ThinkingDeltaEvent string string
  | ToolCallStartEvent string string "string option" string
  | ToolCallEndEvent string string ToolResult
  | ToolUpdateEvent string string ToolResult
  | ToolErrorEvent string string err
  | LLMErrorEvent err bool
  | LLMRetryEvent string string int int string bool
  | ThinkingUnsupportedEvent ThinkingLevel string string string
  | ToolLeakEvent string string
  | SteerInjectedEvent Message
  | FollowUpInjectedEvent Message

datatype AgentPhase =
    PhaseIdle | PhaseWaitingLLM | PhaseExecutingTools | PhaseCompacting | PhaseShuttingDown | PhaseDone

record PromptResult =
  res_Messages :: "Message list"
  res_Err :: "err option"
  res_Suspended :: bool

record promptRun =
  r_optModel :: string
  r_optThinking :: ThinkingLevel
  r_providerHints :: string
  r_model :: string
  r_thinking :: ThinkingLevel
  r_sessionID :: string
  r_phase :: AgentPhase
  r_turn :: int
  r_transcript :: "Message list"
  r_branchSummaries :: "BranchSummary list"
  r_lastEvent :: "AgentEvent option"
  r_terminated :: bool
  r_suspended :: bool
  r_emitted :: "AgentEvent list"
  r_delivered :: "AgentEvent list"
  r_accept :: "nat \<Rightarrow> bool"
  r_eventsClosed :: bool
  r_done :: "PromptResult list"
  r_doneClosed :: bool
  r_steerCh :: "Message list"
  r_followUpCh :: "Message list"
  r_ctx :: "err option"

section \<open>Primitive operations\<close>

definition setPhase :: "AgentPhase \<Rightarrow> promptRun \<Rightarrow> promptRun" where
  "setPhase p r = r\<lparr>r_phase := p\<rparr>"

definition setSuspended :: "promptRun \<Rightarrow> promptRun" where
  "setSuspended r = r\<lparr>r_suspended := True\<rparr>"

definition emit :: "AgentEvent \<Rightarrow> promptRun \<Rightarrow> promptRun" where
  "emit ev r =
     (if r_eventsClosed r then r
      else r\<lparr>r_lastEvent := Some ev, r_emitted := r_emitted r @ [ev],
             r_delivered := (if r_accept r (length (r_emitted r)) then r_delivered r @ [ev] else r_delivered r)\<rparr>)"

definition emit_all :: "AgentEvent list \<Rightarrow> promptRun \<Rightarrow> promptRun" where
  "emit_all evs r = fold emit evs r"

definition closeEvents :: "promptRun \<Rightarrow> promptRun" where
  "closeEvents r = r\<lparr>r_eventsClosed := True\<rparr>"

text \<open>First cause wins.\<close>

definition cancel :: "err \<Rightarrow> promptRun \<Rightarrow> promptRun" where
  "cancel cause r = (case r_ctx r of None \<Rightarrow> r\<lparr>r_ctx := Some cause\<rparr> | Some _ \<Rightarrow> r)"

definition finish :: "err option \<Rightarrow> promptRun \<Rightarrow> promptRun" where
  "finish e r =
     (let r1 = setPhase PhaseDone r;
          msgs = r_transcript r1;
          r2 = emit (AgentEndEvent msgs) r1
      in r2\<lparr>r_done := r_done r2 @ [\<lparr>res_Messages = msgs, res_Err = e, res_Suspended = r_suspended r2\<rparr>]\<rparr>)"

text \<open>The classification of a terminal error; \<open>None\<close>: not a cancellation.\<close>

definition asCancellation :: "err \<Rightarrow> err option" where
  "asCancellation e =
     (if errors_is e ErrAgentStopped then Some (sentinel_err ErrAgentStopped)
      else if errors_is e ErrPromptCancelled \<or> errors_is e CtxCanceled then Some (sentinel_err ErrPromptCancelled)
      else None)"

definition cancellation_cause :: "err \<Rightarrow> err" where
  "cancellation_cause e = (case asCancellation e of Some c \<Rightarrow> c | None \<Rightarrow> e)"

definition loadTranscript :: "'s SessionRepo \<Rightarrow> 's Agent \<Rightarrow> promptRun \<Rightarrow> promptRun \<times> err option" where
  "loadTranscript R a r =
     (case repo_Load R (r_sessionID r) (a_session a) of
        Inr e \<Rightarrow> (r, Some e)
      | Inl msgs \<Rightarrow>
          (case repo_LoadBranchSummaries R (r_sessionID r) (a_session a) of
             Inr e \<Rightarrow> (r, Some e)
           | Inl summaries \<Rightarrow> (r\<lparr>r_transcript := msgs, r_branchSummaries := summaries\<rparr>, None)))"

definition appendTranscript :: "'s SessionRepo \<Rightarrow> Message list \<Rightarrow> 's Agent \<times> promptRun \<Rightarrow> ('s Agent \<times> promptRun) \<times> err option" where
  "appendTranscript R msgs ar =
     (case ar of (a, r) \<Rightarrow>
        case repo_Append R (r_sessionID r) msgs (a_session a) of
          (s, Some e) \<Rightarrow> ((a\<lparr>a_session := s\<rparr>, r), Some e)
        | (s, None) \<Rightarrow> ((a\<lparr>a_session := s\<rparr>, r\<lparr>r_transcript := r_transcript r @ msgs\<rparr>), None))"

text \<open>Messages appended one at a time, up to the first failure.\<close>

fun append_each :: "'s SessionRepo \<Rightarrow> Message list \<Rightarrow> 's Agent \<times> promptRun \<Rightarrow> ('s Agent \<times> promptRun) \<times> err option" where
  "append_each R [] ar = (ar, None)"
| "append_each R (m # ms) ar =
     (case appendTranscript R [m] ar of (ar', None) \<Rightarrow> append_each R ms ar' | (ar', Some e) \<Rightarrow> (ar', Some e))"

definition flushPendingActiveTools :: "'s SessionRepo \<Rightarrow> 's Agent \<times> promptRun \<Rightarrow> ('s Agent \<times> promptRun) \<times> err option" where
  "flushPendingActiveTools R ar =
     (case ar of (a, r) \<Rightarrow>
        append_each R (map NewActiveToolsChange (a_pendingActiveTools a)) (a\<lparr>a_pendingActiveTools := []\<rparr>, r))"

section \<open>Snapshots of the state\<close>

record AgentState =
  st_Phase :: AgentPhase
  st_ActiveModel :: string
  st_Thinking :: "ThinkingLevel option"
  st_SessionID :: string
  st_TurnNumber :: int
  st_TranscriptLen :: nat
  st_LastEvent :: "AgentEvent option"

definition run_state :: "promptRun \<Rightarrow> AgentState" where
  "run_state r = \<lparr>st_Phase = r_phase r, st_ActiveModel = r_model r, st_Thinking = Some (r_thinking r),
     st_SessionID = r_sessionID r, st_TurnNumber = r_turn r, st_TranscriptLen = length (r_transcript r),
     st_LastEvent = None\<rparr>"

section \<open>Lemmas\<close>

text \<open>What the operations leave alone; the log is the part of a run that events and transcript make up.\<close>

lemma setPhase_simps [simp]:
  "r_transcript (setPhase p r) = r_transcript r" "r_emitted (setPhase p r) = r_emitted r"
  "r_sessionID (setPhase p r) = r_sessionID r" "r_done (setPhase p r) = r_done r" "r_turn (setPhase p r) = r_turn r"
  "r_eventsClosed (setPhase p r) = r_eventsClosed r" "r_ctx (setPhase p r) = r_ctx r"
  "r_suspended (setPhase p r) = r_suspended r" "r_terminated (setPhase p r) = r_terminated r"
  "r_doneClosed (setPhase p r) = r_doneClosed r" "r_delivered (setPhase p r) = r_delivered r"
  "r_accept (setPhase p r) = r_accept r" "r_branchSummaries (setPhase p r) = r_branchSummaries r"
  "r_steerCh (setPhase p r) = r_steerCh r" "r_followUpCh (setPhase p r) = r_followUpCh r" "r_phase (setPhase p r) = p"
  "r_model (setPhase p r) = r_model r" "r_thinking (setPhase p r) = r_thinking r" "r_optModel (setPhase p r) = r_optModel r"
  "r_optThinking (setPhase p r) = r_optThinking r" "r_providerHints (setPhase p r) = r_providerHints r"
  by (simp_all add: setPhase_def)

lemma emit_simps [simp]:
  "r_transcript (emit ev r) = r_transcript r" "r_sessionID (emit ev r) = r_sessionID r" "r_done (emit ev r) = r_done r"
  "r_turn (emit ev r) = r_turn r" "r_eventsClosed (emit ev r) = r_eventsClosed r" "r_ctx (emit ev r) = r_ctx r"
  "r_suspended (emit ev r) = r_suspended r" "r_terminated (emit ev r) = r_terminated r"
  "r_doneClosed (emit ev r) = r_doneClosed r" "r_accept (emit ev r) = r_accept r" "r_phase (emit ev r) = r_phase r"
  "r_branchSummaries (emit ev r) = r_branchSummaries r"
  "r_steerCh (emit ev r) = r_steerCh r" "r_followUpCh (emit ev r) = r_followUpCh r"
  "r_model (emit ev r) = r_model r" "r_thinking (emit ev r) = r_thinking r" "r_optModel (emit ev r) = r_optModel r"
  "r_optThinking (emit ev r) = r_optThinking r" "r_providerHints (emit ev r) = r_providerHints r"
  by (simp_all add: emit_def)

lemma emitted_emit [simp]:
  "r_emitted (emit ev r) = (if r_eventsClosed r then r_emitted r else r_emitted r @ [ev])"
  by (simp add: emit_def)

lemma delivered_emit:
  "subseq (r_delivered r) (r_emitted r) \<Longrightarrow> subseq (r_delivered (emit ev r)) (r_emitted (emit ev r))"
  by (auto simp: emit_def intro: list_emb_append_mono)

lemma setSuspended_simps [simp]:
  "r_transcript (setSuspended r) = r_transcript r" "r_emitted (setSuspended r) = r_emitted r"
  "r_sessionID (setSuspended r) = r_sessionID r" "r_done (setSuspended r) = r_done r" "r_turn (setSuspended r) = r_turn r"
  "r_eventsClosed (setSuspended r) = r_eventsClosed r" "r_ctx (setSuspended r) = r_ctx r"
  "r_doneClosed (setSuspended r) = r_doneClosed r" "r_terminated (setSuspended r) = r_terminated r"
  "r_suspended (setSuspended r)" "r_branchSummaries (setSuspended r) = r_branchSummaries r"
  by (simp_all add: setSuspended_def)

lemma finish_simps [simp]:
  "r_transcript (finish e r) = r_transcript r" "r_sessionID (finish e r) = r_sessionID r" "r_turn (finish e r) = r_turn r"
  "r_eventsClosed (finish e r) = r_eventsClosed r" "r_ctx (finish e r) = r_ctx r" "r_doneClosed (finish e r) = r_doneClosed r"
  "r_phase (finish e r) = PhaseDone" "r_terminated (finish e r) = r_terminated r" "r_suspended (finish e r) = r_suspended r"
  "r_emitted (finish e r) = (if r_eventsClosed r then r_emitted r else r_emitted r @ [AgentEndEvent (r_transcript r)])"
  "r_done (finish e r) = r_done r @ [\<lparr>res_Messages = r_transcript r, res_Err = e, res_Suspended = r_suspended r\<rparr>]"
  by (simp_all add: finish_def Let_def)

text \<open>Appending changes the store and the transcript, and nothing else.\<close>

definition same_but_log :: "'s Agent \<times> promptRun \<Rightarrow> 's Agent \<times> promptRun \<Rightarrow> bool" where
  "same_but_log ar ar' \<longleftrightarrow>
     (\<exists>s ms. fst ar' = fst ar\<lparr>a_session := s\<rparr> \<and> snd ar' = snd ar\<lparr>r_transcript := r_transcript (snd ar) @ ms\<rparr>)"

lemma same_but_log_refl [simp]: "same_but_log ar ar"
  by (auto simp: same_but_log_def intro!: exI [of _ "a_session (fst ar)"] exI [of _ "[]"])

lemma same_but_log_trans: "same_but_log x y \<Longrightarrow> same_but_log y z \<Longrightarrow> same_but_log x z"
  by (fastforce simp: same_but_log_def)

lemma appendTranscript_log: "appendTranscript R ms ar = (ar', e) \<Longrightarrow> same_but_log ar ar'"
  by (cases ar) (auto simp: appendTranscript_def same_but_log_def split: prod.splits option.splits intro: exI [of _ "[]"])

lemma append_each_log: "append_each R ms ar = (ar', e) \<Longrightarrow> same_but_log ar ar'"
proof (induction ms arbitrary: ar)
  case (Cons m ms)
  obtain y x where y: "appendTranscript R [m] ar = (y, x)" by fastforce
  show ?case
  proof (cases x)
    case None
    then have "same_but_log y ar'" using Cons.IH [of y] Cons.prems y by simp
    then show ?thesis using same_but_log_trans [OF appendTranscript_log [OF y]] by blast
  next
    case (Some z)
    then show ?thesis using Cons.prems y appendTranscript_log [OF y] by simp
  qed
qed simp

end
