(* ===== verification/Tool_Batch.thy ===== *)
theory Tool_Batch
  imports Prompt_Run
begin

text \<open>
  The parallel execution of one turn's tool calls (prompt.go, \<open>executeTools\<close> and \<open>toolBatch\<close>): one
  goroutine per runnable call, at most \<open>MaxParallelTools\<close> of them past the semaphore. A step of call
  \<open>i\<close> is one of its goroutine's actions: to pass the semaphore and start the tool, to emit a partial
  result, to record the result, and to emit the end event and leave. Calls take steps in any order.
\<close>

section \<open>Prepared calls and outcomes\<close>

record ToolCall =
  tcc_CallID :: string
  tcc_ToolName :: string
  tcc_Args :: "string option"
  tcc_ThoughtSignature :: string

record preparedCall =
  p_callID :: string
  p_name :: string
  p_args :: "string option"
  p_tool :: "RegisteredTool option"
  p_immediate :: bool
  p_err :: "err option"

record toolOutcome =
  o_callID :: string
  o_name :: string
  o_result :: ToolResult
  o_err :: "err option"

definition zero_outcome :: toolOutcome where
  "zero_outcome = \<lparr>o_callID = [], o_name = [], o_result = zero_result, o_err = None\<rparr>"

definition error_result :: "err \<Rightarrow> ToolResult" where
  "error_result e = zero_result\<lparr>tr_Content := err_msg e, tr_IsError := True\<rparr>"

text \<open>The hook sees a copy of the arguments: what it gets is what runs.\<close>

definition prepareToolCall :: "Hooks \<Rightarrow> RegisteredTool list \<Rightarrow> ToolCall \<Rightarrow> AgentEvent list \<times> preparedCall" where
  "prepareToolCall hooks tools tc =
     (let fail = (\<lambda>e. ([ToolErrorEvent (tcc_CallID tc) (tcc_ToolName tc) e],
             \<lparr>p_callID = tcc_CallID tc, p_name = tcc_ToolName tc, p_args = None, p_tool = None,
              p_immediate = True, p_err = Some e\<rparr>))
      in case findTool tools (tcc_ToolName tc) of
        None \<Rightarrow> fail (sentinel_err ErrToolNotFound)
      | Some tool \<Rightarrow>
          (case (case h_BeforeToolCall hooks of None \<Rightarrow> None
                 | Some h \<Rightarrow> h (tcc_CallID tc) (tcc_ToolName tc) (tcc_Args tc)) of
             Some e \<Rightarrow> fail e
           | None \<Rightarrow> ([], \<lparr>p_callID = tcc_CallID tc, p_name = tcc_ToolName tc, p_args = tcc_Args tc,
                 p_tool = Some tool, p_immediate = False, p_err = None\<rparr>)))"

text \<open>The tool's run, and what becomes of its result: an error, its own or the hook's, is an error result.\<close>

definition run_prepared :: "preparedCall \<Rightarrow> ToolResult list \<times> tool_return" where
  "run_prepared p =
     (case p_tool p of Some t \<Rightarrow> run_tool t (p_callID p) (p_args p) | None \<Rightarrow> ([], (zero_result, None)))"

definition final_result :: "Hooks \<Rightarrow> preparedCall \<Rightarrow> tool_return \<Rightarrow> ToolResult" where
  "final_result hooks p ret =
     (let res = (case ret of (res, None) \<Rightarrow> res | (_, Some e) \<Rightarrow> error_result e)
      in case h_AfterToolCall hooks of
           None \<Rightarrow> res
         | Some h \<Rightarrow> (case h (p_callID p) (p_name p) res of None \<Rightarrow> res | Some e \<Rightarrow> error_result e))"

section \<open>The batch\<close>

datatype call_state = CallImmediate | CallQueued | CallRunning "ToolResult list" tool_return | CallReturned ToolResult | CallLeft

record toolBatch =
  b_preps :: "preparedCall list"
  b_states :: "call_state list"
  b_results :: "toolOutcome list"
  b_completed :: "bool list"

definition start_batch :: "preparedCall list \<Rightarrow> toolBatch" where
  "start_batch preps =
     \<lparr>b_preps = preps,
      b_states = map (\<lambda>p. if p_immediate p then CallImmediate else CallQueued) preps,
      b_results = map (\<lambda>p. if p_immediate p
         then \<lparr>o_callID = p_callID p, o_name = p_name p, o_result = zero_result, o_err = p_err p\<rparr> else zero_outcome) preps,
      b_completed = map (\<lambda>p. False) preps\<rparr>"

definition holds_slot :: "call_state \<Rightarrow> bool" where
  "holds_slot c = (case c of CallRunning _ _ \<Rightarrow> True | CallReturned _ \<Rightarrow> True | _ \<Rightarrow> False)"

definition in_flight :: "toolBatch \<Rightarrow> nat" where
  "in_flight b = length (filter holds_slot (b_states b))"

definition slot_free :: "int \<Rightarrow> toolBatch \<Rightarrow> bool" where
  "slot_free mx b \<longleftrightarrow> mx = 0 \<or> int (in_flight b) < mx"

definition batch_act :: "int \<Rightarrow> Hooks \<Rightarrow> nat \<Rightarrow> toolBatch \<Rightarrow> (AgentEvent list \<times> toolBatch) option" where
  "batch_act mx hooks i b =
     (if length (b_states b) \<le> i then None
      else let p = b_preps b ! i in
        case b_states b ! i of
          CallImmediate \<Rightarrow> None
        | CallQueued \<Rightarrow>
            if slot_free mx b
            then Some ([], b\<lparr>b_states := (b_states b)[i := case run_prepared p of (ps, ret) \<Rightarrow> CallRunning ps ret]\<rparr>)
            else None
        | CallRunning (q # qs) ret \<Rightarrow>
            Some ([ToolUpdateEvent (p_callID p) (p_name p) q], b\<lparr>b_states := (b_states b)[i := CallRunning qs ret]\<rparr>)
        | CallRunning [] ret \<Rightarrow>
            (let res = final_result hooks p ret in
             Some ([], b\<lparr>b_states := (b_states b)[i := CallReturned res],
                        b_results := (b_results b)[i := \<lparr>o_callID = p_callID p, o_name = p_name p, o_result = res, o_err = None\<rparr>],
                        b_completed := (b_completed b)[i := True]\<rparr>))
        | CallReturned res \<Rightarrow>
            Some ([ToolCallEndEvent (p_callID p) (p_name p) res], b\<lparr>b_states := (b_states b)[i := CallLeft]\<rparr>)
        | CallLeft \<Rightarrow> None)"

definition batch_done :: "toolBatch \<Rightarrow> bool" where
  "batch_done b \<longleftrightarrow> list_all (\<lambda>c. c = CallImmediate \<or> c = CallLeft) (b_states b)"

text \<open>The calls declared leaked when the wait for them times out.\<close>

definition leaked_calls :: "toolBatch \<Rightarrow> preparedCall list" where
  "leaked_calls b = map fst (filter (\<lambda>x. \<not> p_immediate (fst x) \<and> \<not> snd x) (zip (b_preps b) (b_completed b)))"

text \<open>A schedule: which calls take a step, one after the other; the events carry the call's index.\<close>

inductive batch_run :: "int \<Rightarrow> Hooks \<Rightarrow> toolBatch \<Rightarrow> (nat \<times> AgentEvent) list \<Rightarrow> toolBatch \<Rightarrow> nat \<Rightarrow> bool" for mx hooks where
  batch_refl: "batch_run mx hooks b [] b 0"
| batch_step: "batch_run mx hooks b evs b1 n \<Longrightarrow> batch_act mx hooks i b1 = Some (es, b2) \<Longrightarrow>
     batch_run mx hooks b (evs @ map (Pair i) es) b2 (Suc n)"

section \<open>The invariant of a batch\<close>

definition call_outcome :: "Hooks \<Rightarrow> preparedCall \<Rightarrow> toolOutcome" where
  "call_outcome hooks p =
     (if p_immediate p then \<lparr>o_callID = p_callID p, o_name = p_name p, o_result = zero_result, o_err = p_err p\<rparr>
      else \<lparr>o_callID = p_callID p, o_name = p_name p, o_result = final_result hooks p (snd (run_prepared p)), o_err = None\<rparr>)"

definition call_events :: "Hooks \<Rightarrow> preparedCall \<Rightarrow> AgentEvent list" where
  "call_events hooks p =
     (if p_immediate p then []
      else map (ToolUpdateEvent (p_callID p) (p_name p)) (fst (run_prepared p))
             @ [ToolCallEndEvent (p_callID p) (p_name p) (final_result hooks p (snd (run_prepared p)))])"

text \<open>The events still to come, and the steps still to take, of a call in a given state.\<close>

fun events_left :: "Hooks \<Rightarrow> preparedCall \<Rightarrow> call_state \<Rightarrow> AgentEvent list" where
  "events_left hooks p CallImmediate = []"
| "events_left hooks p CallQueued = call_events hooks p"
| "events_left hooks p (CallRunning qs ret) = map (ToolUpdateEvent (p_callID p) (p_name p)) qs
     @ [ToolCallEndEvent (p_callID p) (p_name p) (final_result hooks p ret)]"
| "events_left hooks p (CallReturned res) = [ToolCallEndEvent (p_callID p) (p_name p) res]"
| "events_left hooks p CallLeft = []"

fun steps_left :: "preparedCall \<Rightarrow> call_state \<Rightarrow> nat" where
  "steps_left p CallImmediate = 0"
| "steps_left p CallQueued = length (fst (run_prepared p)) + 3"
| "steps_left p (CallRunning qs ret) = length qs + 2"
| "steps_left p (CallReturned res) = 1"
| "steps_left p CallLeft = 0"

text \<open>What is known of one call: \<open>out\<close> its recorded outcome, \<open>done\<close> its completion flag.\<close>

fun call_ok :: "Hooks \<Rightarrow> preparedCall \<Rightarrow> call_state \<Rightarrow> toolOutcome \<Rightarrow> bool \<Rightarrow> bool" where
  "call_ok hooks p CallImmediate out done \<longleftrightarrow> p_immediate p \<and> out = call_outcome hooks p \<and> \<not> done"
| "call_ok hooks p CallQueued out done \<longleftrightarrow> \<not> p_immediate p \<and> \<not> done"
| "call_ok hooks p (CallRunning qs ret) out done \<longleftrightarrow> \<not> p_immediate p \<and> \<not> done \<and> ret = snd (run_prepared p)"
| "call_ok hooks p (CallReturned res) out done \<longleftrightarrow>
     \<not> p_immediate p \<and> done \<and> out = call_outcome hooks p \<and> res = o_result out"
| "call_ok hooks p CallLeft out done \<longleftrightarrow> \<not> p_immediate p \<and> done \<and> out = call_outcome hooks p"

definition batch_ok :: "int \<Rightarrow> Hooks \<Rightarrow> toolBatch \<Rightarrow> bool" where
  "batch_ok mx hooks b \<longleftrightarrow>
     length (b_states b) = length (b_preps b) \<and> length (b_results b) = length (b_preps b) \<and>
     length (b_completed b) = length (b_preps b) \<and>
     (\<forall>i < length (b_preps b). call_ok hooks (b_preps b ! i) (b_states b ! i) (b_results b ! i) (b_completed b ! i)) \<and>
     (0 < mx \<longrightarrow> int (in_flight b) \<le> mx)"

definition batch_steps_left :: "toolBatch \<Rightarrow> nat" where
  "batch_steps_left b = (\<Sum>i < length (b_preps b). steps_left (b_preps b ! i) (b_states b ! i))"

lemma length_filter_update:
  "i < length xs \<Longrightarrow> length (filter P (xs[i := x])) + (if P (xs ! i) then 1 else 0) = length (filter P xs) + (if P x then 1 else 0)"
proof (induction xs arbitrary: i)
  case (Cons y ys)
  then show ?case by (cases i) auto
qed simp

lemma list_update_same: "xs ! i = x \<Longrightarrow> xs[i := x] = xs"
  by auto

lemma in_flight_update:
  "i < length (b_states b) \<Longrightarrow>
     in_flight (b\<lparr>b_states := (b_states b)[i := c]\<rparr>) + (if holds_slot (b_states b ! i) then 1 else 0)
       = in_flight b + (if holds_slot c then 1 else 0)"
  by (simp add: in_flight_def length_filter_update)

lemma in_flight_states: "b_states b = b_states b' \<Longrightarrow> in_flight b = in_flight b'"
  by (simp add: in_flight_def)

text \<open>Every action is an update of one call that keeps its invariant, takes one of its steps and emits its next events.\<close>

lemma batch_act_call:
  assumes ok: "batch_ok mx hooks b" and act: "batch_act mx hooks i b = Some (es, b')"
  obtains c out d where "i < length (b_preps b)"
    "b' = b\<lparr>b_states := (b_states b)[i := c], b_results := (b_results b)[i := out], b_completed := (b_completed b)[i := d]\<rparr>"
    "call_ok hooks (b_preps b ! i) c out d"
    "steps_left (b_preps b ! i) (b_states b ! i) = Suc (steps_left (b_preps b ! i) c)"
    "events_left hooks (b_preps b ! i) (b_states b ! i) = es @ events_left hooks (b_preps b ! i) c"
    "holds_slot c \<longrightarrow> holds_slot (b_states b ! i) \<or> slot_free mx b"
proof -
  have i: "i < length (b_states b)" using act by (auto simp: batch_act_def split: if_splits)
  then have len: "i < length (b_preps b)" "i < length (b_results b)" "i < length (b_completed b)"
    and c: "call_ok hooks (b_preps b ! i) (b_states b ! i) (b_results b ! i) (b_completed b ! i)"
    using ok by (auto simp: batch_ok_def)
  show thesis
  proof (cases "b_states b ! i")
    case CallImmediate
    then show thesis using act i by (simp add: batch_act_def)
  next
    case CallQueued
    obtain ps ret where r: "run_prepared (b_preps b ! i) = (ps, ret)" by (cases "run_prepared (b_preps b ! i)")
    from CallQueued act i have "slot_free mx b" "es = []" "b' = b\<lparr>b_states := (b_states b)[i := CallRunning ps ret]\<rparr>"
      by (auto simp: batch_act_def r split: if_splits)
    then show thesis using c CallQueued r
      by (intro that [where c = "CallRunning ps ret" and out = "b_results b ! i" and d = "b_completed b ! i"]) (use len in \<open>simp_all add: call_events_def list_update_same\<close>)
  next
    case (CallRunning qs ret)
    show thesis
    proof (cases qs)
      case Nil
      define res where "res = final_result hooks (b_preps b ! i) ret"
      define oc where "oc = \<lparr>o_callID = p_callID (b_preps b ! i), o_name = p_name (b_preps b ! i), o_result = res, o_err = None\<rparr>"
      from Nil CallRunning act i have "es = []" "b' = b\<lparr>b_states := (b_states b)[i := CallReturned res],
          b_results := (b_results b)[i := oc],
          b_completed := (b_completed b)[i := True]\<rparr>"
        by (auto simp: batch_act_def Let_def res_def oc_def)
      then show thesis using c CallRunning Nil
        by (intro that [where c = "CallReturned res" and out = oc and d = True]) (use len in \<open>simp_all add: call_outcome_def res_def oc_def holds_slot_def\<close>)
    next
      case (Cons q qs')
      from Cons CallRunning act i have "es = [ToolUpdateEvent (p_callID (b_preps b ! i)) (p_name (b_preps b ! i)) q]"
          "b' = b\<lparr>b_states := (b_states b)[i := CallRunning qs' ret]\<rparr>"
        by (auto simp: batch_act_def Let_def)
      then show thesis using c CallRunning Cons
        by (intro that [where c = "CallRunning qs' ret" and out = "b_results b ! i" and d = "b_completed b ! i"]) (use len in \<open>simp_all add: holds_slot_def list_update_same\<close>)
    qed
  next
    case (CallReturned res)
    from CallReturned act i have "es = [ToolCallEndEvent (p_callID (b_preps b ! i)) (p_name (b_preps b ! i)) res]"
        "b' = b\<lparr>b_states := (b_states b)[i := CallLeft]\<rparr>"
      by (auto simp: batch_act_def Let_def)
    then show thesis using c CallReturned
      by (intro that [where c = CallLeft and out = "b_results b ! i" and d = "b_completed b ! i"]) (use len in \<open>simp_all add: holds_slot_def list_update_same\<close>)
  next
    case CallLeft
    then show thesis using act i by (simp add: batch_act_def)
  qed
qed

lemma batch_act_ok:
  assumes ok: "batch_ok mx hooks b" and act: "batch_act mx hooks i b = Some (es, b')"
  shows "batch_ok mx hooks b'" "b_preps b' = b_preps b" "batch_steps_left b = Suc (batch_steps_left b')"
    "j < length (b_preps b) \<Longrightarrow> events_left hooks (b_preps b ! j) (b_states b ! j)
       = (if j = i then es else []) @ events_left hooks (b_preps b' ! j) (b_states b' ! j)"
proof -
  obtain c out d where u: "i < length (b_preps b)"
    "b' = b\<lparr>b_states := (b_states b)[i := c], b_results := (b_results b)[i := out], b_completed := (b_completed b)[i := d]\<rparr>"
    "call_ok hooks (b_preps b ! i) c out d"
    "steps_left (b_preps b ! i) (b_states b ! i) = Suc (steps_left (b_preps b ! i) c)"
    "events_left hooks (b_preps b ! i) (b_states b ! i) = es @ events_left hooks (b_preps b ! i) c"
    "holds_slot c \<longrightarrow> holds_slot (b_states b ! i) \<or> slot_free mx b"
    by (rule batch_act_call [OF ok act])
  have lens: "length (b_states b) = length (b_preps b)" "length (b_results b) = length (b_preps b)"
    "length (b_completed b) = length (b_preps b)" using ok by (simp_all add: batch_ok_def)
  show p: "b_preps b' = b_preps b" using u(2) by simp
  have "int (in_flight b') \<le> mx" if "0 < mx"
  proof -
    have "in_flight b' + (if holds_slot (b_states b ! i) then 1 else 0) = in_flight b + (if holds_slot c then 1 else 0)"
      using in_flight_update [of i b c] u(1,2) lens by (simp add: in_flight_def)
    moreover have "int (in_flight b) \<le> mx" using ok that by (simp add: batch_ok_def)
    ultimately show ?thesis using u(6) that by (auto simp: slot_free_def split: if_splits)
  qed
  then show "batch_ok mx hooks b'"
    using ok u(1-3) lens by (auto simp: batch_ok_def nth_list_update)
  show "events_left hooks (b_preps b ! j) (b_states b ! j)
       = (if j = i then es else []) @ events_left hooks (b_preps b' ! j) (b_states b' ! j)" if "j < length (b_preps b)"
    using that u lens by (auto simp: nth_list_update)
  have "(\<Sum>k < length (b_preps b). steps_left (b_preps b ! k) (b_states b ! k))
      = steps_left (b_preps b ! i) (b_states b ! i) + (\<Sum>k \<in> {..<length (b_preps b)} - {i}. steps_left (b_preps b ! k) (b_states b ! k))"
    using u(1) by (simp add: sum.remove)
  moreover have "(\<Sum>k < length (b_preps b). steps_left (b_preps b ! k) (b_states b' ! k))
      = steps_left (b_preps b ! i) c + (\<Sum>k \<in> {..<length (b_preps b)} - {i}. steps_left (b_preps b ! k) (b_states b ! k))"
    using u(1,2) lens by (simp add: sum.remove)
  ultimately show "batch_steps_left b = Suc (batch_steps_left b')"
    using u(4) p by (simp add: batch_steps_left_def)
qed

lemma start_batch_ok: "batch_ok mx hooks (start_batch preps)"
proof -
  have "filter holds_slot (map (\<lambda>p. if p_immediate p then CallImmediate else CallQueued) preps) = []"
    by (auto simp: filter_empty_conv holds_slot_def)
  then show ?thesis
    by (auto simp: batch_ok_def start_batch_def in_flight_def call_outcome_def)
qed

lemma batch_run_ok:
  assumes "batch_run mx hooks b evs b' n" "batch_ok mx hooks b"
  shows "batch_ok mx hooks b' \<and> b_preps b' = b_preps b \<and> batch_steps_left b = n + batch_steps_left b' \<and>
    (\<forall>j < length (b_preps b). events_left hooks (b_preps b ! j) (b_states b ! j)
       = map snd (filter (\<lambda>x. fst x = j) evs) @ events_left hooks (b_preps b ! j) (b_states b' ! j))"
  using assms
proof induction
  case (batch_step b evs b1 n i es b2)
  note IH = batch_step.IH [OF batch_step.prems]
  note a = batch_act_ok [OF IH [THEN conjunct1] batch_step.hyps(2)]
  have f: "map snd (filter (\<lambda>x. fst x = j) (map (Pair i) es)) = (if j = i then es else [])" for j
    by (simp add: filter_map comp_def)
  show ?case using IH a f by simp
qed simp

lemma batch_done_steps: "batch_ok mx hooks b \<Longrightarrow> batch_done b \<longleftrightarrow> batch_steps_left b = 0"
proof -
  assume ok: "batch_ok mx hooks b"
  have "batch_done b \<longleftrightarrow> (\<forall>i < length (b_preps b). b_states b ! i = CallImmediate \<or> b_states b ! i = CallLeft)"
    using ok by (auto simp: batch_done_def batch_ok_def list_all_length)
  also have "\<dots> \<longleftrightarrow> (\<forall>i < length (b_preps b). steps_left (b_preps b ! i) (b_states b ! i) = 0)"
  proof -
    have "steps_left p c = 0 \<longleftrightarrow> c = CallImmediate \<or> c = CallLeft" for p c by (cases c) auto
    then show ?thesis by simp
  qed
  finally show ?thesis by (auto simp: batch_steps_left_def)
qed

text \<open>No deadlock: as long as a call has not left, some call can take a step.\<close>

lemma batch_act_enabled:
  assumes ok: "batch_ok mx hooks b" and "\<not> batch_done b" and mx: "0 \<le> mx"
  shows "\<exists>i es b'. batch_act mx hooks i b = Some (es, b')"
proof (rule ccontr)
  assume no: "\<not> ?thesis"
  have lens: "length (b_states b) = length (b_preps b)" using ok by (simp add: batch_ok_def)
  have none: "\<not> holds_slot c" if c: "c \<in> set (b_states b)" for c
  proof
    assume "holds_slot c"
    obtain i where i: "i < length (b_states b)" "b_states b ! i = c" using c by (auto simp: in_set_conv_nth)
    have "batch_act mx hooks i b \<noteq> None"
      using i \<open>holds_slot c\<close> by (auto simp: batch_act_def holds_slot_def Let_def split: call_state.splits list.splits)
    then show False using no by (cases "batch_act mx hooks i b") auto
  qed
  then have "in_flight b = 0" by (simp add: in_flight_def)
  then have free: "slot_free mx b" using mx by (auto simp: slot_free_def)
  obtain i where i: "i < length (b_states b)" "b_states b ! i \<noteq> CallImmediate" "b_states b ! i \<noteq> CallLeft"
    using assms(2) by (auto simp: batch_done_def list_all_length)
  then have "b_states b ! i = CallQueued" using none [OF nth_mem [OF i(1)]]
    by (cases "b_states b ! i") (auto simp: holds_slot_def)
  then have "batch_act mx hooks i b \<noteq> None" using i free by (simp add: batch_act_def Let_def)
  then show False using no by (cases "batch_act mx hooks i b") auto
qed

lemma batch_done_results:
  assumes "batch_ok mx hooks b" "batch_done b"
  shows "b_results b = map (call_outcome hooks) (b_preps b)"
proof (rule nth_equalityI)
  show "length (b_results b) = length (map (call_outcome hooks) (b_preps b))" using assms by (simp add: batch_ok_def)
  fix i assume "i < length (b_results b)"
  then have i: "i < length (b_preps b)" using assms by (simp add: batch_ok_def)
  then have "b_states b ! i = CallImmediate \<or> b_states b ! i = CallLeft"
    "call_ok hooks (b_preps b ! i) (b_states b ! i) (b_results b ! i) (b_completed b ! i)"
    using assms by (auto simp: batch_done_def batch_ok_def list_all_length)
  then show "b_results b ! i = map (call_outcome hooks) (b_preps b) ! i" using i by auto
qed

text \<open>A run that cannot go on exists from every state, and it is done.\<close>

lemma batch_completes:
  assumes "batch_ok mx hooks b" "0 \<le> mx"
  shows "\<exists>evs b'. batch_run mx hooks b evs b' (batch_steps_left b) \<and> batch_done b'"
proof -
  have "\<exists>evs b'. batch_run mx hooks b evs b' k" if "k \<le> batch_steps_left b" for k
    using that
  proof (induction k)
    case 0
    then show ?case by (auto intro: batch_refl)
  next
    case (Suc k)
    then obtain evs b1 where r: "batch_run mx hooks b evs b1 k" by auto
    from batch_run_ok [OF r assms(1)] Suc.prems have "batch_ok mx hooks b1" "batch_steps_left b1 \<noteq> 0" by auto
    then obtain i es b2 where "batch_act mx hooks i b1 = Some (es, b2)"
      using batch_act_enabled [of mx hooks b1] assms(2) batch_done_steps [of mx hooks b1] by auto
    then show ?case using batch_step [OF r] by blast
  qed
  then obtain evs b' where r: "batch_run mx hooks b evs b' (batch_steps_left b)" by blast
  have "batch_steps_left b' = 0" "batch_ok mx hooks b'" using batch_run_ok [OF r assms(1)] by auto
  then show ?thesis using r batch_done_steps by blast
qed

lemma leaked_calls_spec:
  assumes "batch_ok mx hooks b"
  shows "p \<in> set (leaked_calls b) \<longleftrightarrow>
    (\<exists>i < length (b_preps b). p = b_preps b ! i \<and> (b_states b ! i = CallQueued \<or> (\<exists>qs ret. b_states b ! i = CallRunning qs ret)))"
proof -
  have l: "length (b_completed b) = length (b_preps b)"
    and c: "\<And>i. i < length (b_preps b) \<Longrightarrow> call_ok hooks (b_preps b ! i) (b_states b ! i) (b_results b ! i) (b_completed b ! i)"
    using assms by (simp_all add: batch_ok_def)
  have "(\<not> p_immediate (b_preps b ! i) \<and> \<not> b_completed b ! i) \<longleftrightarrow>
      (b_states b ! i = CallQueued \<or> (\<exists>qs ret. b_states b ! i = CallRunning qs ret))" if "i < length (b_preps b)" for i
    using c [OF that] by (cases "b_states b ! i") auto
  moreover have "p \<in> set (leaked_calls b) \<longleftrightarrow>
      (\<exists>i < length (b_preps b). p = b_preps b ! i \<and> \<not> p_immediate (b_preps b ! i) \<and> \<not> b_completed b ! i)"
    using l by (force simp: leaked_calls_def set_zip image_iff)
  ultimately show ?thesis by blast
qed

text \<open>Runs computed from their schedule.\<close>

fun run_schedule :: "int \<Rightarrow> Hooks \<Rightarrow> nat list \<Rightarrow> toolBatch \<Rightarrow> ((nat \<times> AgentEvent) list \<times> toolBatch) option" where
  "run_schedule mx hooks [] b = Some ([], b)"
| "run_schedule mx hooks (i # is) b =
     (case batch_act mx hooks i b of
        None \<Rightarrow> None
      | Some (es, b1) \<Rightarrow> map_option (\<lambda>(evs, b'). (map (Pair i) es @ evs, b')) (run_schedule mx hooks is b1))"

lemma batch_run_trans:
  "batch_run mx hooks b1 evs' b2 m \<Longrightarrow> batch_run mx hooks b evs b1 n \<Longrightarrow> batch_run mx hooks b (evs @ evs') b2 (n + m)"
proof (induction rule: batch_run.induct)
  case (batch_step b1 evs' b2 m i es b3)
  from batch_run.batch_step [OF batch_step.IH [OF batch_step.prems] batch_step.hyps(2)] show ?case by simp
qed simp

lemma batch_run_schedule:
  "run_schedule mx hooks is b = Some (evs, b') \<Longrightarrow> batch_run mx hooks b evs b' (length is)"
proof (induction "is" arbitrary: b evs)
  case Nil
  then show ?case by (auto intro: batch_refl)
next
  case (Cons i "is")
  then obtain es b1 evs1 where s: "batch_act mx hooks i b = Some (es, b1)" "run_schedule mx hooks is b1 = Some (evs1, b')"
    "evs = map (Pair i) es @ evs1" by (auto split: option.splits prod.splits)
  have "batch_run mx hooks b (map (Pair i) es) b1 1" using batch_step [OF batch_refl s(1)] by simp
  from batch_run_trans [OF Cons.IH [OF s(2)] this] show ?case using s(3) by simp
qed

section \<open>Properties\<close>


text \<open>A call of a tool that asks to be run sequentially.\<close>

definition sequential_tool :: RegisteredTool where
  "sequential_tool = (demo_tool ''bash'')\<lparr>t_IsSequential := True\<rparr>"

definition sequential_call :: "string \<Rightarrow> preparedCall" where
  "sequential_call i = \<lparr>p_callID = i, p_name = ''bash'', p_args = Some ''{}'', p_tool = Some sequential_tool,
     p_immediate = False, p_err = None\<rparr>"

definition sequential_config :: AgentConfig where
  "sequential_config = config_defaults (demo_config\<lparr>c_ToolExecution := ToolExecSequential\<rparr>)"

text \<open>
  Neither the configured sequential execution mode nor a tool's own sequential flag has any effect:
  with both set, two calls of the tool are in flight together, and may end in the reverse order.
\<close>

theorem sequential_mode_ignored:
  "c_ToolExecution sequential_config = ToolExecSequential \<and> t_IsSequential sequential_tool \<and>
   (\<exists>evs b n. batch_run (c_MaxParallelTools sequential_config) no_hooks
      (start_batch [sequential_call ''1'', sequential_call ''2'']) evs b n \<and> in_flight b = 2) \<and>
   (\<exists>evs b n. batch_run (c_MaxParallelTools sequential_config) no_hooks
      (start_batch [sequential_call ''1'', sequential_call ''2'']) evs b n \<and>
      map fst evs = [1, 0] \<and> batch_done b)"
proof -
  have mx: "c_MaxParallelTools sequential_config = 32"
    by (simp add: sequential_config_def config_defaults_def demo_config_def or_default_def)
  have run: "run_prepared (sequential_call i) = ([], (zero_result, None))" for i
    by (simp add: run_prepared_def sequential_call_def sequential_tool_def run_tool_def demo_tool_def NewDynamicTool_def
        dynamic_execute_def runPrepare_def)
  let ?b0 = "start_batch [sequential_call ''1'', sequential_call ''2'']"
  have imm: "\<not> p_immediate (sequential_call i)" for i by (simp add: sequential_call_def)
  note act = batch_act_def slot_free_def in_flight_def holds_slot_def start_batch_def run imm batch_done_def
  obtain evs b where r: "run_schedule 32 no_hooks [0, Suc 0] ?b0 = Some (evs, b)" "in_flight b = 2"
    by (simp add: act)
  then have "\<exists>evs b n. batch_run 32 no_hooks ?b0 evs b n \<and> in_flight b = 2" using batch_run_schedule [OF r(1)] r(2) by blast
  moreover obtain evs b where q: "run_schedule 32 no_hooks [0, Suc 0, Suc 0, Suc 0, 0, 0] ?b0 = Some (evs, b)"
    "map fst evs = [1, 0]" "batch_done b"
    by (simp add: act Let_def)
  have "\<exists>evs b n. batch_run 32 no_hooks ?b0 evs b n \<and> map fst evs = [1, 0] \<and> batch_done b"
    by (intro exI conjI, rule batch_run_schedule [OF q(1)], rule q(2), rule q(3))
  ultimately show ?thesis using mx
    by (simp add: sequential_config_def config_defaults_def sequential_tool_def)
qed

section \<open>Witness\<close>


end
