(* ===== verification/Prompt_Loop.thy ===== *)
theory Prompt_Loop
  imports Tool_Batch Summarize
begin

text \<open>
  The prompt loop (prompt.go): \<open>loop\<close>, \<open>runOneTurn\<close> and \<open>executeTools\<close> as a step relation on the agent, the
  run and the loop goroutine's program counter. What the loop reads from channels, the provider and
  the clock is chosen by the step: any stream of provider events is possible, a wait may time out,
  and of two ready cases of a \<^verbatim>\<open>select\<close> either may be taken. Between steps the callers act: they
  cancel, steer, queue follow-ups and call the setters (\<open>env_step\<close>).
\<close>

section \<open>The start of a turn\<close>

record TurnRequest =
  tq_Provider :: string
  tq_Model :: string
  tq_Messages :: "llm_Message list"
  tq_Tools :: "(string \<times> string \<times> string option) list"
  tq_Thinking :: ThinkingLevel
  tq_ThinkingBudgets :: "(ThinkingLevel \<times> int) list"
  tq_ProviderHints :: string
  tq_SessionID :: string
  tq_Transport :: string

text \<open>NewAgent has filled in the default.\<close>

definition convert_fn :: "AgentConfig \<Rightarrow> Message list \<Rightarrow> llm_Message list" where
  "convert_fn cfg = (case c_ConvertToLLM cfg of Some f \<Rightarrow> f | None \<Rightarrow> DefaultConvertToLLM)"

definition turn_messages :: "'s Agent \<Rightarrow> turnSnapshot \<Rightarrow> Message list \<Rightarrow> llm_Message list + err" where
  "turn_messages a snap contextMsgs =
     (case (case h_TransformContext (a_hooks a) of None \<Rightarrow> Inl contextMsgs | Some h \<Rightarrow> h contextMsgs) of
        Inr e \<Rightarrow> Inr (wrap_err ''transform context hook: '' e)
      | Inl msgs \<Rightarrow> Inl (applySkillsToSystemPrompt (convert_fn (a_config a) msgs) (ts_skills snap)))"

definition begin_turn :: "'s Agent \<Rightarrow> promptRun \<Rightarrow> promptRun \<times> (TurnRequest \<times> RegisteredTool list) outcome" where
  "begin_turn a r0 =
     (let r1 = setPhase PhaseWaitingLLM r0;
          r2 = r1\<lparr>r_turn := r_turn r1 + 1\<rparr>;
          r3 = emit (TurnStartEvent (r_turn r2)) r2
      in case r_ctx r3 of
           Some cause \<Rightarrow> (r3, Failed cause)
         | None \<Rightarrow>
           (let snap = snapshot a;
                modelRef = (if r_optModel r3 = [] then ts_model snap else r_optModel r3)
            in case parseModelRef modelRef of
                 Inr e \<Rightarrow> (r3, Failed e)
               | Inl (providerName, modelID) \<Rightarrow>
                 (case providerByName a providerName of
                    Inr e \<Rightarrow> (r3, Failed e)
                  | Inl provider \<Rightarrow>
                    (let thinking = (if r_optThinking r3 = ThinkingOff then ts_thinkingLevel snap else r_optThinking r3);
                         r4 = r3\<lparr>r_model := modelID, r_thinking := thinking\<rparr>
                     in case BuildLLMContext (r_transcript r4) (r_branchSummaries r4) of
                          None \<Rightarrow> (r4, Panicked)
                        | Some contextMsgs \<Rightarrow>
                          (case turn_messages a snap contextMsgs of
                             Inr e \<Rightarrow> (r4, Failed e)
                           | Inl msgs \<Rightarrow>
                             (let unsupported = (thinking \<noteq> ThinkingOff \<and> \<not> pr_Thinking provider modelID);
                                  r5 = (if unsupported
                                        then emit (ThinkingUnsupportedEvent thinking (pr_Name provider) modelID
                                               ''model does not support thinking'') r4
                                        else r4)
                              in (r5, Returned (\<lparr>tq_Provider = pr_Name provider, tq_Model = modelID, tq_Messages = msgs,
                                    tq_Tools = map (\<lambda>t. (t_Name t, t_Description t, t_Schema t)) (ts_tools snap),
                                    tq_Thinking = (if unsupported then ThinkingOff else thinking),
                                    tq_ThinkingBudgets = ts_thinkingBudgets snap, tq_ProviderHints = r_providerHints r5,
                                    tq_SessionID = r_sessionID r5, tq_Transport = ts_transport snap\<rparr>, ts_tools snap))))))))"

section \<open>The provider's stream\<close>

datatype llm_event =
    LE_TextDelta string string
  | LE_ThinkingDelta string string
  | LE_ToolCallStart
  | LE_ToolCallEnd ToolCall
  | LE_Error err bool
  | LE_Retry string string int int string bool
  | LE_Usage int int
  | LE_MessageEnd StopReason
  | LE_Other

record stream_acc =
  sa_toolCalls :: "ToolCall list"
  sa_text :: string
  sa_usage :: "Usage option"
  sa_signature :: string
  sa_started :: bool
  sa_assistantMsg :: "Message option"
  sa_stop :: StopReason

definition new_stream :: stream_acc where
  "new_stream = \<lparr>sa_toolCalls = [], sa_text = [], sa_usage = None, sa_signature = [], sa_started = False,
     sa_assistantMsg = None, sa_stop = StopReasonNone\<rparr>"

definition has_text :: "stream_acc \<Rightarrow> bool" where
  "has_text acc \<longleftrightarrow> sa_text acc \<noteq> [] \<or> sa_signature acc \<noteq> []"

definition text_message :: "stream_acc \<Rightarrow> Message" where
  "text_message acc = NewTextWithSignature ''assistant'' (sa_text acc) (sa_signature acc)"

definition start_message :: "string \<Rightarrow> stream_acc \<Rightarrow> promptRun \<Rightarrow> stream_acc \<times> promptRun" where
  "start_message type acc r =
     (if sa_started acc then (acc, r) else (acc\<lparr>sa_started := True\<rparr>, emit (MessageStartEvent ''assistant'' type) r))"

text \<open>A duration in nanoseconds, in milliseconds; Go's division truncates.\<close>

definition milliseconds :: "int \<Rightarrow> int" where
  "milliseconds d = (if d < 0 then - (- d div 1000000) else d div 1000000)"

text \<open>One event of the stream; \<open>Inr\<close>: the turn fails.\<close>

definition stream_event :: "llm_event \<Rightarrow> stream_acc \<Rightarrow> promptRun \<Rightarrow> (stream_acc \<times> promptRun) + err" where
  "stream_event ev acc r =
     (case ev of
        LE_TextDelta d g \<Rightarrow>
          (let acc1 = (if g \<noteq> [] then acc\<lparr>sa_signature := g\<rparr> else acc)
           in case start_message ''text'' acc1 r of
                (acc2, r2) \<Rightarrow> Inl (acc2\<lparr>sa_text := sa_text acc2 @ d\<rparr>, emit (TextDeltaEvent d g) r2))
      | LE_ThinkingDelta d g \<Rightarrow>
          (case start_message ''thinking'' acc r of (acc1, r1) \<Rightarrow> Inl (acc1, emit (ThinkingDeltaEvent d g) r1))
      | LE_ToolCallStart \<Rightarrow> Inl (acc, r)
      | LE_ToolCallEnd tc \<Rightarrow>
          Inl (acc\<lparr>sa_toolCalls := sa_toolCalls acc @ [tc]\<rparr>,
               emit (ToolCallStartEvent (tcc_CallID tc) (tcc_ToolName tc) (tcc_Args tc) (tcc_ThoughtSignature tc)) r)
      | LE_Error e transient \<Rightarrow>
          (if transient then Inl (acc, emit (LLMErrorEvent e True) r) else Inr (wrap_err ''llm error: '' e))
      | LE_Retry p m k d reason hint \<Rightarrow> Inl (acc, emit (LLMRetryEvent p m k (milliseconds d) reason hint) r)
      | LE_Usage i k \<Rightarrow> Inl (acc\<lparr>sa_usage := Some \<lparr>u_InputTokens = i, u_OutputTokens = k\<rparr>\<rparr>, r)
      | LE_MessageEnd s \<Rightarrow>
          (let acc1 = acc\<lparr>sa_stop := s, sa_assistantMsg := (if has_text acc then Some (text_message acc) else sa_assistantMsg acc)\<rparr>
           in Inl (acc1, emit (MessageEndEvent (sa_assistantMsg acc1)) r))
      | LE_Other \<Rightarrow> Inl (acc, r))"

section \<open>The end of a turn\<close>

text \<open>The messages of the turn, the usage on the last of them.\<close>

definition call_message :: "ToolCall \<Rightarrow> Message" where
  "call_message tc = NewToolCallWithSignature ''assistant'' (tcc_CallID tc) (tcc_ToolName tc) (tcc_Args tc) (tcc_ThoughtSignature tc)"

definition assistant_messages :: "stream_acc \<Rightarrow> Message list" where
  "assistant_messages acc =
     (let msgs = (if has_text acc then [text_message acc] else []) @ map call_message (sa_toolCalls acc)
      in case sa_usage acc of
           None \<Rightarrow> msgs
         | Some u \<Rightarrow> if msgs = [] then [] else butlast msgs @ [msg_WithUsage u (last msgs)])"

definition truncated_result :: "string \<Rightarrow> ToolResult" where
  "truncated_result name = zero_result\<lparr>tr_Content := ''Tool call '' @ go_quote name @
      '' was not executed: the response hit the output token limit, so its arguments may be truncated.''
      @ '' Re-issue the tool call with complete arguments.'', tr_IsError := True\<rparr>"

fun failTruncatedToolCalls :: "'s SessionRepo \<Rightarrow> ToolCall list \<Rightarrow> 's Agent \<times> promptRun \<Rightarrow> ('s Agent \<times> promptRun) \<times> err option" where
  "failTruncatedToolCalls R [] ar = (ar, None)"
| "failTruncatedToolCalls R (tc # tcs) ar =
     (let res = truncated_result (tcc_ToolName tc);
          ar1 = (fst ar, emit (ToolCallEndEvent (tcc_CallID tc) (tcc_ToolName tc) res) (snd ar))
      in case appendTranscript R [NewToolResultMsg (tcc_CallID tc) (tcc_ToolName tc) res] ar1 of
           (ar2, Some e) \<Rightarrow> (ar2, Some e)
         | (ar2, None) \<Rightarrow> failTruncatedToolCalls R tcs ar2)"

section \<open>Results of a tool batch\<close>

definition all_terminate :: "toolOutcome list \<Rightarrow> bool" where
  "all_terminate results \<longleftrightarrow> results \<noteq> [] \<and> list_all (\<lambda>x. o_err x = None \<and> tr_Terminate (o_result x)) results"

definition suspends :: "toolOutcome \<Rightarrow> bool" where
  "suspends out \<longleftrightarrow> o_err out = None \<and> tr_Suspend (o_result out)"

definition outcome_message :: "toolOutcome \<Rightarrow> Message" where
  "outcome_message out =
     NewToolResultMsg (o_callID out) (o_name out)
       (zero_result\<lparr>tr_Content := (case o_err out of None \<Rightarrow> tr_Content (o_result out) | Some e \<Rightarrow> err_msg e),
          tr_Data := tr_Data (o_result out),
          tr_IsError := (case o_err out of None \<Rightarrow> tr_IsError (o_result out) | Some e \<Rightarrow> True),
          tr_Images := tr_Images (o_result out)\<rparr>)"

definition persist_results :: "'s SessionRepo \<Rightarrow> toolOutcome list \<Rightarrow> 's Agent \<times> promptRun \<Rightarrow> ('s Agent \<times> promptRun) \<times> err option" where
  "persist_results R results ar =
     (if all_terminate results then ((fst ar, (snd ar)\<lparr>r_terminated := True\<rparr>), None)
      else case append_each R (map outcome_message (filter (\<lambda>x. \<not> suspends x) results)) ar of
             (ar1, Some e) \<Rightarrow> (ar1, Some e)
           | (ar1, None) \<Rightarrow> ((fst ar1, if list_ex suspends results then setSuspended (snd ar1) else snd ar1), None))"

section \<open>The loop\<close>

text \<open>
  The program counter: before the loop, at its head, in the provider's stream, in the preflight of
  the tools, in the wait for the batch (shutting down or not), with its results, at the end of a turn
  (first the queued tool changes, then the decision how to go on), and in the deferred calls.
\<close>

datatype pc =
    PC_Start
  | PC_Turn
  | PC_Stream stream_acc "RegisteredTool list"
  | PC_Preflight "preparedCall list" "ToolCall list" "RegisteredTool list"
  | PC_Batch toolBatch bool
  | PC_Results "toolOutcome list"
  | PC_Flush bool
  | PC_Decide bool
  | PC_Deferred nat
  | PC_Exited
  | PC_Panicked

record 's loop_state =
  lo_agent :: "'s Agent"
  lo_run :: promptRun
  lo_pc :: pc
  lo_leaked :: "toolBatch option"
  lo_requests :: "TurnRequest list"

definition at :: "'s loop_state \<Rightarrow> 's Agent \<times> promptRun \<Rightarrow> pc \<Rightarrow> 's loop_state" where
  "at s ar p = s\<lparr>lo_agent := fst ar, lo_run := snd ar, lo_pc := p\<rparr>"

definition finished :: "'s loop_state \<Rightarrow> err option \<Rightarrow> 's Agent \<times> promptRun \<Rightarrow> 's loop_state" where
  "finished s e ar = at s (fst ar, finish e (snd ar)) (PC_Deferred 0)"

text \<open>What the loop does with an error of a turn.\<close>

definition turn_failed :: "'s loop_state \<Rightarrow> err \<Rightarrow> 's Agent \<times> promptRun \<Rightarrow> 's loop_state" where
  "turn_failed s e ar =
     (case asCancellation e of
        Some cause \<Rightarrow> finished s (Some cause) ar
      | None \<Rightarrow> finished s (Some e) (fst ar, emit (LLMErrorEvent e False) (snd ar)))"

text \<open>Go on at \<open>p\<close> unless the operation before failed.\<close>

definition turn_try :: "'s loop_state \<Rightarrow> ('s Agent \<times> promptRun) \<times> err option \<Rightarrow> ('s Agent \<times> promptRun \<Rightarrow> 's loop_state) \<Rightarrow> 's loop_state" where
  "turn_try s res k = (case res of (ar, None) \<Rightarrow> k ar | (ar, Some e) \<Rightarrow> turn_failed s e ar)"

definition loop_try :: "'s loop_state \<Rightarrow> ('s Agent \<times> promptRun) \<times> err option \<Rightarrow> ('s Agent \<times> promptRun \<Rightarrow> 's loop_state) \<Rightarrow> 's loop_state" where
  "loop_try s res k = (case res of (ar, None) \<Rightarrow> k ar | (ar, Some e) \<Rightarrow> finished s (Some e) ar)"

definition loop_start :: "'s SessionRepo \<Rightarrow> 's loop_state \<Rightarrow> 's loop_state" where
  "loop_start R s =
     (let a = lo_agent s; r = emit AgentStartEvent (lo_run s) in
      case loadTranscript R a r of
        (r1, Some e) \<Rightarrow> finished s (Some (wrap_err ''loading transcript: '' e)) (a, r1)
      | (r1, None) \<Rightarrow>
          at s (a, if r_transcript r1 \<noteq> [] \<and> m_Role (last (r_transcript r1)) = ''user''
                   then emit (MessageStartEvent ''user'' ''text'') r1 else r1) PC_Turn)"

definition loop_turn :: "'s loop_state \<Rightarrow> 's loop_state" where
  "loop_turn s =
     (case begin_turn (lo_agent s) (lo_run s) of
        (r, Failed e) \<Rightarrow> turn_failed s e (lo_agent s, r)
      | (r, Panicked) \<Rightarrow> at s (lo_agent s, r) PC_Panicked
      | (r, Returned (req, tools)) \<Rightarrow>
          (at s (lo_agent s, r) (PC_Stream new_stream tools))\<lparr>lo_requests := lo_requests s @ [req]\<rparr>)"

definition loop_stream_event :: "llm_event \<Rightarrow> stream_acc \<Rightarrow> RegisteredTool list \<Rightarrow> 's loop_state \<Rightarrow> 's loop_state" where
  "loop_stream_event ev acc tools s =
     (case stream_event ev acc (lo_run s) of
        Inl (acc', r) \<Rightarrow> at s (lo_agent s, r) (PC_Stream acc' tools)
      | Inr e \<Rightarrow> turn_failed s e (lo_agent s, lo_run s))"

definition loop_stream_end :: "'s SessionRepo \<Rightarrow> err option \<Rightarrow> stream_acc \<Rightarrow> RegisteredTool list \<Rightarrow> 's loop_state \<Rightarrow> 's loop_state" where
  "loop_stream_end R result acc tools s =
     (case result of
        Some e \<Rightarrow> turn_failed s (wrap_err ''llm stream: '' e) (lo_agent s, lo_run s)
      | None \<Rightarrow>
          turn_try s (append_each R (assistant_messages acc) (lo_agent s, lo_run s)) (\<lambda>(a, r).
            let r1 = emit (TurnEndEvent (r_turn r)) r in
            if sa_toolCalls acc = [] then at s (a, r1) (PC_Flush False)
            else if sa_stop acc = StopReasonLength
            then turn_try s (failTruncatedToolCalls R (sa_toolCalls acc) (a, r1)) (\<lambda>ar. at s ar (PC_Flush True))
            else at s (a, setPhase PhaseExecutingTools r1) (PC_Preflight [] (sa_toolCalls acc) tools)))"

text \<open>One call is prepared; the context is looked at before each and at the end.\<close>

definition loop_preflight :: "preparedCall list \<Rightarrow> ToolCall list \<Rightarrow> RegisteredTool list \<Rightarrow> 's loop_state \<Rightarrow> 's loop_state" where
  "loop_preflight preps calls tools s =
     (case r_ctx (lo_run s) of
        Some cause \<Rightarrow> turn_failed s cause (lo_agent s, lo_run s)
      | None \<Rightarrow>
          (case calls of
             tc # tcs \<Rightarrow>
               (case prepareToolCall (a_hooks (lo_agent s)) tools tc of
                  (evs, p) \<Rightarrow> at s (lo_agent s, emit_all evs (lo_run s)) (PC_Preflight (preps @ [p]) tcs tools))
           | [] \<Rightarrow>
               if c_MaxParallelTools (a_config (lo_agent s)) < 0 then at s (lo_agent s, lo_run s) PC_Panicked
               else at s (lo_agent s, lo_run s) (PC_Batch (start_batch preps) False)))"

definition loop_leak :: "err \<Rightarrow> toolBatch \<Rightarrow> 's loop_state \<Rightarrow> 's loop_state" where
  "loop_leak cause b s =
     turn_failed (s\<lparr>lo_leaked := Some b\<rparr>) cause
       (lo_agent s, emit_all (map (\<lambda>p. ToolLeakEvent (p_name p) (p_callID p)) (leaked_calls b)) (lo_run s))"

definition loop_flush :: "'s SessionRepo \<Rightarrow> bool \<Rightarrow> 's loop_state \<Rightarrow> 's loop_state" where
  "loop_flush R had s =
     loop_try s (flushPendingActiveTools R (lo_agent s, lo_run s)) (\<lambda>(a, r).
       let stop = (case h_ShouldStopAfterTurn (a_hooks a) of None \<Rightarrow> False | Some h \<Rightarrow> h (nat (r_turn r)) had) in
       if r_terminated r then finished s None (a, r)
       else if r_suspended r then finished s None (a, r)
       else if stop then finished s None (a, r)
       else at s (a, r) (PC_Decide had))"

definition loop_inject :: "'s SessionRepo \<Rightarrow> Message \<Rightarrow> (Message \<Rightarrow> AgentEvent) \<Rightarrow> promptRun \<Rightarrow> 's loop_state \<Rightarrow> 's loop_state" where
  "loop_inject R m ev r s =
     loop_try s (appendTranscript R [m] (lo_agent s, r)) (\<lambda>(a, r1).
       at s (a, emit (ev m) (emit (MessageStartEvent ''user'' ''text'') r1)) PC_Turn)"

text \<open>The deferred calls, last in first out: clear the flag, drain the queue, close both channels, cancel.\<close>

fun loop_deferred :: "'s SessionRepo \<Rightarrow> nat \<Rightarrow> 's loop_state \<Rightarrow> 's loop_state" where
  "loop_deferred R 0 s =
     at s ((lo_agent s)\<lparr>a_running := a_running (lo_agent s) - 1\<rparr>, lo_run s) (PC_Deferred 1)"
| "loop_deferred R (Suc 0) s = at s (fst (flushPendingActiveTools R (lo_agent s, lo_run s))) (PC_Deferred 2)"
| "loop_deferred R (Suc (Suc 0)) s = at s (lo_agent s, (lo_run s)\<lparr>r_doneClosed := True\<rparr>) (PC_Deferred 3)"
| "loop_deferred R (Suc (Suc (Suc 0))) s = at s (lo_agent s, closeEvents (lo_run s)) (PC_Deferred 4)"
| "loop_deferred R _ s = at s (lo_agent s, cancel (sentinel_err ErrNoPromptInFlight) (lo_run s)) PC_Exited"

inductive loop_step :: "'s SessionRepo \<Rightarrow> 's loop_state \<Rightarrow> 's loop_state \<Rightarrow> bool" for R where
  Start: "lo_pc s = PC_Start \<Longrightarrow> loop_step R s (loop_start R s)"
| Turn: "lo_pc s = PC_Turn \<Longrightarrow> loop_step R s (loop_turn s)"
| StreamEvent: "lo_pc s = PC_Stream acc tools \<Longrightarrow> loop_step R s (loop_stream_event ev acc tools s)"
| StreamEnd: "lo_pc s = PC_Stream acc tools \<Longrightarrow> loop_step R s (loop_stream_end R result acc tools s)"
| Preflight: "lo_pc s = PC_Preflight preps calls tools \<Longrightarrow> loop_step R s (loop_preflight preps calls tools s)"
| BatchAct: "lo_pc s = PC_Batch b down \<Longrightarrow>
    batch_act (c_MaxParallelTools (a_config (lo_agent s))) (a_hooks (lo_agent s)) i b = Some (evs, b') \<Longrightarrow>
    loop_step R s (at s (lo_agent s, emit_all evs (lo_run s)) (PC_Batch b' down))"
| BatchDone: "lo_pc s = PC_Batch b down \<Longrightarrow> batch_done b \<Longrightarrow>
    loop_step R s (at s (lo_agent s, lo_run s) (PC_Results (b_results b)))"
| BatchCancelled: "lo_pc s = PC_Batch b False \<Longrightarrow> r_ctx (lo_run s) \<noteq> None \<Longrightarrow>
    loop_step R s (at s (lo_agent s, setPhase PhaseShuttingDown (lo_run s)) (PC_Batch b True))"
| BatchTimeout: "lo_pc s = PC_Batch b True \<Longrightarrow> r_ctx (lo_run s) = Some cause \<Longrightarrow> loop_step R s (loop_leak cause b s)"
| LeakedAct: "lo_leaked s = Some b \<Longrightarrow>
    batch_act (c_MaxParallelTools (a_config (lo_agent s))) (a_hooks (lo_agent s)) i b = Some (evs, b') \<Longrightarrow>
    loop_step R s (s\<lparr>lo_run := emit_all evs (lo_run s), lo_leaked := Some b'\<rparr>)"
| Results: "lo_pc s = PC_Results results \<Longrightarrow>
    loop_step R s (turn_try s (persist_results R results (lo_agent s, lo_run s)) (\<lambda>ar. at s ar (PC_Flush True)))"
| Flush: "lo_pc s = PC_Flush had \<Longrightarrow> loop_step R s (loop_flush R had s)"
| DecideSteer: "lo_pc s = PC_Decide had \<Longrightarrow> r_steerCh (lo_run s) = m # ms \<Longrightarrow>
    loop_step R s (loop_inject R m SteerInjectedEvent ((lo_run s)\<lparr>r_steerCh := ms\<rparr>) s)"
| DecideAuto: "lo_pc s = PC_Decide True \<Longrightarrow> r_steerCh (lo_run s) = [] \<Longrightarrow> r_ctx (lo_run s) = None \<Longrightarrow>
    loop_step R s (at s (lo_agent s, lo_run s) PC_Turn)"
| DecideFollowUp: "lo_pc s = PC_Decide False \<Longrightarrow> r_steerCh (lo_run s) = [] \<Longrightarrow> r_followUpCh (lo_run s) = m # ms \<Longrightarrow>
    loop_step R s (loop_inject R m FollowUpInjectedEvent ((lo_run s)\<lparr>r_followUpCh := ms\<rparr>) s)"
| DecideCancelled: "lo_pc s = PC_Decide had \<Longrightarrow> r_steerCh (lo_run s) = [] \<Longrightarrow> r_ctx (lo_run s) = Some cause \<Longrightarrow>
    loop_step R s (finished s (Some (cancellation_cause cause)) (lo_agent s, lo_run s))"
| DecideDone: "lo_pc s = PC_Decide False \<Longrightarrow> r_steerCh (lo_run s) = [] \<Longrightarrow> r_followUpCh (lo_run s) = [] \<Longrightarrow>
    r_ctx (lo_run s) = None \<Longrightarrow> loop_step R s (finished s None (lo_agent s, lo_run s))"
| Deferred: "lo_pc s = PC_Deferred n \<Longrightarrow> loop_step R s (loop_deferred R n s)"

section \<open>The callers\<close>

definition steer_room :: "'s loop_state \<Rightarrow> Message list \<Rightarrow> bool" where
  "steer_room s q \<longleftrightarrow> int (length q) < c_SteerBufferSize (a_config (lo_agent s))"

inductive env_step :: "'s SessionRepo \<Rightarrow> 's loop_state \<Rightarrow> 's loop_state \<Rightarrow> bool" for R where
  EnvCancel: "env_step R s (s\<lparr>lo_run := cancel cause (lo_run s)\<rparr>)"
| EnvSteer: "steer_room s (r_steerCh (lo_run s)) \<Longrightarrow>
    env_step R s (s\<lparr>lo_run := (lo_run s)\<lparr>r_steerCh := r_steerCh (lo_run s) @ [m]\<rparr>\<rparr>)"
| EnvFollowUp: "steer_room s (r_followUpCh (lo_run s)) \<Longrightarrow>
    env_step R s (s\<lparr>lo_run := (lo_run s)\<lparr>r_followUpCh := r_followUpCh (lo_run s) @ [m]\<rparr>\<rparr>)"
| EnvModel: "env_step R s (s\<lparr>lo_agent := fst (SetModel m (lo_agent s))\<rparr>)"
| EnvTools: "env_step R s (s\<lparr>lo_agent := fst (SetTools ts (lo_agent s))\<rparr>)"
| EnvSystemPrompt: "env_step R s (s\<lparr>lo_agent := fst (SetSystemPrompt p (lo_agent s))\<rparr>)"
| EnvThinking: "env_step R s (s\<lparr>lo_agent := fst (SetThinkingLevel l (lo_agent s))\<rparr>)"
| EnvSkills: "env_step R s (s\<lparr>lo_agent := fst (SetSkills sk (lo_agent s))\<rparr>)"
| EnvActiveTools: "env_step R s (s\<lparr>lo_agent := fst (SetActiveTools R names (lo_agent s))\<rparr>)"

text \<open>Executions of one prompt, from the state \<open>start\<close> leaves.\<close>

inductive reach :: "'s SessionRepo \<Rightarrow> 's loop_state \<Rightarrow> 's loop_state \<Rightarrow> bool" for R where
  reach_refl: "reach R s s"
| reach_loop: "reach R s t \<Longrightarrow> loop_step R t u \<Longrightarrow> reach R s u"
| reach_env: "reach R s t \<Longrightarrow> env_step R t u \<Longrightarrow> reach R s u"

definition launched :: "'s loop_state \<Rightarrow> bool" where
  "launched s \<longleftrightarrow> lo_pc s = PC_Start \<and> lo_leaked s = None \<and> lo_requests s = [] \<and> a_running (lo_agent s) = 1 \<and>
     a_lastSessionID (lo_agent s) = r_sessionID (lo_run s) \<and>
     r_emitted (lo_run s) = [] \<and> r_delivered (lo_run s) = [] \<and> r_done (lo_run s) = [] \<and> r_turn (lo_run s) = 0 \<and>
     \<not> r_eventsClosed (lo_run s) \<and> \<not> r_doneClosed (lo_run s) \<and> \<not> r_terminated (lo_run s) \<and> \<not> r_suspended (lo_run s)"

inductive_cases loop_stepE: "loop_step R s t"
inductive_cases env_stepE: "env_step R s t"

section \<open>The grammar of the events\<close>

datatype ev_state = EV_New | EV_Between int | EV_Turn int | EV_End

fun ev_next :: "ev_state \<Rightarrow> AgentEvent \<Rightarrow> ev_state option" where
  "ev_next EV_New e = (if e = AgentStartEvent then Some (EV_Between 0) else None)"
| "ev_next (EV_Between n) e =
     (case e of
        TurnStartEvent k \<Rightarrow> if k = n + 1 then Some (EV_Turn k) else None
      | AgentEndEvent _ \<Rightarrow> Some EV_End
      | MessageStartEvent role _ \<Rightarrow> if role = ''user'' then Some (EV_Between n) else None
      | SteerInjectedEvent _ \<Rightarrow> Some (EV_Between n)
      | FollowUpInjectedEvent _ \<Rightarrow> Some (EV_Between n)
      | ToolErrorEvent _ _ _ \<Rightarrow> Some (EV_Between n)
      | ToolUpdateEvent _ _ _ \<Rightarrow> Some (EV_Between n)
      | ToolCallEndEvent _ _ _ \<Rightarrow> Some (EV_Between n)
      | ToolLeakEvent _ _ \<Rightarrow> Some (EV_Between n)
      | LLMErrorEvent _ t \<Rightarrow> if t then None else Some (EV_Between n)
      | _ \<Rightarrow> None)"
| "ev_next (EV_Turn n) e =
     (case e of
        TurnEndEvent k \<Rightarrow> if k = n then Some (EV_Between n) else None
      | AgentEndEvent _ \<Rightarrow> Some EV_End
      | MessageStartEvent role _ \<Rightarrow> if role = ''assistant'' then Some (EV_Turn n) else None
      | MessageEndEvent _ \<Rightarrow> Some (EV_Turn n)
      | TextDeltaEvent _ _ \<Rightarrow> Some (EV_Turn n)
      | ThinkingDeltaEvent _ _ \<Rightarrow> Some (EV_Turn n)
      | ToolCallStartEvent _ _ _ _ \<Rightarrow> Some (EV_Turn n)
      | LLMErrorEvent _ _ \<Rightarrow> Some (EV_Turn n)
      | LLMRetryEvent _ _ _ _ _ _ \<Rightarrow> Some (EV_Turn n)
      | ThinkingUnsupportedEvent _ _ _ _ \<Rightarrow> Some (EV_Turn n)
      | _ \<Rightarrow> None)"
| "ev_next EV_End e =
     (case e of
        ToolUpdateEvent _ _ _ \<Rightarrow> Some EV_End
      | ToolCallEndEvent _ _ _ \<Rightarrow> Some EV_End
      | _ \<Rightarrow> None)"

definition ev_run :: "AgentEvent list \<Rightarrow> ev_state option" where
  "ev_run evs = foldl (\<lambda>s e. Option.bind s (\<lambda>x. ev_next x e)) (Some EV_New) evs"

lemma ev_run_snoc [simp]: "ev_run (evs @ [e]) = Option.bind (ev_run evs) (\<lambda>x. ev_next x e)"
  by (simp add: ev_run_def)

lemma ev_run_Nil [simp]: "ev_run [] = Some EV_New"
  by (simp add: ev_run_def)

section \<open>The invariant of the loop\<close>

text \<open>A run whose loop is still going, with its events in the given state; and one that has finished.\<close>

definition going :: "ev_state \<Rightarrow> promptRun \<Rightarrow> bool" where
  "going st r \<longleftrightarrow> \<not> r_eventsClosed r \<and> \<not> r_doneClosed r \<and> r_done r = [] \<and> ev_run (r_emitted r) = Some st \<and>
     subseq (r_delivered r) (r_emitted r)"

definition ended :: "nat \<Rightarrow> promptRun \<Rightarrow> bool" where
  "ended n r \<longleftrightarrow> (r_eventsClosed r \<longleftrightarrow> 4 \<le> n) \<and> (r_doneClosed r \<longleftrightarrow> 3 \<le> n) \<and> r_phase r = PhaseDone \<and>
     (\<exists>res. r_done r = [res] \<and> prefix (res_Messages res) (r_transcript r) \<and> res_Suspended res = r_suspended r) \<and>
     ev_run (r_emitted r) = Some EV_End \<and> subseq (r_delivered r) (r_emitted r)"

fun pc_ok :: "pc \<Rightarrow> promptRun \<Rightarrow> int \<Rightarrow> bool" where
  "pc_ok PC_Start r run \<longleftrightarrow> going EV_New r \<and> r_turn r = 0 \<and> run = 1"
| "pc_ok PC_Turn r run \<longleftrightarrow> going (EV_Between (r_turn r)) r \<and> run = 1"
| "pc_ok (PC_Stream _ _) r run \<longleftrightarrow> going (EV_Turn (r_turn r)) r \<and> run = 1"
| "pc_ok (PC_Preflight _ _ _) r run \<longleftrightarrow> going (EV_Between (r_turn r)) r \<and> run = 1"
| "pc_ok (PC_Batch _ _) r run \<longleftrightarrow> going (EV_Between (r_turn r)) r \<and> run = 1"
| "pc_ok (PC_Results _) r run \<longleftrightarrow> going (EV_Between (r_turn r)) r \<and> run = 1"
| "pc_ok (PC_Flush _) r run \<longleftrightarrow> going (EV_Between (r_turn r)) r \<and> run = 1"
| "pc_ok (PC_Decide _) r run \<longleftrightarrow> going (EV_Between (r_turn r)) r \<and> run = 1"
| "pc_ok (PC_Deferred n) r run \<longleftrightarrow> ended n r \<and> n \<le> 4 \<and> run = (if n = 0 then 1 else 0)"
| "pc_ok PC_Exited r run \<longleftrightarrow> ended 4 r \<and> run = 0"
| "pc_ok PC_Panicked r run \<longleftrightarrow> (\<exists>st. going st r) \<and> run = 1"

fun is_ended :: "pc \<Rightarrow> bool" where
  "is_ended (PC_Deferred _) = True"
| "is_ended PC_Exited = True"
| "is_ended _ = False"

definition loop_inv :: "'s loop_state \<Rightarrow> bool" where
  "loop_inv s \<longleftrightarrow> pc_ok (lo_pc s) (lo_run s) (a_running (lo_agent s)) \<and> (lo_leaked s \<noteq> None \<longrightarrow> is_ended (lo_pc s))"

text \<open>What a failing turn needs: the run is inside the loop.\<close>

definition inside :: "'s Agent \<times> promptRun \<Rightarrow> bool" where
  "inside ar \<longleftrightarrow> (\<exists>st. going st (snd ar) \<and> (\<exists>n. st = EV_Between n \<or> st = EV_Turn n)) \<and> a_running (fst ar) = 1"

lemma goingD: "going st r \<Longrightarrow> \<not> r_eventsClosed r"
  by (simp add: going_def)

lemma going_emit: "going st r \<Longrightarrow> ev_next st e = Some st' \<Longrightarrow> going st' (emit e r)"
  using delivered_emit [of r e] by (auto simp: going_def)

lemma going_setPhase [simp]: "going st (setPhase p r) = going st r"
  by (simp add: going_def)

lemma going_fields:
  "going st (r\<lparr>r_turn := t\<rparr>) = going st r" "going st (r\<lparr>r_transcript := ts\<rparr>) = going st r"
  "going st (r\<lparr>r_model := m\<rparr>) = going st r" "going st (r\<lparr>r_thinking := th\<rparr>) = going st r"
  "going st (r\<lparr>r_branchSummaries := bs\<rparr>) = going st r" "going st (r\<lparr>r_terminated := b\<rparr>) = going st r"
  "going st (r\<lparr>r_suspended := b\<rparr>) = going st r" "going st (r\<lparr>r_steerCh := q\<rparr>) = going st r"
  "going st (r\<lparr>r_followUpCh := q\<rparr>) = going st r" "going st (cancel c r) = going st r" "going st (setSuspended r) = going st r"
  by (simp_all add: going_def cancel_def setSuspended_def split: option.split)

lemmas going_simps = going_fields going_setPhase

lemma ended_fields:
  "ended n (r\<lparr>r_steerCh := q\<rparr>) = ended n r" "ended n (r\<lparr>r_followUpCh := q\<rparr>) = ended n r" "ended n (cancel c r) = ended n r"
  by (simp_all add: ended_def cancel_def split: option.split)

lemma same_log_going:
  "same_but_log (a, r) (a', r') \<Longrightarrow> going st r' = going st r \<and> r_turn r' = r_turn r \<and> a_running a' = a_running a"
  by (auto simp: same_but_log_def going_fields)

lemma same_log_inside: "same_but_log ar ar' \<Longrightarrow> inside ar \<Longrightarrow> inside ar'"
  using same_log_going [of "fst ar" "snd ar" "fst ar'" "snd ar'"] by (auto simp: inside_def)

lemma flush_log: "flushPendingActiveTools R (a, r) = (ar, e) \<Longrightarrow> same_but_log (a\<lparr>a_pendingActiveTools := []\<rparr>, r) ar"
  by (auto simp: flushPendingActiveTools_def intro: append_each_log)

lemma finish_ended:
  assumes "going st r" "ev_next st (AgentEndEvent (r_transcript r)) = Some EV_End"
  shows "ended 0 (finish e r)"
  using assms delivered_emit [of "setPhase PhaseDone r" "AgentEndEvent (r_transcript r)"]
  by (auto simp: going_def ended_def finish_def Let_def)

lemma finished_inv:
  assumes "inside ar"
  shows "loop_inv (finished s e ar)"
proof -
  obtain st n where "going st (snd ar)" "st = EV_Between n \<or> st = EV_Turn n" "a_running (fst ar) = 1"
    using assms by (auto simp: inside_def)
  then show ?thesis using finish_ended [of st "snd ar" e] by (auto simp: loop_inv_def finished_def at_def)
qed

lemma inside_emit:
  "inside (a, r) \<Longrightarrow> (\<And>n. ev_next (EV_Between n) e = Some (EV_Between n)) \<Longrightarrow>
     (\<And>n. ev_next (EV_Turn n) e = Some (EV_Turn n)) \<Longrightarrow> inside (a, emit e r)"
proof -
  assume "inside (a, r)" and b: "\<And>n. ev_next (EV_Between n) e = Some (EV_Between n)" "\<And>n. ev_next (EV_Turn n) e = Some (EV_Turn n)"
  then obtain st n where st: "going st r" "st = EV_Between n \<or> st = EV_Turn n" "a_running a = 1"
    by (auto simp: inside_def)
  then have "going st (emit e r)" using going_emit [OF st(1), of e st] b by metis
  then show ?thesis using st by (auto simp: inside_def)
qed

lemma turn_failed_inv: "inside ar \<Longrightarrow> loop_inv (turn_failed s e ar)"
  using finished_inv [of ar s] finished_inv [of "(fst ar, emit (LLMErrorEvent e False) (snd ar))" s]
    inside_emit [of "fst ar" "snd ar" "LLMErrorEvent e False"]
  by (auto simp: turn_failed_def split: option.split)

lemma turn_try_inv:
  "inside ar \<Longrightarrow> same_but_log ar (fst res) \<Longrightarrow> (snd res = None \<Longrightarrow> loop_inv (k (fst res))) \<Longrightarrow> loop_inv (turn_try s res k)"
  using turn_failed_inv [OF same_log_inside, of ar "fst res" s]
  by (cases res; cases "snd res") (simp_all add: turn_try_def)

lemma loop_try_inv:
  "inside (fst res) \<Longrightarrow> (snd res = None \<Longrightarrow> loop_inv (k (fst res))) \<Longrightarrow> loop_inv (loop_try s res k)"
  using finished_inv by (auto simp: loop_try_def split: prod.splits option.splits)

lemma at_inv: "pc_ok p (snd ar) (a_running (fst ar)) \<Longrightarrow> lo_leaked s = None \<or> is_ended p \<Longrightarrow> loop_inv (at s ar p)"
  by (auto simp: loop_inv_def at_def)

lemma insideI: "going (EV_Between n) r \<or> going (EV_Turn n) r \<Longrightarrow> a_running a = 1 \<Longrightarrow> inside (a, r)"
  by (auto simp: inside_def)

lemma loadTranscript_going:
  "loadTranscript R a r = (r', e) \<Longrightarrow> going st r' = going st r \<and> r_turn r' = r_turn r"
  by (auto simp: loadTranscript_def going_fields split: sum.splits)

lemma loop_start_inv:
  assumes "loop_inv s" "lo_pc s = PC_Start"
  shows "loop_inv (loop_start R s)"
proof -
  let ?r = "emit AgentStartEvent (lo_run s)"
  have g: "going (EV_Between 0) ?r" "r_turn ?r = 0" "a_running (lo_agent s) = 1" "lo_leaked s = None"
    using assms by (auto simp: loop_inv_def intro!: going_emit)
  obtain r1 e where l: "loadTranscript R (lo_agent s) ?r = (r1, e)" by fastforce
  then have r1: "going (EV_Between 0) r1" "r_turn r1 = 0" using g loadTranscript_going [OF l] by auto
  show ?thesis
  proof (cases e)
    case None
    have "going (EV_Between 0) (emit (MessageStartEvent ''user'' ''text'') r1)" by (rule going_emit [OF r1(1)]) simp
    then show ?thesis using None l g r1 by (auto simp: loop_start_def Let_def intro!: at_inv)
  next
    case (Some x)
    then show ?thesis using l g r1 by (auto simp: loop_start_def Let_def intro!: finished_inv insideI)
  qed
qed

lemma begin_turn_going:
  assumes "begin_turn a r0 = (r, res)" "going (EV_Between (r_turn r0)) r0"
  shows "going (EV_Turn (r_turn r)) r \<and> r_turn r = r_turn r0 + 1"
proof -
  let ?r3 = "emit (TurnStartEvent (r_turn r0 + 1)) ((setPhase PhaseWaitingLLM r0)\<lparr>r_turn := r_turn r0 + 1\<rparr>)"
  have g: "going (EV_Turn (r_turn r0 + 1)) ?r3"
    by (rule going_emit [where st = "EV_Between (r_turn r0)"]) (use assms(2) in \<open>simp_all add: going_simps\<close>)
  have k: "going (EV_Turn n) (emit (ThinkingUnsupportedEvent w x y z) r')" if "going (EV_Turn n) r'" for n w x y z r'
    by (rule going_emit [OF that]) simp
  show ?thesis using assms(1) g
    by (auto simp: begin_turn_def Let_def going_simps k split: option.splits sum.splits prod.splits if_splits)
qed

lemma loop_turn_inv:
  assumes "loop_inv s" "lo_pc s = PC_Turn"
  shows "loop_inv (loop_turn s)"
proof -
  obtain r res where b: "begin_turn (lo_agent s) (lo_run s) = (r, res)" by fastforce
  have i: "going (EV_Between (r_turn (lo_run s))) (lo_run s)" "a_running (lo_agent s) = 1" "lo_leaked s = None"
    using assms by (auto simp: loop_inv_def)
  have g: "going (EV_Turn (r_turn r)) r" using begin_turn_going [OF b i(1)] by blast
  show ?thesis
  proof (cases res)
    case (Returned x)
    then show ?thesis using b g i by (cases x) (simp add: loop_turn_def loop_inv_def at_def)
  next
    case (Failed e)
    then show ?thesis using b g i by (auto simp: loop_turn_def intro!: turn_failed_inv insideI)
  next
    case Panicked
    then show ?thesis using b g i by (auto simp: loop_turn_def intro!: at_inv)
  qed
qed

lemma start_message_going:
  "start_message type acc r = (acc', r') \<Longrightarrow> going (EV_Turn n) r \<Longrightarrow> going (EV_Turn n) r' \<and> r_turn r' = r_turn r"
  by (auto simp: start_message_def split: if_splits intro: going_emit)

lemma stream_event_going:
  assumes "stream_event ev acc r = Inl (acc', r')" "going (EV_Turn n) r"
  shows "going (EV_Turn n) r' \<and> r_turn r' = r_turn r"
proof -
  have k: "going (EV_Turn n) (emit e r2)" if "ev_next (EV_Turn n) e = Some (EV_Turn n)" "going (EV_Turn n) r2" for e r2
    using going_emit that by blast
  have m: "going (EV_Turn n) r2 \<and> r_turn r2 = r_turn r" if "start_message type acc1 r = (acc2, r2)" for type acc1 acc2 r2
    using start_message_going [OF that assms(2)] .
  show ?thesis using assms
    by (cases ev) (auto simp: stream_event_def Let_def split: prod.splits if_splits dest!: m intro!: k)
qed

lemma loop_stream_event_inv:
  assumes "loop_inv s" "lo_pc s = PC_Stream acc tools"
  shows "loop_inv (loop_stream_event ev acc tools s)"
proof -
  have i: "going (EV_Turn (r_turn (lo_run s))) (lo_run s)" "a_running (lo_agent s) = 1" "lo_leaked s = None"
    using assms by (auto simp: loop_inv_def)
  then show ?thesis
    by (auto simp: loop_stream_event_def intro!: at_inv turn_failed_inv insideI dest: stream_event_going split: sum.split)
qed

lemma failTruncated_log:
  "failTruncatedToolCalls R tcs ar = (ar', e) \<Longrightarrow> going (EV_Between n) (snd ar) \<Longrightarrow>
     going (EV_Between n) (snd ar') \<and> r_turn (snd ar') = r_turn (snd ar) \<and> a_running (fst ar') = a_running (fst ar)"
proof (induction tcs arbitrary: ar)
  case (Cons tc tcs)
  let ?r1 = "emit (ToolCallEndEvent (tcc_CallID tc) (tcc_ToolName tc) (truncated_result (tcc_ToolName tc))) (snd ar)"
  have g: "going (EV_Between n) ?r1" by (rule going_emit [OF Cons.prems(2)]) simp
  obtain ar2 x where a: "appendTranscript R [NewToolResultMsg (tcc_CallID tc) (tcc_ToolName tc) (truncated_result (tcc_ToolName tc))]
      (fst ar, ?r1) = (ar2, x)" by fastforce
  have "same_but_log (fst ar, ?r1) (fst ar2, snd ar2)" using appendTranscript_log [OF a] by simp
  from same_log_going [OF this] g have s: "going (EV_Between n) (snd ar2)" "r_turn (snd ar2) = r_turn (snd ar)"
    "a_running (fst ar2) = a_running (fst ar)" by auto
  show ?case
  proof (cases x)
    case None
    then show ?thesis using Cons.IH [of ar2] Cons.prems(1) a s by (simp add: Let_def)
  next
    case (Some z)
    then show ?thesis using Cons.prems(1) a s by (simp add: Let_def)
  qed
qed simp

lemma loop_stream_end_inv:
  assumes "loop_inv s" "lo_pc s = PC_Stream acc tools"
  shows "loop_inv (loop_stream_end R result acc tools s)"
proof -
  let ?n = "r_turn (lo_run s)"
  have i: "going (EV_Turn ?n) (lo_run s)" "a_running (lo_agent s) = 1" "lo_leaked s = None"
    using assms by (auto simp: loop_inv_def)
  then have ins: "inside (lo_agent s, lo_run s)" by (auto intro: insideI)
  show ?thesis
  proof (cases result)
    case None
    obtain a r e where ap: "append_each R (assistant_messages acc) (lo_agent s, lo_run s) = ((a, r), e)"
      by (metis surj_pair)
    note log = append_each_log [OF ap]
    have r: "going (EV_Turn ?n) r" "r_turn r = ?n" "a_running a = 1" using same_log_going [OF log] i by auto
    let ?r1 = "emit (TurnEndEvent (r_turn r)) r"
    have g: "going (EV_Between ?n) ?r1" by (rule going_emit [OF r(1)]) (simp add: r(2))
    have "loop_inv (turn_try s (failTruncatedToolCalls R (sa_toolCalls acc) (a, ?r1)) (\<lambda>ar. at s ar (PC_Flush True)))"
    proof -
      obtain ar' e' where f: "failTruncatedToolCalls R (sa_toolCalls acc) (a, ?r1) = (ar', e')" by fastforce
      have ar': "going (EV_Between ?n) (snd ar')" "r_turn (snd ar') = ?n" "a_running (fst ar') = 1"
        using failTruncated_log [OF f, of ?n] g r by auto
      then have "inside ar'" by (cases ar') (auto intro: insideI)
      then show ?thesis using ar' i
        by (cases e') (simp_all add: turn_try_def f turn_failed_inv at_inv)
    qed
    then show ?thesis using None ap ins log g r i
      by (auto simp: loop_stream_end_def Let_def intro!: turn_try_inv at_inv)
  next
    case (Some x)
    then show ?thesis using ins by (auto simp: loop_stream_end_def intro: turn_failed_inv)
  qed
qed

lemma emit_all_going:
  "\<forall>e \<in> set evs. ev_next st e = Some st \<Longrightarrow> going st r \<Longrightarrow> going st (emit_all evs r) \<and> r_turn (emit_all evs r) = r_turn r"
proof (induction evs arbitrary: r)
  case (Cons e evs)
  then have "going st (emit e r)" using going_emit by auto
  then show ?case using Cons.IH [of "emit e r"] Cons.prems by (simp add: emit_all_def)
qed (simp add: emit_all_def)

lemma batch_act_events:
  assumes "batch_act mx hooks i b = Some (evs, b')" "e \<in> set evs"
  shows "ev_next (EV_Between n) e = Some (EV_Between n) \<and> ev_next EV_End e = Some EV_End"
proof -
  obtain c j res where "evs = [] \<or> evs = [ToolUpdateEvent c j res] \<or> evs = [ToolCallEndEvent c j res]"
    using assms(1) by (auto simp: batch_act_def Let_def split: if_splits call_state.splits list.splits)
  then show ?thesis using assms(2) by auto
qed

lemma prepare_events:
  "prepareToolCall hooks tools tc = (evs, p) \<Longrightarrow> e \<in> set evs \<Longrightarrow> ev_next (EV_Between n) e = Some (EV_Between n)"
  by (auto simp: prepareToolCall_def Let_def split: option.splits)

lemma between_inv:
  assumes "loop_inv s" "\<And>r run. pc_ok (lo_pc s) r run \<Longrightarrow> going (EV_Between (r_turn r)) r \<and> run = 1" "\<not> is_ended (lo_pc s)"
  shows "going (EV_Between (r_turn (lo_run s))) (lo_run s)" "a_running (lo_agent s) = 1" "lo_leaked s = None"
    "inside (lo_agent s, lo_run s)"
proof -
  show *: "going (EV_Between (r_turn (lo_run s))) (lo_run s)" "a_running (lo_agent s) = 1" "lo_leaked s = None"
    using assms by (auto simp: loop_inv_def)
  show "inside (lo_agent s, lo_run s)" using * by (auto intro: insideI)
qed

lemma loop_preflight_inv:
  assumes "loop_inv s" "lo_pc s = PC_Preflight preps calls tools"
  shows "loop_inv (loop_preflight preps calls tools s)"
proof -
  note i = between_inv [OF assms(1)] assms(2)
  obtain evs p where p: "prepareToolCall (a_hooks (lo_agent s)) tools (hd calls) = (evs, p)" by fastforce
  have "going (EV_Between (r_turn (lo_run s))) (emit_all evs (lo_run s)) \<and> r_turn (emit_all evs (lo_run s)) = r_turn (lo_run s)"
    using emit_all_going [of evs "EV_Between (r_turn (lo_run s))"] prepare_events [OF p] i by simp
  then show ?thesis using i p
    by (auto simp: loop_preflight_def intro!: at_inv turn_failed_inv split: option.split list.split)
qed

lemma loop_leak_inv:
  assumes "loop_inv s" "lo_pc s = PC_Batch b down"
  shows "loop_inv (loop_leak cause b s)"
proof -
  note i = between_inv [OF assms(1)] assms(2)
  let ?evs = "map (\<lambda>p. ToolLeakEvent (p_name p) (p_callID p)) (leaked_calls b)"
  have "going (EV_Between (r_turn (lo_run s))) (emit_all ?evs (lo_run s))"
    using emit_all_going [of ?evs "EV_Between (r_turn (lo_run s))"] i by simp
  then have "inside (lo_agent s, emit_all ?evs (lo_run s))" using i by (auto intro: insideI)
  then show ?thesis by (simp add: loop_leak_def turn_failed_inv)
qed

lemma persist_results_inv:
  assumes "persist_results R results ar = (ar', e)" "going (EV_Between n) (snd ar)" "a_running (fst ar) = 1"
  shows "going (EV_Between n) (snd ar') \<and> r_turn (snd ar') = r_turn (snd ar) \<and> a_running (fst ar') = 1"
proof (cases "all_terminate results")
  case True
  then show ?thesis using assms by (auto simp: persist_results_def going_fields)
next
  case False
  obtain a r x where ap: "append_each R (map outcome_message (filter (\<lambda>x. \<not> suspends x) results)) ar = ((a, r), x)"
    by (metis surj_pair)
  have "same_but_log (fst ar, snd ar) (a, r)" using append_each_log [OF ap] by simp
  from same_log_going [OF this] show ?thesis
    using False ap assms by (cases x) (auto simp: persist_results_def going_fields setSuspended_def)
qed

lemma loop_results_inv:
  assumes "loop_inv s" "lo_pc s = PC_Results results"
  shows "loop_inv (turn_try s (persist_results R results (lo_agent s, lo_run s)) (\<lambda>ar. at s ar (PC_Flush True)))"
proof -
  note i = between_inv [OF assms(1)] assms(2)
  obtain ar e where p: "persist_results R results (lo_agent s, lo_run s) = (ar, e)" by fastforce
  have g: "going (EV_Between (r_turn (lo_run s))) (snd ar)" "r_turn (snd ar) = r_turn (lo_run s)" "a_running (fst ar) = 1"
    using persist_results_inv [OF p, of "r_turn (lo_run s)"] i by auto
  then have "inside ar" by (cases ar) (auto intro: insideI)
  then show ?thesis using g i by (cases e) (simp_all add: turn_try_def p turn_failed_inv at_inv)
qed

lemma loop_flush_inv:
  assumes "loop_inv s" "lo_pc s = PC_Flush had"
  shows "loop_inv (loop_flush R had s)"
proof -
  note i = between_inv [OF assms(1)] assms(2)
  obtain a r e where f: "flushPendingActiveTools R (lo_agent s, lo_run s) = ((a, r), e)" by (metis surj_pair)
  from same_log_going [OF flush_log [OF f]] i have g: "going (EV_Between (r_turn r)) r" "a_running a = 1" by auto
  then have "inside (a, r)" by (auto intro: insideI)
  then show ?thesis using g i by (cases e) (auto simp: loop_flush_def loop_try_def f Let_def finished_inv intro!: at_inv)
qed

lemma loop_inject_inv:
  assumes "loop_inv s" "lo_pc s = PC_Decide had" "going (EV_Between (r_turn (lo_run s))) r" "r_turn r = r_turn (lo_run s)"
    "\<And>n. ev_next (EV_Between n) (ev m) = Some (EV_Between n)"
  shows "loop_inv (loop_inject R m ev r s)"
proof -
  note i = between_inv [OF assms(1)] assms(2)
  obtain a r1 e where f: "appendTranscript R [m] (lo_agent s, r) = ((a, r1), e)" by (metis surj_pair)
  from same_log_going [OF appendTranscript_log [OF f]] i assms(3,4)
  have g: "going (EV_Between (r_turn r1)) r1" "a_running a = 1" by auto
  have "going (EV_Between (r_turn r1)) (emit (MessageStartEvent ''user'' ''text'') r1)" by (rule going_emit [OF g(1)]) simp
  then have "going (EV_Between (r_turn r1)) (emit (ev m) (emit (MessageStartEvent ''user'' ''text'') r1))"
    by (rule going_emit) (rule assms(5))
  moreover have "inside (a, r1)" using g by (auto intro: insideI)
  ultimately show ?thesis using g i by (cases e) (auto simp: loop_inject_def loop_try_def f finished_inv intro!: at_inv)
qed

lemma same_log_ended: "same_but_log (a, r) (a', r') \<Longrightarrow> ended n r \<Longrightarrow> ended n r' \<and> a_running a' = a_running a"
  by (auto simp: same_but_log_def ended_def prefix_def)

lemma ended_Suc: "ended n r \<Longrightarrow> n < 2 \<Longrightarrow> ended (Suc n) r"
  by (auto simp: ended_def)

lemma loop_deferred_inv:
  assumes "loop_inv s" "lo_pc s = PC_Deferred n"
  shows "loop_inv (loop_deferred R n s)"
proof -
  have i: "ended n (lo_run s)" "n \<le> 4" "a_running (lo_agent s) = (if n = 0 then 1 else 0)"
    using assms by (auto simp: loop_inv_def)
  consider "n = 0" | "n = 1" | "n = 2" | "n = 3" | "n = 4" using i(2) by linarith
  then show ?thesis
  proof cases
    case 1
    then show ?thesis using i ended_Suc [of 0] by (auto intro!: at_inv)
  next
    case 2
    obtain a r e where f: "flushPendingActiveTools R (lo_agent s, lo_run s) = ((a, r), e)" by (metis surj_pair)
    have "ended 1 r" "a_running a = 0" using same_log_ended [OF flush_log [OF f], of 1] i 2 by auto
    then show ?thesis using ended_Suc [of 1 r] 2 f by (auto intro!: at_inv simp: numeral_2_eq_2)
  next
    case 3
    then show ?thesis using i by (auto simp: numeral_2_eq_2 numeral_3_eq_3 ended_def intro!: at_inv)
  next
    case 4
    then show ?thesis using i by (auto simp: numeral_3_eq_3 ended_def closeEvents_def intro!: at_inv)
  next
    case 5
    have "loop_deferred R 4 s = at s (lo_agent s, cancel (sentinel_err ErrNoPromptInFlight) (lo_run s)) PC_Exited"
      by (simp add: eval_nat_numeral)
    then show ?thesis using i 5 by (auto simp: ended_fields intro!: at_inv)
  qed
qed

lemma ended_emit:
  assumes "ended n r" "ev_next EV_End e = Some EV_End"
  shows "ended n (emit e r)"
  using assms delivered_emit [of r e] by (auto simp: ended_def)

lemma emit_all_ended: "\<forall>e \<in> set evs. ev_next EV_End e = Some EV_End \<Longrightarrow> ended n r \<Longrightarrow> ended n (emit_all evs r)"
proof (induction evs arbitrary: r)
  case (Cons e evs)
  then show ?case using Cons.IH [of "emit e r"] ended_emit [of n r e] by (simp add: emit_all_def)
qed (simp add: emit_all_def)

lemma leaked_act_inv:
  assumes "loop_inv s" "lo_leaked s = Some b" "batch_act mx hooks i b = Some (evs, b')"
  shows "loop_inv (s\<lparr>lo_run := emit_all evs (lo_run s), lo_leaked := Some b'\<rparr>)"
proof -
  have "\<forall>e \<in> set evs. ev_next EV_End e = Some EV_End" using batch_act_events [OF assms(3)] by blast
  then have "ended n (lo_run s) \<Longrightarrow> ended n (emit_all evs (lo_run s))" for n by (rule emit_all_ended)
  then show ?thesis using assms(1,2) by (cases "lo_pc s") (auto simp: loop_inv_def)
qed

lemma loop_step_inv:
  assumes "loop_step R s t" "loop_inv s"
  shows "loop_inv t"
  using assms
proof cases
  case (BatchAct b down i evs b')
  note i = between_inv [OF assms(2)] BatchAct(2)
  have "going (EV_Between (r_turn (lo_run s))) (emit_all evs (lo_run s)) \<and> r_turn (emit_all evs (lo_run s)) = r_turn (lo_run s)"
    using emit_all_going [of evs "EV_Between (r_turn (lo_run s))"] batch_act_events [OF BatchAct(3)] i by simp
  then show ?thesis using i BatchAct(1) by (auto intro!: at_inv)
next
  case (BatchCancelled b)
  then show ?thesis using between_inv [OF assms(2)] by (auto intro!: at_inv)
next
  case (BatchDone b down)
  then show ?thesis using between_inv [OF assms(2)] by (auto intro!: at_inv)
next
  case (DecideSteer had m ms)
  then show ?thesis using between_inv [OF assms(2)]
    by (auto simp: going_fields intro!: loop_inject_inv [OF assms(2)])
next
  case (DecideFollowUp m ms)
  then show ?thesis using between_inv [OF assms(2)]
    by (auto simp: going_fields intro!: loop_inject_inv [OF assms(2)])
next
  case DecideAuto
  then show ?thesis using between_inv [OF assms(2)] by (auto intro!: at_inv)
next
  case (DecideCancelled had cause)
  then show ?thesis using between_inv [OF assms(2)] by (auto intro!: finished_inv)
next
  case DecideDone
  then show ?thesis using between_inv [OF assms(2)] by (auto intro!: finished_inv)
qed (use assms(2) in \<open>auto intro: loop_start_inv loop_turn_inv loop_stream_event_inv loop_stream_end_inv loop_preflight_inv
    loop_leak_inv loop_results_inv loop_flush_inv loop_deferred_inv leaked_act_inv\<close>)

lemma pc_ok_env:
  "pc_ok p (cancel c r) run = pc_ok p r run" "pc_ok p (r\<lparr>r_steerCh := q\<rparr>) run = pc_ok p r run"
  "pc_ok p (r\<lparr>r_followUpCh := q\<rparr>) run = pc_ok p r run"
  by (cases p; simp add: going_fields ended_fields; simp add: cancel_def split: option.split)+

lemma env_step_inv:
  assumes "env_step R s t" "loop_inv s"
  shows "loop_inv t"
  using assms
proof cases
  case (EnvActiveTools names)
  obtain a us e where "SetActiveTools R names (lo_agent s) = (a, us, e)" by (metis surj_pair)
  then show ?thesis using EnvActiveTools assms(2) SetActiveTools_fields(3) [of R names "lo_agent s" a us e]
    by (simp add: loop_inv_def)
qed (use assms(2) in \<open>auto simp: loop_inv_def pc_ok_env SetModel_def SetTools_def SetSystemPrompt_def SetThinkingLevel_def
    SetSkills_def split: option.split\<close>)

lemma launched_inv: "launched s \<Longrightarrow> loop_inv s"
  by (auto simp: launched_def loop_inv_def going_def)

lemma reach_inv: "reach R s t \<Longrightarrow> loop_inv s \<Longrightarrow> loop_inv t"
  by (induction rule: reach.induct) (auto intro: loop_step_inv env_step_inv)

end
