(* ===== verification/Prompt_Props.thy ===== *)
theory Prompt_Props
  imports Prompt_Loop
begin

text \<open>
  What holds of every execution of a prompt: the order of its events, its single result, the
  agreement of the transcript with the store, and the effect of cancelling and of the stop hook.
\<close>

section \<open>Consequences of the grammar\<close>

fun turn_starts :: "AgentEvent list \<Rightarrow> int list" where
  "turn_starts [] = []"
| "turn_starts (TurnStartEvent n # es) = n # turn_starts es"
| "turn_starts (_ # es) = turn_starts es"

fun is_end :: "AgentEvent \<Rightarrow> bool" where
  "is_end (AgentEndEvent _) = True"
| "is_end _ = False"

lemma turn_starts_append: "turn_starts (xs @ ys) = turn_starts xs @ turn_starts ys"
  by (induction xs rule: turn_starts.induct) simp_all

lemma ev_next_TurnStart:
  "ev_next st (TurnStartEvent n) = Some st' \<longleftrightarrow> (\<exists>k. st = EV_Between k \<and> n = k + 1 \<and> st' = EV_Turn n)"
  by (cases st) auto

lemma ev_next_keep:
  "ev_next st e = Some st' \<Longrightarrow> (\<And>k. e \<noteq> TurnStartEvent k) \<Longrightarrow> st' = EV_Between n \<or> st' = EV_Turn n \<Longrightarrow>
     st = EV_New \<and> n = 0 \<or> st = EV_Between n \<or> st = EV_Turn n"
  by (cases st) (auto split: AgentEvent.splits if_splits)

lemma ev_next_end:
  "ev_next st e = Some st' \<Longrightarrow> st' \<noteq> EV_New \<and> (st = EV_New \<longrightarrow> e = AgentStartEvent) \<and>
     (is_end e \<longrightarrow> st \<noteq> EV_End \<and> st' = EV_End) \<and> (\<not> is_end e \<longrightarrow> (st' = EV_End \<longleftrightarrow> st = EV_End))"
  by (cases st) (auto split: AgentEvent.splits if_splits)

lemma ev_run_facts:
  "ev_run evs = Some st \<Longrightarrow>
     (evs = [] \<longleftrightarrow> st = EV_New) \<and> (evs \<noteq> [] \<longrightarrow> hd evs = AgentStartEvent) \<and>
     (\<exists>k \<ge> 0. turn_starts evs = [1..k] \<and> (\<forall>n. st = EV_Between n \<or> st = EV_Turn n \<longrightarrow> n = k)) \<and>
     length (filter is_end evs) = (if st = EV_End then 1 else 0)"
proof (induction evs arbitrary: st rule: rev_induct)
  case (snoc e evs)
  then obtain st0 where s: "ev_run evs = Some st0" "ev_next st0 e = Some st" by (auto split: Option.bind_splits)
  note IH = snoc.IH [OF s(1)]
  have IH1: "evs = [] \<longleftrightarrow> st0 = EV_New" "evs \<noteq> [] \<longrightarrow> hd evs = AgentStartEvent"
    "length (filter is_end evs) = (if st0 = EV_End then 1 else 0)" using IH by blast+
  from IH obtain k where k: "0 \<le> k" "turn_starts evs = [1..k]" "\<forall>n. st0 = EV_Between n \<or> st0 = EV_Turn n \<longrightarrow> n = k" by blast
  have "[1..k + 1] = [1..k + 1 - 1] @ [k + 1]" by (rule upto_rec2) (use k(1) in linarith)
  then have up: "[1..k + 1] = [1..k] @ [k + 1]" by (simp only: add_diff_cancel_right')
  note e = ev_next_end [OF s(2)]
  have h: "hd (evs @ [e]) = AgentStartEvent" using IH1(1,2) e by (cases evs) auto
  moreover have "length (filter is_end (evs @ [e])) = (if st = EV_End then 1 else 0)" using IH1(3) e by auto
  moreover have "\<exists>k \<ge> 0. turn_starts (evs @ [e]) = [1..k] \<and> (\<forall>n. st = EV_Between n \<or> st = EV_Turn n \<longrightarrow> n = k)"
  proof (cases "\<exists>n. e = TurnStartEvent n")
    case True
    then obtain n where n: "e = TurnStartEvent n" by blast
    then obtain j where "st0 = EV_Between j" "n = j + 1" "st = EV_Turn n" using s(2) by (auto simp only: ev_next_TurnStart)
    moreover from this have "j = k" using k(3) by blast
    ultimately have st: "st = EV_Turn (k + 1)" "n = k + 1" by simp_all
    then have "turn_starts (evs @ [e]) = [1..k + 1]" using k(2) up n by (simp add: turn_starts_append)
    moreover have "0 \<le> k + 1" using k(1) by simp
    ultimately show ?thesis using st(1) by blast
  next
    case False
    then have t: "turn_starts (evs @ [e]) = [1..k]" using k(2) by (cases e) (simp_all add: turn_starts_append)
    have "n = k" if st: "st = EV_Between n \<or> st = EV_Turn n" for n
    proof -
      have "st0 = EV_New \<and> n = 0 \<or> st0 = EV_Between n \<or> st0 = EV_Turn n" using ev_next_keep [OF s(2)] False st by blast
      moreover have "k = 0" if "st0 = EV_New"
      proof -
        have "turn_starts evs = []" using IH1(1) that by simp
        then show ?thesis using k(1,2) by (metis upto_Nil2 linorder_not_le int_one_le_iff_zero_less order_antisym_conv)
      qed
      ultimately show ?thesis using k(3) by blast
    qed
    then show ?thesis using t k(1) by blast
  qed
  ultimately show ?case using e by blast
qed (auto intro: exI [of _ 0])

lemma ev_run_after_end:
  "ev_run (xs @ AgentEndEvent ms # ys) = Some st \<Longrightarrow> e \<in> set ys \<Longrightarrow> ev_next EV_End e = Some EV_End"
proof (induction ys arbitrary: st rule: rev_induct)
  case (snoc y ys)
  from snoc.prems(1) have "ev_run ((xs @ AgentEndEvent ms # ys) @ [y]) = Some st" by simp
  then obtain st0 where s: "ev_run (xs @ AgentEndEvent ms # ys) = Some st0" "ev_next st0 y = Some st"
    unfolding ev_run_snoc by (auto split: Option.bind_splits)
  have "length (filter is_end (xs @ AgentEndEvent ms # ys)) \<noteq> 0" by simp
  then have "st0 = EV_End" using ev_run_facts [OF s(1)] by presburger
  then have "ev_next EV_End y = Some EV_End" using s(2) by (cases y) auto
  then show ?case using snoc.IH [OF s(1)] snoc.prems(2) by auto
qed simp

section \<open>What a step keeps\<close>

text \<open>The configuration, the hooks, the tools, the session, the context and the turn number.\<close>

definition keeps :: "'s Agent \<times> promptRun \<Rightarrow> 's Agent \<times> promptRun \<Rightarrow> bool" where
  "keeps x y \<longleftrightarrow> a_config (fst y) = a_config (fst x) \<and> a_hooks (fst y) = a_hooks (fst x) \<and> a_tools (fst y) = a_tools (fst x) \<and>
     r_sessionID (snd y) = r_sessionID (snd x) \<and> r_ctx (snd y) = r_ctx (snd x) \<and> r_turn (snd y) = r_turn (snd x)"

definition keeps_state :: "'s loop_state \<Rightarrow> 's loop_state \<Rightarrow> bool" where
  "keeps_state s t \<longleftrightarrow> keeps (lo_agent s, lo_run s) (lo_agent t, lo_run t) \<and> lo_requests t = lo_requests s"

lemma keeps_refl [simp]: "keeps x x" by (simp add: keeps_def)

lemma keeps_trans: "keeps x y \<Longrightarrow> keeps y z \<Longrightarrow> keeps x z" by (simp add: keeps_def)

lemma keeps_emit [simp]: "keeps x (a, emit e r) \<longleftrightarrow> keeps x (a, r)"
  by (simp add: keeps_def)

lemma keeps_setPhase [simp]: "keeps x (a, setPhase p r) \<longleftrightarrow> keeps x (a, r)"
  by (simp add: keeps_def)

lemma keeps_finish [simp]: "keeps x (a, finish e r) \<longleftrightarrow> keeps x (a, r)"
  by (simp add: keeps_def)

lemma keeps_fields [simp]:
  "keeps x (a, r\<lparr>r_terminated := b\<rparr>) \<longleftrightarrow> keeps x (a, r)" "keeps x (a, setSuspended r) \<longleftrightarrow> keeps x (a, r)"
  "keeps x (a, r\<lparr>r_steerCh := q\<rparr>) \<longleftrightarrow> keeps x (a, r)" "keeps x (a, r\<lparr>r_followUpCh := q\<rparr>) \<longleftrightarrow> keeps x (a, r)"
  by (simp_all add: keeps_def)

lemma keeps_emit_all [simp]: "keeps x (a, emit_all es r) \<longleftrightarrow> keeps x (a, r)"
  by (induction es arbitrary: r) (simp_all add: emit_all_def)

lemma keeps_log: "same_but_log x y \<Longrightarrow> keeps x y"
  by (auto simp: same_but_log_def keeps_def)

lemma keeps_append: "appendTranscript R ms x = (y, e) \<Longrightarrow> keeps x y"
  by (rule keeps_log) (rule appendTranscript_log)

lemma keeps_append_each: "append_each R ms x = (y, e) \<Longrightarrow> keeps x y"
  by (rule keeps_log) (rule append_each_log)

lemma keeps_flush: "flushPendingActiveTools R (a, r) = (y, e) \<Longrightarrow> keeps (a, r) y"
  using keeps_log [OF flush_log, of R a r y e] by (simp add: keeps_def)

lemma keeps_load: "loadTranscript R a r = (r', e) \<Longrightarrow> keeps (a, r) (a, r')"
  by (auto simp: loadTranscript_def keeps_def split: sum.splits)

lemma keeps_truncated: "failTruncatedToolCalls R tcs x = (y, e) \<Longrightarrow> keeps x y"
proof (induction tcs arbitrary: x)
  case (Cons tc tcs)
  let ?r1 = "emit (ToolCallEndEvent (tcc_CallID tc) (tcc_ToolName tc) (truncated_result (tcc_ToolName tc))) (snd x)"
  obtain z w where a: "appendTranscript R [NewToolResultMsg (tcc_CallID tc) (tcc_ToolName tc) (truncated_result (tcc_ToolName tc))]
      (fst x, ?r1) = (z, w)" by fastforce
  have "keeps x z" using keeps_append [OF a] by (simp add: keeps_def)
  then show ?case using Cons.prems a Cons.IH [of z] keeps_trans [of x z y] by (cases w) (auto simp: Let_def)
qed simp

lemma keeps_persist: "persist_results R results x = (y, e) \<Longrightarrow> keeps x y"
proof -
  assume p: "persist_results R results x = (y, e)"
  obtain a r w where ap: "append_each R (map outcome_message (filter (\<lambda>x. \<not> suspends x) results)) x = ((a, r), w)"
    by (metis surj_pair)
  have "keeps x (a, r)" by (rule keeps_append_each [OF ap])
  then show ?thesis using p ap
    by (cases w) (auto simp: persist_results_def keeps_def split: if_splits)
qed

lemma keeps_at: "keeps (lo_agent s, lo_run s) ar \<Longrightarrow> keeps_state s (at s ar p)"
  by (simp add: keeps_state_def at_def)

lemma keeps_finished: "keeps (lo_agent s, lo_run s) ar \<Longrightarrow> keeps_state s (finished s e ar)"
  unfolding finished_def by (rule keeps_at) (cases ar, simp)

lemma keeps_turn_failed: "keeps (lo_agent s, lo_run s) ar \<Longrightarrow> keeps_state s (turn_failed s e ar)"
  unfolding turn_failed_def by (cases ar) (auto intro: keeps_finished split: option.split)

lemma keeps_turn_try:
  "keeps (lo_agent s, lo_run s) (fst res) \<Longrightarrow> (snd res = None \<Longrightarrow> keeps_state s (k (fst res))) \<Longrightarrow> keeps_state s (turn_try s res k)"
  by (cases res; cases "snd res") (simp_all add: turn_try_def keeps_turn_failed)

lemma keeps_loop_try:
  "keeps (lo_agent s, lo_run s) (fst res) \<Longrightarrow> (snd res = None \<Longrightarrow> keeps_state s (k (fst res))) \<Longrightarrow> keeps_state s (loop_try s res k)"
  by (cases res; cases "snd res") (simp_all add: loop_try_def keeps_finished)

lemma keeps_stream_event: "stream_event ev acc r = Inl (acc', r') \<Longrightarrow> keeps (a, r) (a, r')"
  by (cases ev) (auto simp: stream_event_def start_message_def Let_def keeps_def split: if_splits prod.splits)

lemma keeps_loop_start: "keeps_state s (loop_start R s)"
proof -
  obtain r1 e where l: "loadTranscript R (lo_agent s) (emit AgentStartEvent (lo_run s)) = (r1, e)" by fastforce
  have "keeps (lo_agent s, lo_run s) (lo_agent s, r1)" using keeps_load [OF l] by (simp add: keeps_def)
  then show ?thesis using l
    by (cases e) (auto simp: loop_start_def Let_def intro!: keeps_at keeps_finished)
qed

lemma keeps_loop_stream_event: "keeps_state s (loop_stream_event ev acc tools s)"
  by (auto simp: loop_stream_event_def intro: keeps_at keeps_turn_failed keeps_stream_event split: sum.split)

lemma keeps_loop_stream_end: "keeps_state s (loop_stream_end R result acc tools s)"
proof -
  obtain a r e where ap: "append_each R (assistant_messages acc) (lo_agent s, lo_run s) = ((a, r), e)" by (metis surj_pair)
  have k: "keeps (lo_agent s, lo_run s) (a, r)" by (rule keeps_append_each [OF ap])
  obtain y x where f: "failTruncatedToolCalls R (sa_toolCalls acc) (a, emit (TurnEndEvent (r_turn r)) r) = (y, x)" by fastforce
  have "keeps (lo_agent s, lo_run s) y" using keeps_trans [OF _ keeps_truncated [OF f], of "(lo_agent s, lo_run s)"] k by simp
  then show ?thesis using k f ap
    by (auto simp: loop_stream_end_def Let_def intro!: keeps_at keeps_turn_failed keeps_turn_try split: option.split)
qed

lemma keeps_loop_preflight: "keeps_state s (loop_preflight preps calls tools s)"
  by (auto simp: loop_preflight_def intro!: keeps_at keeps_turn_failed split: option.split list.split prod.split)

lemma keeps_loop_leak: "keeps_state s (loop_leak cause b s)"
  using keeps_turn_failed [of "s\<lparr>lo_leaked := Some b\<rparr>" "(lo_agent s, emit_all (map (\<lambda>p. ToolLeakEvent (p_name p) (p_callID p)) (leaked_calls b)) (lo_run s))" cause]
  by (simp add: loop_leak_def keeps_state_def)

lemma keeps_loop_flush: "keeps_state s (loop_flush R had s)"
proof -
  obtain a r e where f: "flushPendingActiveTools R (lo_agent s, lo_run s) = ((a, r), e)" by (metis surj_pair)
  have "keeps (lo_agent s, lo_run s) (a, r)" by (rule keeps_flush [OF f])
  then show ?thesis using f
    by (auto simp: loop_flush_def Let_def intro!: keeps_loop_try keeps_at keeps_finished)
qed

lemma keeps_loop_inject: "keeps (lo_agent s, lo_run s) (lo_agent s, r) \<Longrightarrow> keeps_state s (loop_inject R m ev r s)"
proof -
  assume k: "keeps (lo_agent s, lo_run s) (lo_agent s, r)"
  obtain a r1 e where f: "appendTranscript R [m] (lo_agent s, r) = ((a, r1), e)" by (metis surj_pair)
  have "keeps (lo_agent s, lo_run s) (a, r1)" using k keeps_append [OF f] by (rule keeps_trans)
  then show ?thesis using f
    by (auto simp: loop_inject_def intro!: keeps_loop_try keeps_at)
qed

lemmas keeps_loop = keeps_loop_start keeps_loop_stream_event keeps_loop_stream_end keeps_loop_preflight keeps_loop_leak
  keeps_loop_flush

text \<open>Every step but the start of a turn and the last deferred call keeps all of it.\<close>

lemma loop_step_keeps:
  assumes "loop_step R s t" "lo_pc s \<noteq> PC_Turn" "\<not> is_ended (lo_pc s)"
  shows "keeps_state s t"
  using assms
proof cases
  case (Results results)
  obtain y e where p: "persist_results R results (lo_agent s, lo_run s) = (y, e)" by fastforce
  then show ?thesis unfolding Results using keeps_persist [OF p] by (auto intro!: keeps_turn_try keeps_at)
next
  case (LeakedAct b i evs b')
  then show ?thesis by (simp add: keeps_state_def)
qed (auto intro: keeps_loop keeps_at keeps_finished keeps_loop_inject)

lemma begin_turn_facts:
  assumes "begin_turn a r0 = (r, res)"
  shows "r_ctx r = r_ctx r0" "r_sessionID r = r_sessionID r0" "r_turn r = r_turn r0 + 1" "r_transcript r = r_transcript r0"
    "r_ctx r0 = Some c \<Longrightarrow> res = Failed c"
  using assms
  by (auto simp: begin_turn_def Let_def split: option.splits sum.splits prod.splits if_splits)

text \<open>A failing turn keeps everything but the log.\<close>

lemma loop_turn_facts:
  assumes "lo_pc s = PC_Turn"
  shows "r_ctx (lo_run (loop_turn s)) = r_ctx (lo_run s)" "r_turn (lo_run (loop_turn s)) = r_turn (lo_run s) + 1"
    "r_sessionID (lo_run (loop_turn s)) = r_sessionID (lo_run s)"
    "a_config (lo_agent (loop_turn s)) = a_config (lo_agent s)" "a_hooks (lo_agent (loop_turn s)) = a_hooks (lo_agent s)"
    "r_ctx (lo_run s) \<noteq> None \<Longrightarrow> lo_requests (loop_turn s) = lo_requests s \<and> lo_pc (loop_turn s) = PC_Deferred 0"
    "length (lo_requests (loop_turn s)) \<le> Suc (length (lo_requests s))"
    "lo_pc (loop_turn s) = PC_Deferred 0 \<or> lo_pc (loop_turn s) = PC_Panicked \<or> (\<exists>tools. lo_pc (loop_turn s) = PC_Stream new_stream tools)"
proof -
  obtain r res where b: "begin_turn (lo_agent s) (lo_run s) = (r, res)" by fastforce
  have k: "keeps_state (s\<lparr>lo_run := r\<rparr>) (turn_failed (s\<lparr>lo_run := r\<rparr>) e (lo_agent s, r))" for e
    by (rule keeps_turn_failed) simp
  have f: "turn_failed (s\<lparr>lo_run := r\<rparr>) e (lo_agent s, r) = turn_failed s e (lo_agent s, r)" for e
    by (simp add: turn_failed_def finished_def at_def split: option.split)
  have q: "lo_requests (turn_failed s e ar) = lo_requests s" "lo_pc (turn_failed s e ar) = PC_Deferred 0" for e ar
    by (simp_all add: turn_failed_def finished_def at_def split: option.split)
  note all = k [unfolded f] q begin_turn_facts [OF b]
  show "r_ctx (lo_run (loop_turn s)) = r_ctx (lo_run s)" "r_turn (lo_run (loop_turn s)) = r_turn (lo_run s) + 1"
    "r_sessionID (lo_run (loop_turn s)) = r_sessionID (lo_run s)"
    "a_config (lo_agent (loop_turn s)) = a_config (lo_agent s)" "a_hooks (lo_agent (loop_turn s)) = a_hooks (lo_agent s)"
    "length (lo_requests (loop_turn s)) \<le> Suc (length (lo_requests s))"
    "lo_pc (loop_turn s) = PC_Deferred 0 \<or> lo_pc (loop_turn s) = PC_Panicked \<or> (\<exists>tools. lo_pc (loop_turn s) = PC_Stream new_stream tools)"
    using all b by (cases res; force simp: loop_turn_def keeps_state_def keeps_def at_def)+
  show "lo_requests (loop_turn s) = lo_requests s \<and> lo_pc (loop_turn s) = PC_Deferred 0" if ctx: "r_ctx (lo_run s) \<noteq> None"
  proof -
    obtain c where "r_ctx (lo_run s) = Some c" using ctx by blast
    then show ?thesis using begin_turn_facts(5) [OF b, of c] q b by (simp add: loop_turn_def)
  qed
qed

lemma deferred_cases:
  assumes "n \<le> (4 :: nat)"
  obtains "n = 0" | "n = Suc 0" | "n = Suc (Suc 0)" | "n = Suc (Suc (Suc 0))" | "n = Suc (Suc (Suc (Suc 0)))"
  using assms by force

lemma loop_deferred_facts:
  assumes "n \<le> 4"
  shows "a_config (lo_agent (loop_deferred R n s)) = a_config (lo_agent s)"
    "a_hooks (lo_agent (loop_deferred R n s)) = a_hooks (lo_agent s)"
    "r_sessionID (lo_run (loop_deferred R n s)) = r_sessionID (lo_run s)"
    "r_turn (lo_run (loop_deferred R n s)) = r_turn (lo_run s)"
    "lo_requests (loop_deferred R n s) = lo_requests s"
    "r_ctx (lo_run s) \<noteq> None \<Longrightarrow> r_ctx (lo_run (loop_deferred R n s)) = r_ctx (lo_run s)"
    "lo_pc (loop_deferred R n s) = (if n = 4 then PC_Exited else PC_Deferred (Suc n))"
proof -
  obtain a r e where f: "flushPendingActiveTools R (lo_agent s, lo_run s) = ((a, r), e)" by (metis surj_pair)
  have k: "keeps (lo_agent s, lo_run s) (a, r)" by (rule keeps_flush [OF f])
  have c: "r_ctx (cancel x r') = r_ctx r'" if "r_ctx r' \<noteq> None" for x r' using that by (auto simp: cancel_def)
  have c': "r_sessionID (cancel x r') = r_sessionID r'" "r_turn (cancel x r') = r_turn r'" for x r'
    by (simp_all add: cancel_def split: option.split)
  show "a_config (lo_agent (loop_deferred R n s)) = a_config (lo_agent s)"
    "a_hooks (lo_agent (loop_deferred R n s)) = a_hooks (lo_agent s)"
    "r_sessionID (lo_run (loop_deferred R n s)) = r_sessionID (lo_run s)"
    "r_turn (lo_run (loop_deferred R n s)) = r_turn (lo_run s)"
    "lo_requests (loop_deferred R n s) = lo_requests s"
    "lo_pc (loop_deferred R n s) = (if n = 4 then PC_Exited else PC_Deferred (Suc n))"
    using assms f k by (cases rule: deferred_cases; simp add: at_def keeps_def closeEvents_def c')+
  show "r_ctx (lo_run (loop_deferred R n s)) = r_ctx (lo_run s)" if "r_ctx (lo_run s) \<noteq> None"
    using assms f k that by (cases rule: deferred_cases) (simp_all add: at_def keeps_def closeEvents_def c)
qed

text \<open>What no step of a prompt changes, whoever takes it.\<close>

definition same_prompt :: "'s loop_state \<Rightarrow> 's loop_state \<Rightarrow> bool" where
  "same_prompt s t \<longleftrightarrow> a_config (lo_agent t) = a_config (lo_agent s) \<and> a_hooks (lo_agent t) = a_hooks (lo_agent s) \<and>
     r_sessionID (lo_run t) = r_sessionID (lo_run s)"

lemma loop_step_cases:
  assumes "loop_step R s t" "loop_inv s"
  obtains (Turn) "lo_pc s = PC_Turn" "t = loop_turn s"
    | (Deferred) n where "lo_pc s = PC_Deferred n" "n \<le> 4" "t = loop_deferred R n s"
    | (Late) evs b' where "is_ended (lo_pc s)" "t = s\<lparr>lo_run := emit_all evs (lo_run s), lo_leaked := Some b'\<rparr>"
    | (Other) "lo_pc s \<noteq> PC_Turn" "\<not> is_ended (lo_pc s)" "keeps_state s t"
proof (cases "lo_pc s = PC_Turn \<or> is_ended (lo_pc s)")
  case False
  then show thesis using loop_step_keeps [OF assms(1)] Other by blast
next
  case True
  from assms(1) show thesis
  proof cases
    case Turn
    then show thesis using that(1) by blast
  next
    case (Deferred n)
    then show thesis using that(2) assms(2) by (auto simp: loop_inv_def)
  next
    case (LeakedAct b i evs b')
    then show thesis using that(3) assms(2) by (auto simp: loop_inv_def)
  qed (use True in auto)
qed

lemma emit_all_simps [simp]:
  "r_ctx (emit_all es r) = r_ctx r" "r_sessionID (emit_all es r) = r_sessionID r" "r_turn (emit_all es r) = r_turn r"
  "r_transcript (emit_all es r) = r_transcript r"
  by (induction es arbitrary: r) (simp_all add: emit_all_def)

lemma loop_step_same: "loop_step R s t \<Longrightarrow> loop_inv s \<Longrightarrow> same_prompt s t"
  by (erule (1) loop_step_cases) (auto simp: same_prompt_def loop_turn_facts loop_deferred_facts keeps_state_def keeps_def)

lemma env_step_same:
  assumes "env_step R s t"
  shows "same_prompt s t"
  using assms
proof cases
  case (EnvActiveTools names)
  obtain a us e where "SetActiveTools R names (lo_agent s) = (a, us, e)" by (metis surj_pair)
  moreover have "a_hooks a = a_hooks (lo_agent s)"
    using calculation by (auto simp: SetActiveTools_def Let_def split: option.splits if_splits prod.splits)
  ultimately show ?thesis using SetActiveTools_fields(2) [of R names "lo_agent s" a us e] EnvActiveTools by (simp add: same_prompt_def)
qed (auto simp: same_prompt_def SetModel_def SetTools_def SetSystemPrompt_def SetThinkingLevel_def SetSkills_def cancel_def split: option.splits)

lemma reach_same: "reach R s t \<Longrightarrow> loop_inv s \<Longrightarrow> same_prompt s t"
proof (induction rule: reach.induct)
  case (reach_loop s t u)
  then show ?case using loop_step_same [OF reach_loop.hyps(2) reach_inv [OF reach_loop.hyps(1)]] by (auto simp: same_prompt_def)
next
  case (reach_env s t u)
  then show ?case using env_step_same [OF reach_env.hyps(2)] by (auto simp: same_prompt_def)
qed (simp add: same_prompt_def)

section \<open>Cancellation\<close>

lemma cancelled_step:
  assumes "loop_step R s t \<or> env_step R s t" "loop_inv s" "r_ctx (lo_run s) \<noteq> None"
  shows "r_ctx (lo_run t) = r_ctx (lo_run s) \<and> lo_requests t = lo_requests s"
  using assms(1)
proof
  assume "loop_step R s t"
  from this assms(2) show ?thesis
    by (cases rule: loop_step_cases) (use assms(3) in \<open>auto simp: loop_turn_facts loop_deferred_facts keeps_state_def keeps_def\<close>)
next
  assume "env_step R s t"
  then show ?thesis
    by cases (use assms(3) in \<open>auto simp: cancel_def split: option.split\<close>)
qed

lemma cancelled_reach:
  "reach R s t \<Longrightarrow> loop_inv s \<Longrightarrow> r_ctx (lo_run s) \<noteq> None \<Longrightarrow>
     r_ctx (lo_run t) = r_ctx (lo_run s) \<and> lo_requests t = lo_requests s"
proof (induction rule: reach.induct)
  case (reach_loop s t u)
  then show ?case using cancelled_step [of R t u] reach_inv [OF reach_loop.hyps(1)] by auto
next
  case (reach_env s t u)
  then show ?case using cancelled_step [of R t u] reach_inv [OF reach_env.hyps(1)] by auto
qed simp

section \<open>The stop hook\<close>

text \<open>A hook that asks to stop from turn \<open>N\<close> on, whatever the turn did, bounds the turns.\<close>

definition stops_at :: "Hooks \<Rightarrow> nat \<Rightarrow> bool" where
  "stops_at hooks N \<longleftrightarrow> (\<exists>h. h_ShouldStopAfterTurn hooks = Some h \<and> (\<forall>n had. N \<le> n \<longrightarrow> h n had))"

fun at_head :: "pc \<Rightarrow> bool" where
  "at_head PC_Start = True"
| "at_head PC_Turn = True"
| "at_head (PC_Decide _) = True"
| "at_head _ = False"

definition turns_ok :: "nat \<Rightarrow> 's loop_state \<Rightarrow> bool" where
  "turns_ok N s \<longleftrightarrow> r_turn (lo_run s) \<le> int N \<and> (at_head (lo_pc s) \<longrightarrow> r_turn (lo_run s) < int N) \<and>
     int (length (lo_requests s)) \<le> r_turn (lo_run s)"

lemma pc_simps [simp]:
  "lo_pc (at s ar p) = p" "lo_pc (finished s e ar) = PC_Deferred 0" "lo_pc (turn_failed s e' ar) = PC_Deferred 0"
  by (simp_all add: at_def finished_def turn_failed_def split: option.split)

lemma loop_try_pc: "lo_pc (loop_try s res k) = (case res of (ar, None) \<Rightarrow> lo_pc (k ar) | (ar, Some e) \<Rightarrow> PC_Deferred 0)"
  by (simp add: loop_try_def split: prod.split option.split)

lemma turn_try_pc: "lo_pc (turn_try s res k) = (case res of (ar, None) \<Rightarrow> lo_pc (k ar) | (ar, Some e) \<Rightarrow> PC_Deferred 0)"
  by (simp add: turn_try_def split: prod.split option.split)

text \<open>A step leads back to the head of the loop only from the decision, or to it when the hook allows it.\<close>

lemma loop_step_head:
  assumes "loop_step R s t" "at_head (lo_pc t)" "stops_at (a_hooks (lo_agent s)) N"
  shows "at_head (lo_pc s) \<or> (nat (r_turn (lo_run s)) < N \<and> \<not> is_ended (lo_pc s))"
  using assms(1)
proof cases
  case (Flush had)
  obtain a r e where f: "flushPendingActiveTools R (lo_agent s, lo_run s) = ((a, r), e)" by (metis surj_pair)
  have k: "a_hooks a = a_hooks (lo_agent s)" "r_turn r = r_turn (lo_run s)" using keeps_flush [OF f] by (simp_all add: keeps_def)
  have "e = None" using assms(2) Flush(1) f by (cases e) (simp_all add: loop_flush_def loop_try_def)
  then have "\<not> (case h_ShouldStopAfterTurn (a_hooks a) of None \<Rightarrow> False | Some h \<Rightarrow> h (nat (r_turn r)) had)"
    using assms(2) Flush(1) f by (auto simp: loop_flush_def loop_try_def Let_def split: if_splits)
  then have "nat (r_turn (lo_run s)) < N" using assms(3) k by (auto simp: stops_at_def not_le [symmetric])
  then show ?thesis using Flush by simp
next
  case (StreamEnd acc tools result)
  then show ?thesis using assms(2)
    by (auto simp: loop_stream_end_def turn_try_pc Let_def split: option.splits if_splits prod.splits)
next
  case (Deferred n)
  have "n = 0 \<or> n = 1 \<or> n = 2 \<or> n = 3 \<or> 4 \<le> n" by linarith
  then have "\<not> at_head (lo_pc (loop_deferred R n s))"
    by (cases "(R, n, s)" rule: loop_deferred.cases) auto
  then show ?thesis using assms(2) Deferred by simp
qed (use assms(2) in \<open>auto simp: loop_turn_def loop_stream_event_def loop_preflight_def loop_leak_def turn_try_pc
    split: outcome.splits sum.splits option.splits list.splits prod.splits if_splits\<close>)

lemma turns_ok_step:
  assumes "loop_step R s t" "loop_inv s" "stops_at (a_hooks (lo_agent s)) N" "turns_ok N s"
  shows "turns_ok N t"
proof -
  have h: "at_head (lo_pc t) \<Longrightarrow> at_head (lo_pc s) \<or> nat (r_turn (lo_run s)) < N"
    using loop_step_head [OF assms(1) _ assms(3)] by blast
  from assms(1,2) show ?thesis
  proof (cases rule: loop_step_cases)
    case Turn
    then show ?thesis using assms(4) loop_turn_facts [OF Turn(1)] by (auto simp: turns_ok_def)
  next
    case (Deferred n)
    then show ?thesis using assms(4) h by (auto simp: turns_ok_def loop_deferred_facts)
  next
    case (Late evs b')
    then show ?thesis using assms(4) by (auto simp: turns_ok_def)
  next
    case Other
    then have "r_turn (lo_run t) = r_turn (lo_run s)" "lo_requests t = lo_requests s" by (simp_all add: keeps_state_def keeps_def)
    then show ?thesis using assms(4) h by (auto simp: turns_ok_def)
  qed
qed

lemma turns_ok_env: "env_step R s t \<Longrightarrow> turns_ok N s \<Longrightarrow> turns_ok N t"
  by (erule env_step.cases) (auto simp: turns_ok_def cancel_def split: option.splits)

lemma turns_ok_reach:
  "reach R s t \<Longrightarrow> loop_inv s \<Longrightarrow> stops_at (a_hooks (lo_agent s)) N \<Longrightarrow> turns_ok N s \<Longrightarrow> turns_ok N t"
proof (induction rule: reach.induct)
  case (reach_loop s t u)
  have "a_hooks (lo_agent t) = a_hooks (lo_agent s)"
    using reach_same [OF reach_loop.hyps(1) reach_loop.prems(1)] by (simp add: same_prompt_def)
  then show ?case
    using turns_ok_step [OF reach_loop.hyps(2) reach_inv [OF reach_loop.hyps(1) reach_loop.prems(1)]] reach_loop.IH reach_loop.prems
    by simp
qed (auto intro: turns_ok_env)

section \<open>The transcript and the store\<close>

text \<open>What the loop needs of a backend: an append that succeeds extends what is loaded, one that fails changes nothing.\<close>

locale prompt_store =
  fixes R :: "'s SessionRepo"
  assumes append_exact: "repo_Append R i ms s = (s', e) \<Longrightarrow> repo_Load R i s = Inl old \<Longrightarrow>
      repo_Load R i s' = Inl (if e = None then old @ ms else old)"
begin

definition in_sync :: "'s Agent \<times> promptRun \<Rightarrow> bool" where
  "in_sync ar \<longleftrightarrow> repo_Load R (r_sessionID (snd ar)) (a_session (fst ar)) = Inl (r_transcript (snd ar))"

lemma sync_append: "appendTranscript R ms ar = (ar', e) \<Longrightarrow> in_sync ar \<Longrightarrow> in_sync ar'"
proof (cases ar)
  case (Pair a r)
  assume "appendTranscript R ms ar = (ar', e)" "in_sync ar"
  moreover obtain s x where "repo_Append R (r_sessionID r) ms (a_session a) = (s, x)" by fastforce
  ultimately show ?thesis
    using append_exact [of "r_sessionID r" ms "a_session a" s x "r_transcript r"] Pair
    by (cases x) (auto simp: appendTranscript_def in_sync_def)
qed

lemma sync_append_each: "append_each R ms ar = (ar', e) \<Longrightarrow> in_sync ar \<Longrightarrow> in_sync ar'"
proof (induction ms arbitrary: ar)
  case (Cons m ms)
  obtain y x where y: "appendTranscript R [m] ar = (y, x)" by fastforce
  then show ?case using Cons sync_append [OF y] by (cases x) auto
qed simp

lemma sync_same:
  "in_sync (a, r) \<Longrightarrow> a_session a' = a_session a \<Longrightarrow> r_sessionID r' = r_sessionID r \<Longrightarrow> r_transcript r' = r_transcript r \<Longrightarrow>
     in_sync (a', r')"
  by (simp add: in_sync_def)

lemma sync_simps [simp]:
  "in_sync (a, emit e r) \<longleftrightarrow> in_sync (a, r)" "in_sync (a, setPhase p r) \<longleftrightarrow> in_sync (a, r)"
  "in_sync (a, finish x r) \<longleftrightarrow> in_sync (a, r)" "in_sync (a, emit_all es r) \<longleftrightarrow> in_sync (a, r)"
  "in_sync (a, setSuspended r) \<longleftrightarrow> in_sync (a, r)" "in_sync (a, r\<lparr>r_terminated := b\<rparr>) \<longleftrightarrow> in_sync (a, r)"
  "in_sync (a, r\<lparr>r_steerCh := q\<rparr>) \<longleftrightarrow> in_sync (a, r)" "in_sync (a, r\<lparr>r_followUpCh := q\<rparr>) \<longleftrightarrow> in_sync (a, r)"
  "in_sync (a, cancel c r) \<longleftrightarrow> in_sync (a, r)" "in_sync (a\<lparr>a_running := n\<rparr>, r) \<longleftrightarrow> in_sync (a, r)"
  "in_sync (a\<lparr>a_pendingActiveTools := ps\<rparr>, r) \<longleftrightarrow> in_sync (a, r)"
  by (simp_all add: in_sync_def cancel_def split: option.split)

lemma sync_flush: "flushPendingActiveTools R (a, r) = (ar, e) \<Longrightarrow> in_sync (a, r) \<Longrightarrow> in_sync ar"
  by (auto simp: flushPendingActiveTools_def intro: sync_append_each)

lemma sync_truncated: "failTruncatedToolCalls R tcs ar = (ar', e) \<Longrightarrow> in_sync ar \<Longrightarrow> in_sync ar'"
proof (induction tcs arbitrary: ar)
  case (Cons tc tcs)
  let ?x = "(fst ar, emit (ToolCallEndEvent (tcc_CallID tc) (tcc_ToolName tc) (truncated_result (tcc_ToolName tc))) (snd ar))"
  obtain y x where a: "appendTranscript R [NewToolResultMsg (tcc_CallID tc) (tcc_ToolName tc) (truncated_result (tcc_ToolName tc))] ?x
      = (y, x)" by fastforce
  have "in_sync ?x" using Cons.prems(2) by (cases ar) simp
  then have "in_sync y" by (rule sync_append [OF a])
  then show ?case using Cons.IH [of y] Cons.prems(1) a by (cases x) (auto simp: Let_def)
qed simp

lemma sync_persist: "persist_results R results ar = (ar', e) \<Longrightarrow> in_sync ar \<Longrightarrow> in_sync ar'"
proof -
  assume p: "persist_results R results ar = (ar', e)" and i: "in_sync ar"
  obtain a r x where ap: "append_each R (map outcome_message (filter (\<lambda>x. \<not> suspends x) results)) ar = ((a, r), x)"
    by (metis surj_pair)
  have "in_sync (a, r)" by (rule sync_append_each [OF ap i])
  then show ?thesis using p ap i by (cases x; cases ar) (auto simp: persist_results_def split: if_splits)
qed

text \<open>In sync from the first turn to the end of the loop, once the transcript has been loaded.\<close>

definition store_inv :: "'s loop_state \<Rightarrow> bool" where
  "store_inv s \<longleftrightarrow>
     (lo_pc s \<noteq> PC_Start \<and> \<not> is_ended (lo_pc s) \<longrightarrow> in_sync (lo_agent s, lo_run s)) \<and>
     (lo_pc s = PC_Deferred 0 \<and> 0 < r_turn (lo_run s) \<longrightarrow> in_sync (lo_agent s, lo_run s))"

lemma store_at: "in_sync ar \<Longrightarrow> store_inv (at s ar p)"
  by (simp add: store_inv_def at_def)

lemma store_finished: "in_sync ar \<Longrightarrow> store_inv (finished s e ar)"
  unfolding finished_def by (rule store_at) (cases ar, simp)

lemma store_turn_failed: "in_sync ar \<Longrightarrow> store_inv (turn_failed s e ar)"
  unfolding turn_failed_def by (cases ar) (auto intro: store_finished split: option.split)

lemma store_turn_try:
  "in_sync (fst res) \<Longrightarrow> (snd res = None \<Longrightarrow> store_inv (k (fst res))) \<Longrightarrow> store_inv (turn_try s res k)"
  by (cases res; cases "snd res") (simp_all add: turn_try_def store_turn_failed)

lemma store_loop_try:
  "in_sync (fst res) \<Longrightarrow> (snd res = None \<Longrightarrow> store_inv (k (fst res))) \<Longrightarrow> store_inv (loop_try s res k)"
  by (cases res; cases "snd res") (simp_all add: loop_try_def store_finished)

lemma store_loop_start:
  assumes "loop_inv s" "lo_pc s = PC_Start"
  shows "store_inv (loop_start R s)"
proof -
  let ?r = "emit AgentStartEvent (lo_run s)"
  obtain r1 e where l: "loadTranscript R (lo_agent s) ?r = (r1, e)" by fastforce
  have t: "r_turn (lo_run s) = 0" using assms by (simp add: loop_inv_def)
  show ?thesis
  proof (cases e)
    case None
    then have "in_sync (lo_agent s, r1)" using l by (auto simp: loadTranscript_def in_sync_def split: sum.splits)
    then show ?thesis using None l by (auto simp: loop_start_def Let_def intro!: store_at)
  next
    case (Some x)
    then have "r_turn r1 = 0" using l t by (auto simp: loadTranscript_def split: sum.splits)
    then show ?thesis using Some l by (auto simp: loop_start_def Let_def store_inv_def finished_def at_def)
  qed
qed

lemma store_loop_turn:
  assumes "in_sync (lo_agent s, lo_run s)"
  shows "store_inv (loop_turn s)"
proof -
  obtain r res where b: "begin_turn (lo_agent s) (lo_run s) = (r, res)" by fastforce
  have i: "in_sync (lo_agent s, r)" using sync_same [OF assms] begin_turn_facts [OF b] by blast
  show ?thesis
  proof (cases res)
    case (Returned x)
    then show ?thesis using b i store_at [OF i] by (cases x) (simp add: loop_turn_def store_inv_def at_def)
  next
    case (Failed e)
    then show ?thesis using b i by (simp add: loop_turn_def store_turn_failed)
  next
    case Panicked
    then show ?thesis using b i by (simp add: loop_turn_def store_at)
  qed
qed

lemma sync_stream_event: "stream_event ev acc r = Inl (acc', r') \<Longrightarrow> in_sync (a, r) \<Longrightarrow> in_sync (a, r')"
  by (cases ev) (auto simp: stream_event_def start_message_def Let_def split: if_splits prod.splits)

lemma store_loop_stream_end:
  assumes "in_sync (lo_agent s, lo_run s)"
  shows "store_inv (loop_stream_end R result acc tools s)"
proof -
  obtain a r e where ap: "append_each R (assistant_messages acc) (lo_agent s, lo_run s) = ((a, r), e)" by (metis surj_pair)
  have k: "in_sync (a, r)" by (rule sync_append_each [OF ap assms])
  obtain y x where f: "failTruncatedToolCalls R (sa_toolCalls acc) (a, emit (TurnEndEvent (r_turn r)) r) = (y, x)" by fastforce
  have "in_sync y" by (rule sync_truncated [OF f]) (simp add: k)
  then show ?thesis using k f ap assms
    by (auto simp: loop_stream_end_def Let_def intro!: store_at store_turn_failed store_turn_try split: option.split)
qed

lemma store_loop_flush:
  assumes "in_sync (lo_agent s, lo_run s)"
  shows "store_inv (loop_flush R had s)"
proof -
  obtain a r e where f: "flushPendingActiveTools R (lo_agent s, lo_run s) = ((a, r), e)" by (metis surj_pair)
  have "in_sync (a, r)" by (rule sync_flush [OF f assms])
  then show ?thesis using f
    by (auto simp: loop_flush_def Let_def intro!: store_loop_try store_at store_finished)
qed

lemma store_loop_inject:
  assumes "in_sync (lo_agent s, r)"
  shows "store_inv (loop_inject R m ev r s)"
proof -
  obtain a r1 e where f: "appendTranscript R [m] (lo_agent s, r) = ((a, r1), e)" by (metis surj_pair)
  have "in_sync (a, r1)" by (rule sync_append [OF f assms])
  then show ?thesis using f by (auto simp: loop_inject_def intro!: store_loop_try store_at)
qed

lemma store_loop_step:
  assumes "loop_step R s t" "loop_inv s" "store_inv s"
  shows "store_inv t"
proof (cases "lo_pc s = PC_Start \<or> is_ended (lo_pc s)")
  case False
  then have i: "in_sync (lo_agent s, lo_run s)" using assms(3) by (simp add: store_inv_def)
  from assms(1) show ?thesis
  proof cases
    case (Results results)
    obtain y e where p: "persist_results R results (lo_agent s, lo_run s) = (y, e)" by fastforce
    then show ?thesis unfolding Results using sync_persist [OF p i] by (auto intro!: store_turn_try store_at)
  next
    case (StreamEvent acc tools ev)
    then show ?thesis using i sync_stream_event
      by (auto simp: loop_stream_event_def intro!: store_at store_turn_failed split: sum.split)
  next
    case (LeakedAct b i evs b')
    then show ?thesis using False assms(2) by (simp add: loop_inv_def)
  next
    case (BatchTimeout b cause)
    then show ?thesis using i by (simp add: loop_leak_def store_turn_failed)
  qed (use False i in \<open>auto simp: loop_preflight_def intro: store_loop_turn store_loop_stream_end store_loop_flush
      intro!: store_loop_inject store_at store_finished store_turn_failed split: option.split list.split prod.split\<close>)
next
  case True
  from assms(1) show ?thesis
  proof cases
    case Start
    then show ?thesis using store_loop_start [OF assms(2)] by simp
  next
    case (Deferred n)
    then have "n \<le> 4" using assms(2) by (simp add: loop_inv_def)
    then show ?thesis using Deferred by (simp add: store_inv_def loop_deferred_facts)
  next
    case (LeakedAct b i evs b')
    then show ?thesis using True assms(3) by (auto simp: store_inv_def)
  qed (use True in auto)
qed

lemma store_env_step:
  assumes "env_step R s t" "loop_inv s" "store_inv s"
  shows "store_inv t"
  using assms(1)
proof cases
  case (EnvActiveTools names)
  obtain a us e where u: "SetActiveTools R names (lo_agent s) = (a, us, e)" by (metis surj_pair)
  have "a_session a = a_session (lo_agent s)" if "isRunning (lo_agent s)"
    using u that by (auto simp: SetActiveTools_def Let_def isRunning_def split: option.splits if_splits)
  moreover have "isRunning (lo_agent s)" if "\<not> is_ended (lo_pc s) \<or> lo_pc s = PC_Deferred 0"
    using assms(2) that by (cases "lo_pc s") (auto simp: loop_inv_def isRunning_def)
  ultimately show ?thesis using EnvActiveTools assms(3) u sync_same [of "lo_agent s" "lo_run s" a "lo_run s"]
    by (auto simp: store_inv_def)
qed (use assms(3) in \<open>auto simp: store_inv_def in_sync_def cancel_def SetModel_def SetTools_def SetSystemPrompt_def
    SetThinkingLevel_def SetSkills_def split: option.splits\<close>)

lemma store_reach: "reach R s t \<Longrightarrow> loop_inv s \<Longrightarrow> store_inv s \<Longrightarrow> store_inv t"
proof (induction rule: reach.induct)
  case (reach_loop t u)
  then show ?case using store_loop_step reach_inv by blast
next
  case (reach_env t u)
  then show ?case using store_env_step reach_inv by blast
qed simp

end

interpretation im_prompt: prompt_store im_repo
proof unfold_locales
  fix i ms s s' e old
  assume a: "repo_Append im_repo i ms s = (s', e)" "repo_Load im_repo i s = Inl old"
  then have "e = None" by (auto simp: im_repo_def im_Append_def Let_def split: option.splits)
  then show "repo_Load im_repo i s' = Inl (if e = None then old @ ms else old)"
    using a im.load_append [of i ms s s' old] by (simp add: im_repo_def list_all_iff)
qed

interpretation ms_prompt: prompt_store ms_repo
proof unfold_locales
  fix i ms s s' e old
  assume a: "repo_Append ms_repo i ms s = (s', e)" "repo_Load ms_repo i s = Inl old"
  then have "e = None" using ms_AppendD by (auto simp: ms_repo_def)
  then show "repo_Load ms_repo i s' = Inl (if e = None then old @ ms else old)"
    using a ms.load_append [of i ms s s' old] by (simp add: ms_repo_def list_all_iff)
qed

section \<open>Progress\<close>

definition batch_inv :: "'s loop_state \<Rightarrow> bool" where
  "batch_inv s \<longleftrightarrow> (\<forall>b down. lo_pc s = PC_Batch b down \<longrightarrow>
     0 \<le> c_MaxParallelTools (a_config (lo_agent s)) \<and>
     batch_ok (c_MaxParallelTools (a_config (lo_agent s))) (a_hooks (lo_agent s)) b)"

lemma batch_inv_other: "(\<And>b down. lo_pc s \<noteq> PC_Batch b down) \<Longrightarrow> batch_inv s"
  by (simp add: batch_inv_def)

lemma batch_inv_step:
  assumes "loop_step R s t" "loop_inv s" "batch_inv s"
  shows "batch_inv t"
proof (cases "\<exists>b down. lo_pc t = PC_Batch b down")
  case True
  then obtain b' down' where t: "lo_pc t = PC_Batch b' down'" by blast
  have same: "a_config (lo_agent t) = a_config (lo_agent s)" "a_hooks (lo_agent t) = a_hooks (lo_agent s)"
    using loop_step_same [OF assms(1,2)] by (simp_all add: same_prompt_def)
  from assms(1) have "0 \<le> c_MaxParallelTools (a_config (lo_agent s)) \<and>
      batch_ok (c_MaxParallelTools (a_config (lo_agent s))) (a_hooks (lo_agent s)) b'"
  proof cases
    case (Preflight preps calls tools)
    then show ?thesis using t start_batch_ok
      by (auto simp: loop_preflight_def split: option.splits list.splits prod.splits if_splits)
  next
    case (BatchAct b down i evs b2)
    then show ?thesis using t assms(3) batch_act_ok(1) by (fastforce simp: batch_inv_def)
  next
    case (BatchCancelled b)
    then show ?thesis using t assms(3) by (auto simp: batch_inv_def)
  next
    case (LeakedAct b i evs b2)
    then show ?thesis using t assms(2) by (auto simp: loop_inv_def)
  next
    case (Deferred n)
    then have "n \<le> 4" using assms(2) by (simp add: loop_inv_def)
    then show ?thesis using Deferred t loop_deferred_facts(7) [of n R s] by (simp split: if_splits)
  next
    case Start
    then show ?thesis using t by (auto simp: loop_start_def Let_def split: prod.splits option.splits)
  next
    case Turn
    then show ?thesis using t loop_turn_facts(8) [of s] by auto
  next
    case (StreamEvent acc tools ev)
    then show ?thesis using t by (auto simp: loop_stream_event_def split: sum.splits)
  next
    case (StreamEnd acc tools result)
    then show ?thesis using t by (auto simp: loop_stream_end_def turn_try_pc Let_def split: option.splits if_splits prod.splits)
  next
    case (Results results)
    then show ?thesis using t by (auto simp: turn_try_pc split: option.splits prod.splits)
  next
    case (Flush had)
    then show ?thesis using t by (auto simp: loop_flush_def loop_try_pc Let_def split: option.splits prod.splits if_splits)
  next
    case (DecideSteer had m ms)
    then show ?thesis using t by (auto simp: loop_inject_def loop_try_pc split: option.splits prod.splits)
  next
    case (DecideFollowUp m ms)
    then show ?thesis using t by (auto simp: loop_inject_def loop_try_pc split: option.splits prod.splits)
  qed (use t in \<open>auto simp: loop_leak_def\<close>)
  then show ?thesis using t same by (simp add: batch_inv_def)
qed (auto intro: batch_inv_other)

lemma batch_inv_env: "env_step R s t \<Longrightarrow> batch_inv s \<Longrightarrow> batch_inv t"
proof -
  assume e: "env_step R s t" and b: "batch_inv s"
  have "lo_pc t = lo_pc s" using e by cases auto
  then show ?thesis using b env_step_same [OF e] by (simp add: batch_inv_def same_prompt_def)
qed

lemma batch_inv_reach: "reach R s t \<Longrightarrow> loop_inv s \<Longrightarrow> batch_inv s \<Longrightarrow> batch_inv t"
proof (induction rule: reach.induct)
  case (reach_loop s t u)
  then show ?case using batch_inv_step reach_inv by blast
next
  case (reach_env s t u)
  then show ?case using batch_inv_env by blast
qed simp

lemma decide_step:
  assumes "lo_pc s = PC_Decide had"
  shows "(\<exists>m ev r. loop_step R s (loop_inject R m ev r s)) \<or> loop_step R s (at s (lo_agent s, lo_run s) PC_Turn) \<or>
    (\<exists>e. loop_step R s (finished s e (lo_agent s, lo_run s)))"
proof (cases "r_steerCh (lo_run s)")
  case (Cons m ms)
  then show ?thesis using DecideSteer [OF assms, of m ms R] by blast
next
  case Nil
  show ?thesis
  proof (cases "r_ctx (lo_run s)")
    case (Some cause)
    then show ?thesis using DecideCancelled [OF assms Nil, of cause R] by blast
  next
    case None
    show ?thesis
    proof (cases had)
      case True
      then show ?thesis using DecideAuto [of s R] assms Nil None by simp
    next
      case False
      then show ?thesis
        using DecideFollowUp [of s _ _ R] DecideDone [of s R] assms Nil None
        by (cases "r_followUpCh (lo_run s)") auto
    qed
  qed
qed

text \<open>The loop can go on from every state but the last; the callers are not needed for it.\<close>

lemma loop_progress:
  assumes "loop_inv s" "batch_inv s" "lo_pc s \<noteq> PC_Exited" "lo_pc s \<noteq> PC_Panicked"
  shows "\<exists>t. loop_step R s t"
proof (cases "lo_pc s")
  case (PC_Batch b down)
  then have ok: "0 \<le> c_MaxParallelTools (a_config (lo_agent s))"
    "batch_ok (c_MaxParallelTools (a_config (lo_agent s))) (a_hooks (lo_agent s)) b"
    using assms(2) by (auto simp: batch_inv_def)
  show ?thesis
  proof (cases "batch_done b")
    case True
    then show ?thesis using PC_Batch by (blast intro: BatchDone)
  next
    case False
    then show ?thesis using batch_act_enabled [OF ok(2) False ok(1)] PC_Batch by (blast intro: BatchAct)
  qed
next
  case (PC_Decide had)
  from decide_step [OF this] show ?thesis by blast
qed (use assms(3,4) in \<open>blast intro: loop_step.intros\<close>)+

text \<open>A prompt that can be brought to its end by the loop's own steps.\<close>

inductive can_finish :: "'s SessionRepo \<Rightarrow> 's loop_state \<Rightarrow> bool" for R where
  cf_end: "lo_pc s = PC_Exited \<or> lo_pc s = PC_Panicked \<Longrightarrow> can_finish R s"
| cf_step: "loop_step R s t \<Longrightarrow> can_finish R t \<Longrightarrow> can_finish R s"

lemma deferred_can_finish: "n \<le> 4 \<Longrightarrow> lo_pc s = PC_Deferred n \<Longrightarrow> can_finish R s"
proof (induction "4 - n" arbitrary: n s)
  case 0
  then have "lo_pc (loop_deferred R n s) = PC_Exited" using loop_deferred_facts(7) [of n R s] by simp
  then show ?case using cf_step [OF Deferred [OF 0(3)] cf_end] by blast
next
  case (Suc k)
  then have "lo_pc (loop_deferred R n s) = PC_Deferred (Suc n)" using loop_deferred_facts(7) [of n R s] by simp
  then have "can_finish R (loop_deferred R n s)" using Suc.hyps(1) [of "Suc n"] Suc.hyps(2) by simp
  then show ?case by (rule cf_step [OF Deferred [OF Suc.prems(2)]])
qed

lemma finished_can_finish: "can_finish R (finished s e ar)" "can_finish R (turn_failed s e' ar)"
  by (rule deferred_can_finish [of 0]; simp)+

lemma turn_can_finish: "lo_pc s = PC_Turn \<Longrightarrow> can_finish R s"
proof -
  assume p: "lo_pc s = PC_Turn"
  have "can_finish R (loop_turn s)"
    using loop_turn_facts(8) [OF p]
  proof (elim disjE exE)
    fix tools assume q: "lo_pc (loop_turn s) = PC_Stream new_stream tools"
    have "can_finish R (loop_stream_end R (Some (errors_new [])) new_stream tools (loop_turn s))"
      by (simp add: loop_stream_end_def finished_can_finish)
    then show ?thesis by (rule cf_step [OF StreamEnd [OF q]])
  qed (auto intro: deferred_can_finish [of 0] cf_end)
  then show ?thesis by (rule cf_step [OF Turn [OF p]])
qed

lemma decide_can_finish: "lo_pc s = PC_Decide had \<Longrightarrow> can_finish R s"
proof -
  assume p: "lo_pc s = PC_Decide had"
  have inj: "can_finish R (loop_inject R m ev r s)" for m ev r
    by (simp add: loop_inject_def loop_try_def finished_can_finish turn_can_finish split: prod.split option.split)
  have turn: "can_finish R (at s ar PC_Turn)" for ar by (rule turn_can_finish) simp
  from decide_step [OF p] show ?thesis
    using cf_step [OF _ inj] cf_step [OF _ turn] cf_step [OF _ finished_can_finish(1)] by blast
qed

lemma flush_can_finish: "lo_pc s = PC_Flush had \<Longrightarrow> can_finish R s"
proof -
  assume p: "lo_pc s = PC_Flush had"
  have "can_finish R (at s ar (PC_Decide had))" for ar by (rule decide_can_finish) simp
  then have "can_finish R (loop_flush R had s)"
    by (simp add: loop_flush_def loop_try_def Let_def finished_can_finish split: prod.split option.split)
  then show ?thesis by (rule cf_step [OF Flush [OF p]])
qed

lemma results_can_finish: "lo_pc s = PC_Results results \<Longrightarrow> can_finish R s"
proof -
  assume p: "lo_pc s = PC_Results results"
  have "can_finish R (at s ar (PC_Flush True))" for ar by (rule flush_can_finish) simp
  then have "can_finish R (turn_try s (persist_results R results (lo_agent s, lo_run s)) (\<lambda>ar. at s ar (PC_Flush True)))"
    by (simp add: turn_try_def finished_can_finish split: prod.split option.split)
  then show ?thesis by (rule cf_step [OF Results [OF p]])
qed

lemma batch_can_finish:
  "lo_pc s = PC_Batch b down \<Longrightarrow> 0 \<le> c_MaxParallelTools (a_config (lo_agent s)) \<Longrightarrow>
     batch_ok (c_MaxParallelTools (a_config (lo_agent s))) (a_hooks (lo_agent s)) b \<Longrightarrow> can_finish R s"
proof (induction "batch_steps_left b" arbitrary: b s)
  case 0
  then have "batch_done b" using batch_done_steps by metis
  have "can_finish R (at s (lo_agent s, lo_run s) (PC_Results (b_results b)))" by (rule results_can_finish) simp
  then show ?case by (rule cf_step [OF BatchDone [OF 0(2) \<open>batch_done b\<close>]])
next
  case (Suc k)
  then have "\<not> batch_done b" using batch_done_steps [OF Suc.prems(3)] by simp
  then obtain i evs b' where act: "batch_act (c_MaxParallelTools (a_config (lo_agent s))) (a_hooks (lo_agent s)) i b = Some (evs, b')"
    using batch_act_enabled [OF Suc.prems(3) _ Suc.prems(2)] by blast
  note a = batch_act_ok [OF Suc.prems(3) act]
  let ?t = "at s (lo_agent s, emit_all evs (lo_run s)) (PC_Batch b' down)"
  have "can_finish R ?t"
    by (rule Suc.hyps(1) [of b']) (use Suc.hyps(2) Suc.prems a in \<open>simp_all add: at_def\<close>)
  then show ?case by (rule cf_step [OF BatchAct [OF Suc.prems(1) act]])
qed

lemma preflight_can_finish: "lo_pc s = PC_Preflight preps calls tools \<Longrightarrow> can_finish R s"
proof (induction calls arbitrary: preps s)
  case Nil
  let ?t = "at s (lo_agent s, lo_run s) (PC_Batch (start_batch preps) False)"
  have "can_finish R ?t" if "\<not> c_MaxParallelTools (a_config (lo_agent s)) < 0"
    by (rule batch_can_finish [where b = "start_batch preps"]) (use that start_batch_ok in \<open>auto simp: at_def\<close>)
  then have "can_finish R (loop_preflight preps [] tools s)"
    by (auto simp: loop_preflight_def intro: finished_can_finish cf_end split: option.split)
  then show ?case by (rule cf_step [OF Preflight [OF Nil]])
next
  case (Cons tc calls)
  have "can_finish R (loop_preflight preps (tc # calls) tools s)"
    using Cons.IH by (auto simp: loop_preflight_def intro: finished_can_finish split: option.split prod.split)
  then show ?case by (rule cf_step [OF Preflight [OF Cons.prems]])
qed

lemma always_can_finish:
  assumes "loop_inv s" "batch_inv s"
  shows "can_finish R s"
proof (cases "lo_pc s")
  case PC_Start
  have "can_finish R (loop_start R s)"
    by (auto simp: loop_start_def Let_def intro: finished_can_finish turn_can_finish split: prod.split option.split)
  then show ?thesis by (rule cf_step [OF Start [OF PC_Start]])
next
  case (PC_Stream acc tools)
  have "can_finish R (loop_stream_end R (Some (errors_new [])) acc tools s)"
    by (simp add: loop_stream_end_def finished_can_finish)
  then show ?thesis by (rule cf_step [OF StreamEnd [OF PC_Stream]])
next
  case (PC_Batch b down)
  then show ?thesis using batch_can_finish assms(2) by (auto simp: batch_inv_def)
next
  case (PC_Deferred n)
  then show ?thesis using deferred_can_finish assms(1) by (auto simp: loop_inv_def)
qed (auto intro: turn_can_finish decide_can_finish flush_can_finish results_can_finish preflight_can_finish cf_end)

end
