(* ===== verification/Agent_Start.thy ===== *)
theory Agent_Start
  imports Prompt_Props
begin

text \<open>
  Starting a prompt and the control methods of the agent (agent.go): \<open>start\<close> behind \<open>Prompt\<close> and
  \<open>Resume\<close>, \<open>Stop\<close>, \<open>Context\<close>, \<open>Steer\<close>, \<open>FollowUp\<close>, \<open>State\<close>, \<open>Transcript\<close> and \<open>Close\<close>. The event stream
  \<open>start\<close> returns is the events and the result of the run it leaves in \<open>current\<close>. A caller's context is
  its cause of cancellation, if it is cancelled.
\<close>

record 's AgentObject =
  ag_agent :: "'s Agent"
  ag_current :: "promptRun option"

definition new_object :: "'s Agent \<Rightarrow> 's AgentObject" where
  "new_object a = \<lparr>ag_agent = a, ag_current = None\<rparr>"

section \<open>The session of a prompt\<close>

definition recordActiveToolsOnCreate :: "'s SessionRepo \<Rightarrow> string \<Rightarrow> 's Agent \<Rightarrow> 's Agent \<times> err option" where
  "recordActiveToolsOnCreate R sid a =
     (case a_activeToolNames a of
        None \<Rightarrow> (a, None)
      | Some names \<Rightarrow>
          if sameStringSet names (toolNames (a_tools a)) then (a, None)
          else (case repo_Append R sid [NewActiveToolsChange (Some names)] (a_session a) of
                  (s, e) \<Rightarrow> (a\<lparr>a_session := s\<rparr>, e)))"

definition restoreActiveToolsFromSession :: "'s SessionRepo \<Rightarrow> string \<Rightarrow> 's Agent \<Rightarrow> 's Agent \<times> err option" where
  "restoreActiveToolsFromSession R sid a =
     (case repo_Load R sid (a_session a) of
        Inr e \<Rightarrow> (a, Some e)
      | Inl msgs \<Rightarrow>
          (case activeToolNamesFromTranscript msgs of
             Some names \<Rightarrow> (a\<lparr>a_activeToolNames := names\<rparr>, None)
           | None \<Rightarrow> (a\<lparr>a_activeToolNames := None\<rparr>, None)))"

definition overrideSystemPrompt :: "'s SessionRepo \<Rightarrow> string \<Rightarrow> string \<Rightarrow> 's Agent \<Rightarrow> 's Agent \<times> err option" where
  "overrideSystemPrompt R sid prompt a =
     (case repo_Load R sid (a_session a) of
        Inr e \<Rightarrow> (a, Some e)
      | Inl msgs \<Rightarrow>
          if msgs \<noteq> [] \<and> m_Role (hd msgs) = ''system''
          then (case repo_Append R sid [NewSystem prompt] (a_session a) of (s, e) \<Rightarrow> (a\<lparr>a_session := s\<rparr>, e))
          else (a, None))"

text \<open>A new session, with the system prompt and the active tools recorded.\<close>

definition create_session :: "'s SessionRepo \<Rightarrow> PromptOpts \<Rightarrow> turnSnapshot \<Rightarrow> 's Agent \<Rightarrow> 's Agent \<times> (string + err)" where
  "create_session R opts snap a =
     (case repo_Create R (a_session a) of
        (s, Inr e) \<Rightarrow> (a\<lparr>a_session := s\<rparr>, Inr (wrap_err ''creating session: '' e))
      | (s, Inl sid) \<Rightarrow>
          (let a1 = a\<lparr>a_session := s\<rparr>;
               sysPrompt = (if po_SystemPrompt opts = [] then ts_systemPrompt snap else po_SystemPrompt opts)
           in case (if sysPrompt = [] then (s, None) else repo_Append R sid [NewSystem sysPrompt] s) of
                (s2, Some e) \<Rightarrow> (a1\<lparr>a_session := s2\<rparr>, Inr (wrap_err ''appending system prompt: '' e))
              | (s2, None) \<Rightarrow>
                  (case recordActiveToolsOnCreate R sid (a1\<lparr>a_session := s2\<rparr>) of
                     (a3, Some e) \<Rightarrow> (a3, Inr (wrap_err ''recording active tools: '' e))
                   | (a3, None) \<Rightarrow> (a3, Inl sid))))"

text \<open>An existing one. The error of the backend is replaced, not wrapped.\<close>

definition open_session :: "'s SessionRepo \<Rightarrow> PromptOpts \<Rightarrow> 's Agent \<Rightarrow> 's Agent \<times> (string + err)" where
  "open_session R opts a =
     (let sid = po_SessionID opts in
      case restoreActiveToolsFromSession R sid a of
        (a1, Some e) \<Rightarrow> (a1, Inr (errorf_w (''loading session '' @ go_quote sid) ErrSessionNotFound))
      | (a1, None) \<Rightarrow>
          if po_SystemPrompt opts = [] then (a1, Inl sid)
          else (case overrideSystemPrompt R sid (po_SystemPrompt opts) a1 of
                  (a2, Some e) \<Rightarrow> (a2, Inr (wrap_err ''overriding system prompt: '' e))
                | (a2, None) \<Rightarrow> (a2, Inl sid)))"

definition resolve_session :: "'s SessionRepo \<Rightarrow> PromptOpts \<Rightarrow> turnSnapshot \<Rightarrow> 's Agent \<Rightarrow> 's Agent \<times> (string + err)" where
  "resolve_session R opts snap a = (if po_SessionID opts = [] then create_session R opts snap a else open_session R opts a)"

text \<open>The user's message is appended; a resume instead requires the result of a tool at the end.\<close>

definition prompt_input :: "'s SessionRepo \<Rightarrow> string \<Rightarrow> Message option \<Rightarrow> 's Agent \<Rightarrow> 's Agent \<times> err option" where
  "prompt_input R sid msg a =
     (case msg of
        Some m \<Rightarrow>
          (case repo_Append R sid [m] (a_session a) of
             (s, Some e) \<Rightarrow> (a\<lparr>a_session := s\<rparr>, Some (wrap_err ''appending user message: '' e))
           | (s, None) \<Rightarrow> (a\<lparr>a_session := s\<rparr>, None))
      | None \<Rightarrow>
          (case repo_Load R sid (a_session a) of
             Inr e \<Rightarrow> (a, Some (wrap_err ''loading transcript for resume: '' e))
           | Inl msgs \<Rightarrow>
               (a, if msgs = [] \<or> m_Type (last msgs) \<noteq> ''tool_result'' then Some (sentinel_err ErrNothingToResume) else None)))"

section \<open>start\<close>

definition resolve_model :: "PromptOpts \<Rightarrow> turnSnapshot \<Rightarrow> 's Agent \<Rightarrow> string + err" where
  "resolve_model opts snap a =
     (let modelRef = (if po_Model opts = [] then ts_model snap else po_Model opts) in
      if modelRef = [] then Inr (errorf_w ''no model specified and no default model'' ErrInvalidModelRef)
      else case parseModelRef modelRef of
             Inr e \<Rightarrow> Inr e
           | Inl (providerName, modelID) \<Rightarrow>
               (case providerByName a providerName of Inr e \<Rightarrow> Inr e | Inl _ \<Rightarrow> Inl modelID))"

definition new_run :: "err option \<Rightarrow> (nat \<Rightarrow> bool) \<Rightarrow> PromptOpts \<Rightarrow> turnSnapshot \<Rightarrow> string \<Rightarrow> string \<Rightarrow> promptRun" where
  "new_run ctx accept opts snap modelID sid =
     \<lparr>r_optModel = po_Model opts, r_optThinking = po_Thinking opts, r_providerHints = po_ProviderHints opts,
      r_model = modelID,
      r_thinking = (if po_Thinking opts = ThinkingOff then ts_thinkingLevel snap else po_Thinking opts),
      r_sessionID = sid, r_phase = PhaseIdle, r_turn = 0, r_transcript = [], r_branchSummaries = [],
      r_lastEvent = None, r_terminated = False, r_suspended = False, r_emitted = [], r_delivered = [],
      r_accept = accept, r_eventsClosed = False, r_done = [], r_doneClosed = False,
      r_steerCh = [], r_followUpCh = [], r_ctx = ctx\<rparr>"

text \<open>What \<open>start\<close> does with the slot taken. Making a channel with a negative buffer panics.\<close>

definition prepare_run :: "'s SessionRepo \<Rightarrow> err option \<Rightarrow> (nat \<Rightarrow> bool) \<Rightarrow> Message option \<Rightarrow> PromptOpts \<Rightarrow>
    's Agent \<Rightarrow> 's Agent \<times> promptRun outcome" where
  "prepare_run R ctx accept msg opts a =
     (let snap = snapshot a in
      case resolve_model opts snap a of
        Inr e \<Rightarrow> (a, Failed e)
      | Inl modelID \<Rightarrow>
          (case resolve_session R opts snap a of
             (a1, Inr e) \<Rightarrow> (a1, Failed e)
           | (a1, Inl sid) \<Rightarrow>
               (case prompt_input R sid msg a1 of
                  (a2, Some e) \<Rightarrow> (a2, Failed e)
                | (a2, None) \<Rightarrow>
                    if c_EventBufferSize (a_config a2) < 0 \<or> c_SteerBufferSize (a_config a2) < 0 then (a2, Panicked)
                    else (case (case h_BeforeAgentStart (a_hooks a2) of None \<Rightarrow> None | Some h \<Rightarrow> h opts) of
                            Some e \<Rightarrow> (a2, Failed (wrap_err ''before agent start hook: '' e))
                          | None \<Rightarrow> (a2\<lparr>a_lastSessionID := sid\<rparr>, Returned (new_run ctx accept opts snap modelID sid))))))"

definition start :: "'s SessionRepo \<Rightarrow> err option \<Rightarrow> (nat \<Rightarrow> bool) \<Rightarrow> Message option \<Rightarrow> PromptOpts \<Rightarrow>
    's AgentObject \<Rightarrow> 's AgentObject \<times> unit outcome" where
  "start R ctx accept msg opts h =
     (if a_running (ag_agent h) \<noteq> 0 then (h, Failed (sentinel_err ErrAgentBusy))
      else case prepare_run R ctx accept msg opts ((ag_agent h)\<lparr>a_running := 1\<rparr>) of
             (a, Returned r) \<Rightarrow> (\<lparr>ag_agent = a, ag_current = Some r\<rparr>, Returned ())
           | (a, Failed e) \<Rightarrow> (h\<lparr>ag_agent := a\<lparr>a_running := 0\<rparr>\<rparr>, Failed e)
           | (a, Panicked) \<Rightarrow> (h\<lparr>ag_agent := a\<lparr>a_running := 0\<rparr>\<rparr>, Panicked))"

definition Prompt :: "'s SessionRepo \<Rightarrow> err option \<Rightarrow> (nat \<Rightarrow> bool) \<Rightarrow> Message \<Rightarrow> PromptOpts \<Rightarrow>
    's AgentObject \<Rightarrow> 's AgentObject \<times> unit outcome" where
  "Prompt R ctx accept msg opts h = start R ctx accept (Some msg) opts h"

definition Resume :: "'s SessionRepo \<Rightarrow> err option \<Rightarrow> (nat \<Rightarrow> bool) \<Rightarrow> PromptOpts \<Rightarrow>
    's AgentObject \<Rightarrow> 's AgentObject \<times> unit outcome" where
  "Resume R ctx accept opts h =
     (if po_SessionID opts = [] then (h, Failed (sentinel_err ErrNothingToResume)) else start R ctx accept None opts h)"

text \<open>The loop of the current prompt, about to run.\<close>

definition loop_of :: "'s AgentObject \<Rightarrow> promptRun \<Rightarrow> 's loop_state" where
  "loop_of h r = \<lparr>lo_agent = ag_agent h, lo_run = r, lo_pc = PC_Start, lo_leaked = None, lo_requests = []\<rparr>"

section \<open>Control methods\<close>

definition Stop :: "'s AgentObject \<Rightarrow> 's AgentObject" where
  "Stop h = h\<lparr>ag_current := map_option (cancel (sentinel_err ErrAgentStopped)) (ag_current h)\<rparr>"

definition Context :: "'s AgentObject \<Rightarrow> err option" where
  "Context h =
     (if \<not> isRunning (ag_agent h) then Some (sentinel_err ErrNoPromptInFlight)
      else case ag_current h of None \<Rightarrow> Some (sentinel_err ErrNoPromptInFlight) | Some r \<Rightarrow> r_ctx r)"

text \<open>
  A send to a buffered channel against the caller's context: \<open>None\<close> is that the call blocks;
  \<open>by_ctx\<close> is which of two ready cases is taken.
\<close>

definition send :: "int \<Rightarrow> bool \<Rightarrow> err option \<Rightarrow> Message \<Rightarrow> Message list \<Rightarrow> (Message list \<times> err option) option" where
  "send cap by_ctx ctx m q =
     (if int (length q) < cap \<and> (ctx = None \<or> \<not> by_ctx) then Some (q @ [m], None)
      else case ctx of Some cause \<Rightarrow> Some (q, Some cause) | None \<Rightarrow> None)"

definition Steer :: "bool \<Rightarrow> err option \<Rightarrow> Message \<Rightarrow> 's AgentObject \<Rightarrow> ('s AgentObject \<times> err option) option" where
  "Steer by_ctx ctx m h =
     (case ag_current h of
        None \<Rightarrow> Some (h, Some (sentinel_err ErrNoPromptInFlight))
      | Some r \<Rightarrow> map_option (\<lambda>(q, e). (h\<lparr>ag_current := Some (r\<lparr>r_steerCh := q\<rparr>)\<rparr>, e))
          (send (c_SteerBufferSize (a_config (ag_agent h))) by_ctx ctx m (r_steerCh r)))"

definition FollowUp :: "bool \<Rightarrow> err option \<Rightarrow> Message \<Rightarrow> 's AgentObject \<Rightarrow> ('s AgentObject \<times> err option) option" where
  "FollowUp by_ctx ctx m h =
     (case ag_current h of
        None \<Rightarrow> Some (h, Some (sentinel_err ErrNoPromptInFlight))
      | Some r \<Rightarrow> map_option (\<lambda>(q, e). (h\<lparr>ag_current := Some (r\<lparr>r_followUpCh := q\<rparr>)\<rparr>, e))
          (send (c_SteerBufferSize (a_config (ag_agent h))) by_ctx ctx m (r_followUpCh r)))"

text \<open>The zero value of the thinking level is the provider package's.\<close>

definition State :: "'s AgentObject \<Rightarrow> AgentState" where
  "State h =
     (case ag_current h of
        None \<Rightarrow> \<lparr>st_Phase = PhaseIdle, st_ActiveModel = [], st_Thinking = None, st_SessionID = [], st_TurnNumber = 0,
                st_TranscriptLen = 0, st_LastEvent = None\<rparr>
      | Some r \<Rightarrow> run_state r)"

definition Phase :: "'s AgentObject \<Rightarrow> AgentPhase" where
  "Phase h = st_Phase (State h)"

definition Transcript :: "'s AgentObject \<Rightarrow> Message list" where
  "Transcript h = (case ag_current h of None \<Rightarrow> [] | Some r \<Rightarrow> r_transcript r)"

definition Close :: "'s AgentObject \<Rightarrow> 's AgentObject \<times> err option" where
  "Close h = (Stop h, None)"

section \<open>What starting changes\<close>

lemma recordActiveToolsOnCreate_agent:
  "recordActiveToolsOnCreate R sid a = (a', e) \<Longrightarrow> \<exists>s. a' = a\<lparr>a_session := s\<rparr>"
  by (auto simp: recordActiveToolsOnCreate_def split: option.splits if_splits prod.splits intro: exI [of _ "a_session a"])

lemma overrideSystemPrompt_agent:
  "overrideSystemPrompt R sid p a = (a', e) \<Longrightarrow> \<exists>s. a' = a\<lparr>a_session := s\<rparr>"
  by (auto simp: overrideSystemPrompt_def split: sum.splits if_splits prod.splits intro: exI [of _ "a_session a"])

lemma restoreActiveTools_agent:
  "restoreActiveToolsFromSession R sid a = (a', e) \<Longrightarrow> \<exists>n. a' = a\<lparr>a_activeToolNames := n\<rparr>"
  by (auto simp: restoreActiveToolsFromSession_def split: sum.splits option.splits intro: exI [of _ "a_activeToolNames a"])

lemma prompt_input_agent:
  "prompt_input R sid msg a = (a', e) \<Longrightarrow> \<exists>s. a' = a\<lparr>a_session := s\<rparr>"
  by (auto simp: prompt_input_def split: option.splits sum.splits prod.splits intro: exI [of _ "a_session a"])

lemma create_session_agent:
  assumes "create_session R opts snap a = (a', res)"
  shows "\<exists>s. a' = a\<lparr>a_session := s\<rparr>"
proof -
  have *: "\<exists>s. a' = a\<lparr>a_session := s\<rparr>" if "recordActiveToolsOnCreate R sid (a\<lparr>a_session := s2\<rparr>) = (a', e)" for s2 sid e
    using recordActiveToolsOnCreate_agent [OF that] by auto
  show ?thesis using assms
    by (auto simp: create_session_def Let_def split: prod.splits sum.splits option.splits if_splits intro: *)
qed

lemma open_session_agent:
  assumes "open_session R opts a = (a', res)"
  shows "\<exists>s n. a' = a\<lparr>a_session := s, a_activeToolNames := n\<rparr>"
proof -
  obtain a1 e where r: "restoreActiveToolsFromSession R (po_SessionID opts) a = (a1, e)" by fastforce
  from restoreActiveTools_agent [OF r] obtain n where n: "a1 = a\<lparr>a_activeToolNames := n\<rparr>" by blast
  obtain a2 e2 where o2: "overrideSystemPrompt R (po_SessionID opts) (po_SystemPrompt opts) a1 = (a2, e2)" by fastforce
  from overrideSystemPrompt_agent [OF o2] obtain s where "a2 = a1\<lparr>a_session := s\<rparr>" by blast
  then have a2: "a2 = a\<lparr>a_session := s, a_activeToolNames := n\<rparr>" using n by simp
  have a1: "a1 = a\<lparr>a_session := a_session a, a_activeToolNames := n\<rparr>" using n by simp
  have "a' = a1 \<or> a' = a2" using assms r o2
    by (cases e; cases e2) (auto simp: open_session_def Let_def split: if_splits)
  then show ?thesis using a1 a2 by blast
qed

lemma resolve_session_agent:
  assumes "resolve_session R opts snap a = (a', res)"
  shows "\<exists>s n. a' = a\<lparr>a_session := s, a_activeToolNames := n\<rparr>"
proof (cases "po_SessionID opts = []")
  case True
  then obtain s where "a' = a\<lparr>a_session := s\<rparr>" using assms create_session_agent by (fastforce simp: resolve_session_def)
  then have "a' = a\<lparr>a_session := s, a_activeToolNames := a_activeToolNames a\<rparr>" by simp
  then show ?thesis by blast
next
  case False
  then show ?thesis using assms open_session_agent by (simp add: resolve_session_def)
qed

lemma prepare_run_cases:
  assumes "prepare_run R ctx accept msg opts a = (a', res)"
  obtains (Returned) snap m sid s n where "res = Returned (new_run ctx accept opts snap m sid)"
      "a' = a\<lparr>a_session := s, a_activeToolNames := n, a_lastSessionID := sid\<rparr>"
    | (Other) s n where "\<And>r. res \<noteq> Returned r" "a' = a\<lparr>a_session := s, a_activeToolNames := n\<rparr>"
proof (cases "resolve_model opts (snapshot a) a")
  case (Inr e)
  then have "a' = a\<lparr>a_session := a_session a, a_activeToolNames := a_activeToolNames a\<rparr>" "\<And>r. res \<noteq> Returned r"
    using assms by (auto simp: prepare_run_def Let_def)
  then show thesis using Other by blast
next
  case (Inl m)
  obtain a1 y where s: "resolve_session R opts (snapshot a) a = (a1, y)" by fastforce
  from resolve_session_agent [OF s] obtain s1 n where a1: "a1 = a\<lparr>a_session := s1, a_activeToolNames := n\<rparr>" by blast
  show thesis
  proof (cases y)
    case (Inr e)
    then have "a' = a1" "\<And>r. res \<noteq> Returned r" using assms Inl s by (auto simp: prepare_run_def Let_def)
    then show thesis using Other a1 by blast
  next
    case y: (Inl sid)
    obtain a2 e where i: "prompt_input R sid msg a1 = (a2, e)" by fastforce
    from prompt_input_agent [OF i] obtain s2 where "a2 = a1\<lparr>a_session := s2\<rparr>" by blast
    then have a2: "a2 = a\<lparr>a_session := s2, a_activeToolNames := n\<rparr>" using a1 by (cases a) simp
    from assms Inl s y i consider "a' = a2" "\<And>r. res \<noteq> Returned r"
      | "res = Returned (new_run ctx accept opts (snapshot a) m sid)" "a' = a2\<lparr>a_lastSessionID := sid\<rparr>"
      by (cases e) (auto simp: prepare_run_def Let_def split: option.splits if_splits)
    then show thesis using that(2) [where s = s2 and n = n] that(1) [where s = s2 and n = n and m = m] a2 by cases auto
  qed
qed

lemma launched_new_run:
  "a_running a = 1 \<Longrightarrow> a_lastSessionID a = sid \<Longrightarrow>
     launched \<lparr>lo_agent = a, lo_run = new_run ctx accept opts snap m sid, lo_pc = PC_Start, lo_leaked = None, lo_requests = []\<rparr>"
  by (simp add: launched_def new_run_def)

lemma start_cases:
  assumes "start R ctx accept msg opts h = (h', res)"
  obtains (Busy) "a_running (ag_agent h) \<noteq> 0" "h' = h" "res = Failed (sentinel_err ErrAgentBusy)"
    | (Refused) s n where "a_running (ag_agent h) = 0" "res \<noteq> Returned ()" "ag_current h' = ag_current h"
        "ag_agent h' = (ag_agent h)\<lparr>a_session := s, a_activeToolNames := n\<rparr>"
    | (Launched) snap m sid s n where "a_running (ag_agent h) = 0" "res = Returned ()"
        "ag_current h' = Some (new_run ctx accept opts snap m sid)"
        "ag_agent h' = (ag_agent h)\<lparr>a_running := 1, a_session := s, a_activeToolNames := n, a_lastSessionID := sid\<rparr>"
proof (cases "a_running (ag_agent h) = 0")
  case False
  then show thesis using Busy assms by (simp add: start_def)
next
  case True
  obtain a y where p: "prepare_run R ctx accept msg opts ((ag_agent h)\<lparr>a_running := 1\<rparr>) = (a, y)" by fastforce
  from p show thesis
  proof (cases rule: prepare_run_cases)
    case (Returned snap m sid s n)
    then show thesis using that(3) [where s = s and n = n and m = m and sid = sid] True assms p by (auto simp: start_def)
  next
    case (Other s n)
    have "(ag_agent h)\<lparr>a_running := 1, a_session := s, a_activeToolNames := n, a_running := 0\<rparr>
        = (ag_agent h)\<lparr>a_session := s, a_activeToolNames := n\<rparr>" using True by (cases "ag_agent h") simp
    then show thesis using that(2) [where s = s and n = n] True assms p Other by (cases y) (auto simp: start_def)
  qed
qed

lemma start_launched:
  assumes "start R ctx accept msg opts h = (h', Returned ())"
  shows "\<exists>r. ag_current h' = Some r \<and> launched (loop_of h' r) \<and> r_ctx r = ctx"
  using assms by (cases rule: start_cases) (auto simp: loop_of_def new_run_def launched_def)

text \<open>
  C10
  At most one prompt is in flight. A busy agent refuses at once and nothing changes; a start that
  fails in any other way frees the slot and leaves the current prompt and the configuration as they
  were, but for the store and the active names a session restored; one that succeeds leaves a prompt
  about to run on the caller's context, bound to its session, and the slot taken, so that the
  next start is refused.
\<close>

theorem start_protocol:
  assumes "start R ctx accept msg opts h = (h', res)"
  shows "(a_running (ag_agent h) \<noteq> 0 \<longrightarrow> h' = h \<and> res = Failed (sentinel_err ErrAgentBusy)) \<and>
    (a_running (ag_agent h) = 0 \<and> res \<noteq> Returned () \<longrightarrow> ag_current h' = ag_current h \<and>
       (\<exists>s n. ag_agent h' = (ag_agent h)\<lparr>a_session := s, a_activeToolNames := n\<rparr>)) \<and>
    (res = Returned () \<longrightarrow> (\<exists>r s n. ag_current h' = Some r \<and> launched (loop_of h' r) \<and> r_ctx r = ctx \<and>
       ag_agent h' = (ag_agent h)\<lparr>a_running := 1, a_session := s, a_activeToolNames := n, a_lastSessionID := r_sessionID r\<rparr> \<and>
       start R ctx' accept' msg' opts' h' = (h', Failed (sentinel_err ErrAgentBusy))))"
  using assms
proof (cases rule: start_cases)
  case (Launched snap m sid s n)
  then have "start R ctx' accept' msg' opts' h' = (h', Failed (sentinel_err ErrAgentBusy))" by (simp add: start_def)
  moreover have "r_sessionID (new_run ctx accept opts snap m sid) = sid" "r_ctx (new_run ctx accept opts snap m sid) = ctx"
    by (simp_all add: new_run_def)
  moreover have "launched (loop_of h' (new_run ctx accept opts snap m sid))"
    unfolding loop_of_def by (rule launched_new_run) (simp_all add: Launched)
  ultimately show ?thesis using Launched by auto
qed auto

section \<open>What is in the session of a prompt\<close>

text \<open>What a new session holds before the user's message.\<close>

definition session_opening :: "PromptOpts \<Rightarrow> 's Agent \<Rightarrow> Message list" where
  "session_opening opts a =
     (let p = (if po_SystemPrompt opts = [] then a_systemPrompt a else po_SystemPrompt opts)
      in (if p = [] then [] else [NewSystem p]) @
         (case a_activeToolNames a of
            Some ns \<Rightarrow> if set ns = set (toolNames (a_tools a)) then [] else [NewActiveToolsChange (Some ns)]
          | None \<Rightarrow> []))"

locale prompt_repo = prompt_store R for R :: "'s SessionRepo" +
  assumes create_empty: "repo_Create R s = (s', Inl i) \<Longrightarrow> repo_Load R i s' = Inl []"
begin

lemma append_loaded: "repo_Append R i ms s = (s', None) \<Longrightarrow> repo_Load R i s = Inl old \<Longrightarrow> repo_Load R i s' = Inl (old @ ms)"
  using append_exact [of i ms s s' None old] by simp

lemma record_loaded:
  assumes "recordActiveToolsOnCreate R sid a = (a', None)" "repo_Load R sid (a_session a) = Inl old"
  shows "repo_Load R sid (a_session a') = Inl (old @ (case a_activeToolNames a of
            Some ns \<Rightarrow> if set ns = set (toolNames (a_tools a)) then [] else [NewActiveToolsChange (Some ns)]
          | None \<Rightarrow> []))"
  using assms append_loaded
  by (auto simp: recordActiveToolsOnCreate_def sameStringSet_iff split: option.splits if_splits prod.splits)

lemma create_session_loaded:
  assumes "create_session R opts (snapshot a) a = (a', Inl sid)"
  shows "repo_Load R sid (a_session a') = Inl (session_opening opts a)"
proof -
  let ?p = "if po_SystemPrompt opts = [] then a_systemPrompt a else po_SystemPrompt opts"
  obtain s where c: "repo_Create R (a_session a) = (s, Inl sid)"
    using assms by (auto simp: create_session_def Let_def split: prod.splits sum.splits option.splits if_splits)
  obtain s2 e where p: "(if ?p = [] then (s, None) else repo_Append R sid [NewSystem ?p] s) = (s2, e)" by fastforce
  have e: "e = None" and r: "recordActiveToolsOnCreate R sid (a\<lparr>a_session := s, a_session := s2\<rparr>) = (a', None)"
    using assms c p by (auto simp: create_session_def Let_def snapshot_def split: prod.splits option.splits if_splits)
  have "repo_Load R sid s2 = Inl (if ?p = [] then [] else [NewSystem ?p])"
    using p e create_empty [OF c] append_loaded [of sid "[NewSystem ?p]" s s2 "[]"] by (auto split: if_splits)
  from record_loaded [OF r] this show ?thesis by (simp add: session_opening_def Let_def cong: option.case_cong)
qed

lemma start_new_loaded:
  assumes "start R ctx accept (Some m) opts h = (h', Returned ())" "po_SessionID opts = []"
  shows "\<exists>r. ag_current h' = Some r \<and>
    repo_Load R (r_sessionID r) (a_session (ag_agent h')) = Inl (session_opening opts (ag_agent h) @ [m])"
proof -
  let ?a = "(ag_agent h)\<lparr>a_running := 1\<rparr>"
  have "a_running (ag_agent h) = 0" using assms(1) by (auto simp: start_def split: if_splits)
  then obtain a r where p: "prepare_run R ctx accept (Some m) opts ?a = (a, Returned r)"
      "h' = \<lparr>ag_agent = a, ag_current = Some r\<rparr>"
    using assms(1) by (auto simp: start_def split: prod.splits outcome.splits)
  obtain a1 sid where c: "create_session R opts (snapshot ?a) ?a = (a1, Inl sid)"
    using p(1) assms(2) by (auto simp: prepare_run_def resolve_session_def Let_def split: sum.splits prod.splits)
  obtain a2 where i: "prompt_input R sid (Some m) a1 = (a2, None)"
    using p(1) c assms(2) by (auto simp: prepare_run_def resolve_session_def Let_def split: sum.splits prod.splits option.splits)
  have "a_session a = a_session a2" "r_sessionID r = sid"
    using p(1) c i assms(2)
    by (auto simp: prepare_run_def resolve_session_def Let_def new_run_def split: sum.splits prod.splits option.splits if_splits)
  moreover have "repo_Append R sid [m] (a_session a1) = (a_session a2, None)"
    using i by (auto simp: prompt_input_def split: prod.splits option.splits)
  ultimately have "repo_Load R (r_sessionID r) (a_session a) = Inl (session_opening opts ?a @ [m])"
    using append_loaded [OF _ create_session_loaded [OF c], of "[m]"] by simp
  then show ?thesis using p(2) by (simp add: session_opening_def cong: option.case_cong)
qed

text \<open>A change of the active tools is found again by a later prompt on the session, persisted at once or queued.\<close>

lemma set_active_restored:
  assumes "SetActiveTools R names a = (a1, us, None)" "\<not> isRunning a" "a_lastSessionID a = sid" "sid \<noteq> []"
    "repo_Load R sid (a_session a) = Inl old" "\<And>ns. names = Some ns \<Longrightarrow> list_all valid_utf8 ns"
    "a_session b = a_session a1"
  shows "restoreActiveToolsFromSession R sid b = (b\<lparr>a_activeToolNames := names\<rparr>, None)"
proof -
  have "repo_Append R sid [NewActiveToolsChange names] (a_session a) = (a_session a1, None)"
    using assms(1-4) by (auto simp: SetActiveTools_def Let_def isRunning_def split: option.splits prod.splits if_splits)
  from append_loaded [OF this assms(5)]
  have "repo_Load R sid (a_session b) = Inl (old @ [NewActiveToolsChange names])" using assms(7) by simp
  then show ?thesis using active_tools_roundtrip [of names] assms(6)
    by (auto simp: restoreActiveToolsFromSession_def active_names_snoc)
qed

lemma append_each_loaded:
  "append_each R ms ar = (ar', None) \<Longrightarrow> repo_Load R (r_sessionID (snd ar)) (a_session (fst ar)) = Inl old \<Longrightarrow>
     repo_Load R (r_sessionID (snd ar)) (a_session (fst ar')) = Inl (old @ ms) \<and> r_transcript (snd ar') = r_transcript (snd ar) @ ms"
proof (induction ms arbitrary: ar old)
  case (Cons m ms)
  obtain y x where y: "appendTranscript R [m] ar = (y, x)" by fastforce
  then have x: "x = None" "append_each R ms y = (ar', None)" using Cons.prems(1) by (cases x; simp)+
  obtain a r where ar: "ar = (a, r)" by fastforce
  have s: "repo_Append R (r_sessionID r) [m] (a_session a) = (a_session (fst y), None)" "r_sessionID (snd y) = r_sessionID r"
    "r_transcript (snd y) = r_transcript r @ [m]"
    using y x(1) ar by (auto simp: appendTranscript_def split: prod.splits option.splits)
  show ?case using Cons.IH [OF x(2)] append_loaded [OF s(1)] s(2,3) Cons.prems(2) ar by simp
qed simp

lemma queued_active_restored:
  assumes "SetActiveTools R names a = (a1, us, None)" "isRunning a" "a_lastSessionID a = sid" "sid \<noteq> []"
    "r_sessionID r = sid" "flushPendingActiveTools R (a1, r) = ((a2, r2), None)"
    "repo_Load R sid (a_session a) = Inl old" "\<And>ns. names = Some ns \<Longrightarrow> list_all valid_utf8 ns"
    "a_session b = a_session a2"
  shows "restoreActiveToolsFromSession R sid b = (b\<lparr>a_activeToolNames := names\<rparr>, None)"
proof -
  have a1: "a_pendingActiveTools a1 = a_pendingActiveTools a @ [names]" "a_session a1 = a_session a"
    using assms(1-4) by (auto simp: SetActiveTools_def Let_def isRunning_def split: option.splits prod.splits if_splits)
  let ?ms = "map NewActiveToolsChange (a_pendingActiveTools a1)"
  have "append_each R ?ms (a1\<lparr>a_pendingActiveTools := []\<rparr>, r) = ((a2, r2), None)"
    using assms(6) by (simp add: flushPendingActiveTools_def)
  from append_each_loaded [OF this, of old]
  have "repo_Load R sid (a_session b) = Inl (old @ ?ms)" using assms(5,7,9) a1(2) by simp
  then have "repo_Load R sid (a_session b) = Inl ((old @ map NewActiveToolsChange (a_pendingActiveTools a)) @ [NewActiveToolsChange names])"
    using a1(1) by simp
  then show ?thesis using active_tools_roundtrip [of names] assms(8)
    by (simp add: restoreActiveToolsFromSession_def active_names_snoc del: append_assoc)
qed

end

interpretation im_agent: prompt_repo im_repo
  by unfold_locales (auto simp: im_repo_def im_Create_def im_Load_def Let_def)

interpretation ms_agent: prompt_repo ms_repo
  by unfold_locales (auto simp: ms_repo_def ms_Create_def ms_Load_def Let_def)

end
