(* ===== verification/Agent_Props.thy ===== *)
theory Agent_Props
  imports Agent_Start
begin

text \<open>
  What starting, resuming and steering a prompt guarantee, and two orders of events in which the
  agent does not do what its comments say.
\<close>

section \<open>Resuming\<close>

lemma resolve_model_running:
  "resolve_model opts (snapshot (a\<lparr>a_running := n\<rparr>)) (a\<lparr>a_running := n\<rparr>) = resolve_model opts (snapshot a) a"
proof -
  have p: "providerByName (a\<lparr>a_running := n\<rparr>) = providerByName a" by (rule ext) (simp add: providerByName_def)
  have m: "ts_model (snapshot (a\<lparr>a_running := n\<rparr>)) = ts_model (snapshot a)" by (simp add: snapshot_def)
  show ?thesis unfolding resolve_model_def p m ..
qed

text \<open>What a start needs of the configuration to get past everything but the session.\<close>

definition can_start :: "PromptOpts \<Rightarrow> 's Agent \<Rightarrow> bool" where
  "can_start opts a \<longleftrightarrow> a_running a = 0 \<and> (\<exists>m. resolve_model opts (snapshot a) a = Inl m) \<and>
     h_BeforeAgentStart (a_hooks a) = None \<and> 0 \<le> c_EventBufferSize (a_config a) \<and> 0 \<le> c_SteerBufferSize (a_config a)"

lemma start_opened:
  assumes "can_start opts (ag_agent h)" "po_SessionID opts \<noteq> []"
    "open_session R opts ((ag_agent h)\<lparr>a_running := 1\<rparr>) = (a1, Inl (po_SessionID opts))"
    "prompt_input R (po_SessionID opts) msg a1 = (a2, e)" "start R ctx accept msg opts h = (h', res)"
  shows "res = (case e of None \<Rightarrow> Returned () | Some x \<Rightarrow> Failed x)" "a_session (ag_agent h') = a_session a2"
    "a_activeToolNames (ag_agent h') = a_activeToolNames a1"
    "e = None \<Longrightarrow> a_lastSessionID (ag_agent h') = po_SessionID opts"
proof -
  let ?a = "(ag_agent h)\<lparr>a_running := 1\<rparr>"
  obtain m where m: "resolve_model opts (snapshot ?a) ?a = Inl m"
    using assms(1) resolve_model_running [where opts = opts and a = "ag_agent h" and n = 1] by (auto simp: can_start_def)
  obtain s n where a1: "a1 = ?a\<lparr>a_session := s, a_activeToolNames := n\<rparr>" using open_session_agent [OF assms(3)] by blast
  obtain s2 where a2: "a2 = a1\<lparr>a_session := s2\<rparr>" using prompt_input_agent [OF assms(4)] by blast
  have "prepare_run R ctx accept msg opts ?a =
      (case e of Some x \<Rightarrow> (a2, Failed x)
       | None \<Rightarrow> (a2\<lparr>a_lastSessionID := po_SessionID opts\<rparr>, Returned (new_run ctx accept opts (snapshot ?a) m (po_SessionID opts))))"
    using assms(1-4) m a1 a2 by (cases e) (auto simp: prepare_run_def resolve_session_def can_start_def)
  then show "res = (case e of None \<Rightarrow> Returned () | Some x \<Rightarrow> Failed x)" "a_session (ag_agent h') = a_session a2"
    "a_activeToolNames (ag_agent h') = a_activeToolNames a1"
    "e = None \<Longrightarrow> a_lastSessionID (ag_agent h') = po_SessionID opts"
    using assms(1,5) a2 by (cases e; auto simp: start_def can_start_def)+
qed

lemma open_without_override:
  assumes "po_SystemPrompt opts = []" "restoreActiveToolsFromSession R (po_SessionID opts) a = (a1, None)"
  shows "open_session R opts a = (a1, Inl (po_SessionID opts))"
  using assms by (simp add: open_session_def Let_def)

definition recorded_names :: "Message list \<Rightarrow> string list option" where
  "recorded_names msgs = (case activeToolNamesFromTranscript msgs of Some names \<Rightarrow> names | None \<Rightarrow> None)"

lemma restore_loaded:
  "repo_Load R i (a_session a) = Inl msgs \<Longrightarrow>
     restoreActiveToolsFromSession R i a = (a\<lparr>a_activeToolNames := recorded_names msgs\<rparr>, None)"
  by (simp add: restoreActiveToolsFromSession_def recorded_names_def split: option.split)


text \<open>
  A system prompt given to Resume makes it fail only where the session begins with a system message:
  then the prompt is appended to the session and the resume refused. Where it does not, the override
  is dropped without a trace and the resume goes ahead; the comment on Resume says it always fails.
\<close>

theorem resume_with_override:
  assumes "can_start opts (ag_agent h)" "po_SessionID opts \<noteq> []" "po_SystemPrompt opts \<noteq> []"
    "repo_Load im_repo (po_SessionID opts) (a_session (ag_agent h)) = Inl (msgs @ [m])" "m_Type m = ''tool_result''"
    "Resume im_repo ctx accept opts h = (h', res)"
  shows "(m_Role (hd (msgs @ [m])) = ''system'' \<longrightarrow> res = Failed (sentinel_err ErrNothingToResume) \<and>
      repo_Load im_repo (po_SessionID opts) (a_session (ag_agent h')) = Inl (msgs @ [m] @ [NewSystem (po_SystemPrompt opts)])) \<and>
    (m_Role (hd (msgs @ [m])) \<noteq> ''system'' \<longrightarrow> res = Returned () \<and> a_session (ag_agent h') = a_session (ag_agent h))"
proof -
  let ?a = "(ag_agent h)\<lparr>a_running := 1\<rparr>"
  let ?i = "po_SessionID opts"
  let ?p = "po_SystemPrompt opts"
  let ?b = "?a\<lparr>a_activeToolNames := recorded_names (msgs @ [m])\<rparr>"
  have st: "start im_repo ctx accept None opts h = (h', res)" using assms(2,6) by (simp add: Resume_def)
  have r: "restoreActiveToolsFromSession im_repo ?i ?a = (?b, None)" using restore_loaded [of im_repo ?i ?a] assms(4) by simp
  show ?thesis
  proof (cases "m_Role (hd (msgs @ [m])) = ''system''")
    case True
    obtain s e where ap: "repo_Append im_repo ?i [NewSystem ?p] (a_session (ag_agent h)) = (s, e)" by fastforce
    then have e: "e = None" using im_AppendD by (auto simp: im_repo_def)
    have l: "repo_Load im_repo ?i s = Inl ((msgs @ [m]) @ [NewSystem ?p])"
      by (rule im_agent.append_loaded [OF _ assms(4)]) (use ap e in simp)
    let ?c = "?b\<lparr>a_session := s\<rparr>"
    have o1: "open_session im_repo opts ?a = (?c, Inl ?i)"
      using r assms(3,4) True ap e by (simp add: open_session_def overrideSystemPrompt_def Let_def)
    have i: "prompt_input im_repo ?i None ?c = (?c, Some (sentinel_err ErrNothingToResume))"
      using l by (simp add: prompt_input_def NewSystem_def NewText_def mk_message_def)
    from start_opened [OF assms(1,2) o1 i st] True l show ?thesis by simp
  next
    case False
    have o1: "open_session im_repo opts ?a = (?b, Inl ?i)"
      using r assms(3,4) False by (simp add: open_session_def overrideSystemPrompt_def Let_def)
    have i: "prompt_input im_repo ?i None ?b = (?b, None)" using assms(4,5) by (simp add: prompt_input_def)
    from start_opened [OF assms(1,2) o1 i st] False show ?thesis by simp
  qed
qed

text \<open>
  A prompt without a session id gets a new session that holds, in this order, the system prompt if
  there is one, the active tools when they are a proper choice among the registered ones, and the
  user's message; on both in-memory backends.
\<close>

theorem new_session_opening:
  assumes "po_SessionID opts = []"
  shows "(Prompt im_repo ctx accept m opts h = (h', Returned ()) \<longrightarrow> (\<exists>r. ag_current h' = Some r \<and>
      repo_Load im_repo (r_sessionID r) (a_session (ag_agent h')) = Inl (session_opening opts (ag_agent h) @ [m]))) \<and>
    (Prompt ms_repo ctx accept m opts k = (k', Returned ()) \<longrightarrow> (\<exists>r. ag_current k' = Some r \<and>
      repo_Load ms_repo (r_sessionID r) (a_session (ag_agent k')) = Inl (session_opening opts (ag_agent k) @ [m])))"
  using im_agent.start_new_loaded [OF _ assms] ms_agent.start_new_loaded [OF _ assms] by (auto simp: Prompt_def)


section \<open>After the end of a prompt\<close>

text \<open>
  The loop's last drain of the queued tool changes runs after the slot is freed. When the next prompt
  has started in between and its tools are changed, the change goes to the session of the old prompt
  and the new one's session, and so its next resume, never learns of it; the comment on the deferred
  drain says that nothing can race in.
\<close>

theorem late_flush_misroutes:
  assumes "start im_repo ctx accept msg opts \<lparr>ag_agent = lo_agent s, ag_current = Some (lo_run s)\<rparr> = (h, Returned ())"
    "ag_current h = Some r" "r_sessionID r \<noteq> []" "r_sessionID r \<noteq> r_sessionID (lo_run s)"
    "a_pendingActiveTools (lo_agent s) = []" "SetActiveTools im_repo names (ag_agent h) = (a, us, None)"
    "repo_Load im_repo (r_sessionID (lo_run s)) (a_session (ag_agent h)) = Inl old"
  shows "(let t = loop_deferred im_repo 1 (s\<lparr>lo_agent := a\<rparr>) in
    repo_Load im_repo (r_sessionID (lo_run s)) (a_session (lo_agent t)) = Inl (old @ [NewActiveToolsChange names]) \<and>
    repo_Load im_repo (r_sessionID r) (a_session (lo_agent t)) = repo_Load im_repo (r_sessionID r) (a_session (ag_agent h)) \<and>
    a_pendingActiveTools (lo_agent t) = [])"
proof -
  let ?i = "r_sessionID (lo_run s)"
  have q: "a_pendingActiveTools (ag_agent h) = []" "isRunning (ag_agent h)" "a_lastSessionID (ag_agent h) = r_sessionID r"
    using assms(1)
    by (cases rule: start_cases; use assms(2,5) in \<open>auto simp: isRunning_def new_run_def\<close>)+
  have a: "a_pendingActiveTools a = [names]" "a_session a = a_session (ag_agent h)"
    using assms(6) q assms(3) by (auto simp: SetActiveTools_def Let_def isRunning_def split: option.splits prod.splits if_splits)
  obtain a2 r2 e where f: "flushPendingActiveTools im_repo (a, lo_run s) = ((a2, r2), e)" by (metis surj_pair)
  obtain z w where ap: "repo_Append im_repo ?i [NewActiveToolsChange names] (a_session a) = (z, w)" by fastforce
  then have w: "w = None" using im_AppendD by (auto simp: im_repo_def)
  have a2: "a_session a2 = z" "a_pendingActiveTools a2 = []"
    using f a ap w by (auto simp: flushPendingActiveTools_def appendTranscript_def)
  have "repo_Load im_repo ?i z = Inl (old @ [NewActiveToolsChange names])"
    by (rule im_agent.append_loaded) (use ap w a(2) assms(7) in simp_all)
  moreover have "repo_Load im_repo (r_sessionID r) z = repo_Load im_repo (r_sessionID r) (a_session (ag_agent h))"
    using im.load_append_other [where i = ?i and j = "r_sessionID r" and ms = "[NewActiveToolsChange names]" and s = "a_session a" and s' = z and e = w] ap assms(4) a(2)
    by (simp add: im_repo_def)
  ultimately show ?thesis using f a2 by (simp add: Let_def at_def)
qed

lemma exited_reach:
  assumes "reach R s t" "lo_pc s = PC_Exited" "a_running (lo_agent s) = 0"
  shows "lo_pc t = PC_Exited \<and> r_transcript (lo_run t) = r_transcript (lo_run s) \<and>
    prefix (r_steerCh (lo_run s)) (r_steerCh (lo_run t))"
  using assms
proof (induction rule: reach.induct)
  case (reach_loop s t u)
  from reach_loop.hyps(2) show ?case
  proof cases
    case (LeakedAct b i evs b')
    have "r_steerCh (emit_all evs r) = r_steerCh r" for r by (induction evs arbitrary: r) (simp_all add: emit_all_def)
    then show ?thesis using LeakedAct reach_loop by simp
  qed (use reach_loop in auto)
next
  case (reach_env s t u)
  from reach_env.hyps(2) show ?case
    by cases (use reach_env in \<open>auto simp: cancel_def prefix_def split: option.split\<close>)
qed simp

text \<open>
  Once a prompt has ended, Steer still takes a message and reports success although no prompt is in
  flight, as Context tells; the message stays in the dead prompt's channel for ever.
\<close>

theorem steer_after_end:
  assumes "launched s" "reach R s t" "lo_pc t = PC_Exited" "steer_room t (r_steerCh (lo_run t))"
  shows "(let h = \<lparr>ag_agent = lo_agent t, ag_current = Some (lo_run t)\<rparr>;
      r = (lo_run t)\<lparr>r_steerCh := r_steerCh (lo_run t) @ [m]\<rparr> in
    Context h = Some (sentinel_err ErrNoPromptInFlight) \<and> Steer by_ctx None m h = Some (h\<lparr>ag_current := Some r\<rparr>, None) \<and>
    (\<forall>u. reach R (t\<lparr>lo_run := r\<rparr>) u \<longrightarrow> m \<in> set (r_steerCh (lo_run u)) \<and> r_transcript (lo_run u) = r_transcript (lo_run t)))"
proof -
  have i: "a_running (lo_agent t) = 0" using reach_inv [OF assms(2) launched_inv [OF assms(1)]] assms(3) by (simp add: loop_inv_def)
  let ?t = "t\<lparr>lo_run := (lo_run t)\<lparr>r_steerCh := r_steerCh (lo_run t) @ [m]\<rparr>\<rparr>"
  have "m \<in> set (r_steerCh (lo_run u)) \<and> r_transcript (lo_run u) = r_transcript (lo_run t)" if "reach R ?t u" for u
    using exited_reach [OF that] assms(3) i set_mono_prefix by fastforce
  then show ?thesis using i assms(4) by (simp add: Let_def Context_def isRunning_def Steer_def send_def steer_room_def)
qed

section \<open>Witnesses\<close>

definition demo_opts :: "string \<Rightarrow> string \<Rightarrow> PromptOpts" where
  "demo_opts sid p = \<lparr>po_SessionID = sid, po_Model = [], po_SystemPrompt = p, po_Thinking = ThinkingOff, po_ProviderHints = []\<rparr>"

definition demo_message :: Message where
  "demo_message = NewText ''user'' ''hi''"

definition demo_call_result :: Message where
  "demo_call_result = mk_message ''tool'' ''tool_result'' None"

text \<open>The demo agent, its store holding the messages under one id, and idle after a prompt on \<open>last\<close>.\<close>

definition demo_session :: "string \<Rightarrow> Message list \<Rightarrow> internalMemorySession" where
  "demo_session sid msgs = fst (im_Append sid msgs demo_store)"

lemma demo_session_load: "repo_Load im_repo sid (demo_session sid msgs) = Inl msgs"
  by (simp add: im_repo_def im_Load_slice demo_session_def im_Append_def demo_store_def newInternalMemorySession_def)
    (simp add: map_slice_def)

lemma demo_provider: "providerByName (demo_agent s) ''p'' = Inl \<lparr>pr_Name = ''p'', pr_Thinking = (\<lambda>m. False)\<rparr>"
  by (simp add: providerByName_def demo_agent_fields demo_config_def config_defaults_def)

lemma demo_model: "resolve_model (demo_opts sid p) (snapshot (demo_agent s)) (demo_agent s) = Inl ''m''"
  using parseModelRef_ok [of "''p''" "''m''"]
  by (simp add: resolve_model_def demo_opts_def snapshot_def demo_agent_fields demo_provider Let_def)

lemma demo_can_start: "can_start (demo_opts sid p) (demo_agent s)"
  using demo_model [of sid p s]
  by (auto simp: can_start_def demo_agent_fields no_hooks_def demo_config_def config_defaults_def or_default_def)

lemma demo_start:
  assumes "sid \<noteq> []"
  shows "\<exists>h' r. start im_repo ctx accept (Some m) (demo_opts sid []) \<lparr>ag_agent = demo_agent s, ag_current = c\<rparr> = (h', Returned ()) \<and>
    ag_current h' = Some r \<and> r_sessionID r = sid \<and> a_tools (ag_agent h') = a_tools (demo_agent s)"
proof -
  let ?h = "\<lparr>ag_agent = demo_agent s, ag_current = c\<rparr>"
  let ?o = "demo_opts sid []"
  obtain h' res where st: "start im_repo ctx accept (Some m) ?o ?h = (h', res)" by fastforce
  let ?a = "(demo_agent s)\<lparr>a_running := 1\<rparr>"
  obtain msgs where l: "repo_Load im_repo sid s = Inl msgs" by (simp add: im_repo_def im_Load_slice)
  then have o1: "open_session im_repo ?o ?a = (?a\<lparr>a_activeToolNames := recorded_names msgs\<rparr>, Inl (po_SessionID ?o))"
    using restore_loaded [of im_repo sid ?a msgs]
    by (intro open_without_override) (simp_all add: demo_opts_def demo_agent_fields)
  obtain z w where ap: "repo_Append im_repo sid [m] s = (z, w)" by fastforce
  then have w: "w = None" using im_AppendD by (auto simp: im_repo_def)
  have i: "prompt_input im_repo (po_SessionID ?o) (Some m) (?a\<lparr>a_activeToolNames := recorded_names msgs\<rparr>)
      = (?a\<lparr>a_activeToolNames := recorded_names msgs, a_session := z\<rparr>, None)"
    using ap w by (simp add: prompt_input_def demo_opts_def demo_agent_fields)
  have c: "can_start ?o (ag_agent ?h)" "po_SessionID ?o \<noteq> []" "open_session im_repo ?o ((ag_agent ?h)\<lparr>a_running := 1\<rparr>)
      = (?a\<lparr>a_activeToolNames := recorded_names msgs\<rparr>, Inl (po_SessionID ?o))"
    using demo_can_start assms o1 by (simp_all add: demo_opts_def)
  note s = start_opened [OF c i st]
  have res: "res = Returned ()" using s(1) by simp
  obtain r where r: "ag_current h' = Some r" "r_sessionID r = a_lastSessionID (ag_agent h')" "a_tools (ag_agent h') = a_tools (demo_agent s)"
    using st res by (cases rule: start_cases) (auto simp: new_run_def)
  have "a_lastSessionID (ag_agent h') = sid"
    using s(4) by (simp add: demo_opts_def)
  then show ?thesis using st res r by blast
qed
lemma demo_object: "new_object (demo_agent s) = \<lparr>ag_agent = demo_agent s, ag_current = None\<rparr>"
  by (simp add: new_object_def)

theorem start_protocol_witness:
  "\<exists>h' r. start im_repo None (\<lambda>_. True) (Some demo_message) (demo_opts ''s'' []) (new_object (demo_agent demo_store)) = (h', Returned ()) \<and>
     ag_current h' = Some r \<and> launched (loop_of h' r) \<and>
     start im_repo None (\<lambda>_. True) None (demo_opts ''s'' []) h' = (h', Failed (sentinel_err ErrAgentBusy))"
proof -
  obtain h' where s: "start im_repo None (\<lambda>_. True) (Some demo_message) (demo_opts ''s'' []) (new_object (demo_agent demo_store)) = (h', Returned ())"
    using demo_start [of "''s''" None "\<lambda>_. True" demo_message demo_store None] unfolding demo_object by blast
  show ?thesis using start_protocol [OF s, where ctx' = None and accept' = "\<lambda>_. True" and msg' = None and opts' = "demo_opts ''s'' []"] s by blast
qed

definition demo_resume :: "string \<Rightarrow> Message list \<Rightarrow> internalMemorySession AgentObject \<times> unit outcome" where
  "demo_resume p msgs =
     Resume im_repo None (\<lambda>_. True) (demo_opts ''s'' p) (new_object (demo_agent (demo_session ''s'' msgs)))"


theorem resume_with_override_witness:
  "snd (demo_resume ''be brief'' [demo_message, demo_call_result]) = Returned () \<and>
   snd (demo_resume ''be brief'' [NewSystem ''x'', demo_call_result]) = Failed (sentinel_err ErrNothingToResume)"
proof -
  have "snd (demo_resume ''be brief'' [n, demo_call_result])
      = (if m_Role n = ''system'' then Failed (sentinel_err ErrNothingToResume) else Returned ())" for n
  proof -
    let ?o = "demo_opts ''s'' ''be brief''" and ?h = "new_object (demo_agent (demo_session ''s'' [n, demo_call_result]))"
    obtain h' res where r: "demo_resume ''be brief'' [n, demo_call_result] = (h', res)" by fastforce
    have "can_start ?o (ag_agent ?h)" "repo_Load im_repo (po_SessionID ?o) (a_session (ag_agent ?h)) = Inl ([n] @ [demo_call_result])"
      using demo_can_start demo_session_load by (simp_all add: new_object_def demo_agent_fields demo_opts_def)
    from resume_with_override [OF this(1) _ _ this(2) _ r [unfolded demo_resume_def]] r show ?thesis
      by (simp add: demo_opts_def demo_call_result_def mk_message_def)
  qed
  then show ?thesis by (simp add: demo_message_def NewText_def NewSystem_def mk_message_def)
qed


theorem new_session_opening_witness:
  "\<exists>h' r. Prompt im_repo None (\<lambda>_. True) demo_message (demo_opts [] ''be brief'') (new_object (demo_agent demo_store)) = (h', Returned ()) \<and>
     ag_current h' = Some r \<and>
     repo_Load im_repo (r_sessionID r) (a_session (ag_agent h')) = Inl [NewSystem ''be brief'', demo_message]"
proof -
  let ?o = "demo_opts [] ''be brief''" and ?h = "new_object (demo_agent demo_store)"
  let ?a = "(ag_agent ?h)\<lparr>a_running := 1\<rparr>"
  obtain m where m: "resolve_model ?o (snapshot ?a) ?a = Inl m"
    using demo_can_start [of "[]" "''be brief''" demo_store] resolve_model_running [where a = "ag_agent ?h" and opts = ?o and n = 1]
    by (auto simp: can_start_def new_object_def)
  obtain s sid where c: "repo_Create im_repo demo_store = (s, Inl sid)" by (simp add: im_repo_def im_Create_def Let_def)
  obtain s2 e2 where p: "repo_Append im_repo sid [NewSystem ''be brief''] s = (s2, e2)" by fastforce
  then have e2: "e2 = None" using im_AppendD by (auto simp: im_repo_def)
  obtain s3 e3 where q: "repo_Append im_repo sid [demo_message] s2 = (s3, e3)" by fastforce
  then have e3: "e3 = None" using im_AppendD by (auto simp: im_repo_def)
  have "create_session im_repo ?o (snapshot ?a) ?a = (?a\<lparr>a_session := s2\<rparr>, Inl sid)"
    using c p e2 by (simp add: create_session_def recordActiveToolsOnCreate_def demo_opts_def demo_agent_fields new_object_def)
  moreover have "prompt_input im_repo sid (Some demo_message) (?a\<lparr>a_session := s2\<rparr>) = (?a\<lparr>a_session := s3\<rparr>, None)"
    using q e3 by (simp add: prompt_input_def)
  ultimately have "\<exists>a r. prepare_run im_repo None (\<lambda>_. True) (Some demo_message) ?o ?a = (a, Returned r)"
    using m demo_can_start [of "[]" "''be brief''" demo_store]
    by (simp add: prepare_run_def resolve_session_def can_start_def demo_opts_def new_object_def)
  then have "\<exists>h'. Prompt im_repo None (\<lambda>_. True) demo_message ?o ?h = (h', Returned ())"
    by (auto simp: Prompt_def start_def new_object_def demo_agent_fields)
  then obtain h' where h': "Prompt im_repo None (\<lambda>_. True) demo_message ?o ?h = (h', Returned ())" by blast
  have "session_opening ?o (ag_agent ?h) = [NewSystem ''be brief'']"
    by (simp add: session_opening_def demo_opts_def new_object_def demo_agent_fields)
  with new_session_opening [where opts = ?o and ctx = None and accept = "\<lambda>_. True" and m = demo_message and h = ?h and h' = h'] h'
  show ?thesis by (auto simp: demo_opts_def)
qed

text \<open>A prompt of the demo agent whose caller has cancelled: it ends at its first turn.\<close>

definition demo_cancelled :: "internalMemorySession loop_state" where
  "demo_cancelled = loop_of \<lparr>ag_agent = (demo_agent (demo_session ''s'' [demo_message]))\<lparr>a_running := 1, a_lastSessionID := ''s''\<rparr>, ag_current = None\<rparr>
     (new_run (Some (sentinel_err ErrPromptCancelled)) (\<lambda>_. True) (demo_opts ''s'' []) (snapshot (demo_agent demo_store)) ''m'' ''s'')"

lemma demo_cancelled_launched: "launched demo_cancelled"
  by (simp add: demo_cancelled_def loop_of_def launched_def new_run_def)

lemma reach_step: "reach R t u \<Longrightarrow> loop_step R s t \<Longrightarrow> reach R s u"
  by (induction rule: reach.induct) (auto intro: reach.intros)

lemma deferred_exit:
  fixes s :: "'s loop_state"
  assumes "lo_pc s = PC_Deferred 0"
  shows "\<exists>t. reach R s t \<and> lo_pc t = PC_Exited \<and> r_steerCh (lo_run t) = r_steerCh (lo_run s) \<and>
    a_config (lo_agent t) = a_config (lo_agent s)"
proof -
  define f where "f n = loop_deferred R n" for n
  define k where "k u \<longleftrightarrow> r_steerCh (lo_run u) = r_steerCh (lo_run s) \<and> a_config (lo_agent u) = a_config (lo_agent s)" for u :: "'s loop_state"
  have step: "loop_step R u (f n u) \<and> lo_pc (f n u) = (if n = 4 then PC_Exited else PC_Deferred (Suc n)) \<and> k (f n u)"
    if "lo_pc u = PC_Deferred n" "n \<le> 4" "k u" for n u
  proof -
    obtain a r e where fl: "flushPendingActiveTools R (lo_agent u, lo_run u) = ((a, r), e)" by (metis surj_pair)
    from flush_log [OF fl] have "r_steerCh r = r_steerCh (lo_run u)" by (auto simp: same_but_log_def)
    then have "r_steerCh (lo_run (f n u)) = r_steerCh (lo_run u)" unfolding f_def
      using that(2) fl by (cases rule: deferred_cases [OF that(2)]) (auto simp: at_def closeEvents_def cancel_def split: option.split)
    then show ?thesis using Deferred [OF that(1), of R] loop_deferred_facts [OF that(2), where R = R and s = u] that(3) by (simp add: f_def k_def)
  qed
  have s0: "k s" by (simp add: k_def)
  have "\<exists>t. reach R u t \<and> lo_pc t = PC_Exited \<and> k t" if "lo_pc u = PC_Deferred n" "n \<le> 4" "k u" for n u
    using that
  proof (induction "4 - n" arbitrary: n u)
    case 0
    then show ?case using step [of u n] reach_loop [OF reach_refl] by auto
  next
    case (Suc d)
    then have "lo_pc (f n u) = PC_Deferred (Suc n)" "k (f n u)" "loop_step R u (f n u)" using step [of u n] by auto
    then show ?case using Suc.hyps(1) [of "Suc n" "f n u"] Suc.hyps(2) reach_step by fastforce
  qed
  from this [OF assms _ s0] show ?thesis by (simp add: k_def)
qed

lemma cancelled_exit:
  assumes "lo_pc s = PC_Start" "r_ctx (lo_run s) = Some c"
  shows "\<exists>t. reach im_repo s t \<and> lo_pc t = PC_Exited \<and> r_steerCh (lo_run t) = r_steerCh (lo_run s) \<and>
    a_config (lo_agent t) = a_config (lo_agent s)"
proof -
  let ?t = "loop_start im_repo s"
  have t: "lo_pc ?t = PC_Turn" "r_ctx (lo_run ?t) = Some c" "r_steerCh (lo_run ?t) = r_steerCh (lo_run s)"
    "a_config (lo_agent ?t) = a_config (lo_agent s)"
    using assms(2) by (simp_all add: loop_start_def loadTranscript_def im_repo_def im_Load_slice im_LoadBranchSummaries_def Let_def at_def)
  have u: "lo_pc (loop_turn ?t) = PC_Deferred 0" "r_steerCh (lo_run (loop_turn ?t)) = r_steerCh (lo_run s)"
    "a_config (lo_agent (loop_turn ?t)) = a_config (lo_agent s)"
    using t loop_turn_facts(6) [OF t(1)]
    by (simp_all add: loop_turn_def begin_turn_def Let_def turn_failed_def finished_def finish_def at_def split: option.split)
  from deferred_exit [OF u(1), of im_repo] show ?thesis
    using u(2,3) reach_step [OF reach_step [OF _ Turn [OF t(1)]] Start [OF assms(1)]] by fastforce
qed

theorem steer_after_end_witness:
  "\<exists>t. reach im_repo demo_cancelled t \<and>
     Steer False None demo_message \<lparr>ag_agent = lo_agent t, ag_current = Some (lo_run t)\<rparr> \<noteq> None \<and>
     Context \<lparr>ag_agent = lo_agent t, ag_current = Some (lo_run t)\<rparr> = Some (sentinel_err ErrNoPromptInFlight)"
proof -
  have c: "lo_pc demo_cancelled = PC_Start" "r_ctx (lo_run demo_cancelled) = Some (sentinel_err ErrPromptCancelled)"
    "r_steerCh (lo_run demo_cancelled) = []" "c_SteerBufferSize (a_config (lo_agent demo_cancelled)) = 8"
    by (simp_all add: demo_cancelled_def loop_of_def new_run_def demo_agent_fields config_defaults_def demo_config_def or_default_def)
  obtain t where t: "reach im_repo demo_cancelled t" "lo_pc t = PC_Exited" "steer_room t (r_steerCh (lo_run t))"
    using cancelled_exit [OF c(1,2)] c(3,4) by (auto simp: steer_room_def)
  from steer_after_end [OF demo_cancelled_launched t, of demo_message False] t(1) show ?thesis
    by (auto simp: Let_def)
qed

definition demo_late :: "internalMemorySession loop_state" where
  "demo_late = \<lparr>lo_agent = demo_agent demo_store,
     lo_run = new_run None (\<lambda>_. True) (demo_opts ''old'' []) (snapshot (demo_agent demo_store)) ''m'' ''old'',
     lo_pc = PC_Deferred 1, lo_leaked = None, lo_requests = []\<rparr>"

theorem late_flush_misroutes_witness:
  "\<exists>h r a us. start im_repo None (\<lambda>_. True) (Some demo_message) (demo_opts ''new'' [])
       \<lparr>ag_agent = lo_agent demo_late, ag_current = Some (lo_run demo_late)\<rparr> = (h, Returned ()) \<and>
     ag_current h = Some r \<and> r_sessionID r = ''new'' \<and> SetActiveTools im_repo (Some [''read'']) (ag_agent h) = (a, us, None) \<and>
     repo_Load im_repo ''new'' (a_session (lo_agent (loop_deferred im_repo 1 (demo_late\<lparr>lo_agent := a\<rparr>))))
       = repo_Load im_repo ''new'' (a_session (ag_agent h))"
proof -
  have l: "lo_agent demo_late = demo_agent demo_store" "r_sessionID (lo_run demo_late) = ''old''"
    by (simp_all add: demo_late_def new_run_def)
  have "''new'' \<noteq> []" by simp
  from demo_start [OF this, of None "\<lambda>_. True" demo_message demo_store "Some (lo_run demo_late)"]
  obtain h r where h: "start im_repo None (\<lambda>_. True) (Some demo_message) (demo_opts ''new'' [])
      \<lparr>ag_agent = lo_agent demo_late, ag_current = Some (lo_run demo_late)\<rparr> = (h, Returned ())"
    "ag_current h = Some r" "r_sessionID r = ''new''" "a_tools (ag_agent h) = a_tools (demo_agent demo_store)"
    unfolding l by blast
  have run: "isRunning (ag_agent h)" using h(1) by (cases rule: start_cases) (auto simp: isRunning_def)
  have v: "validateToolConfig (a_tools (ag_agent h)) (Some [''read'']) = None"
    using demo_tools_valid [of "Some [''read'']"] h(4) by (simp add: demo_agent_fields)
  have "snd (snd (SetActiveTools im_repo (Some [''read'']) (ag_agent h))) = None"
    using run v by (simp add: SetActiveTools_def Let_def isRunning_def)
  then obtain a us where a: "SetActiveTools im_repo (Some [''read'']) (ag_agent h) = (a, us, None)" by (metis prod.collapse)
  obtain old where "repo_Load im_repo (r_sessionID (lo_run demo_late)) (a_session (ag_agent h)) = Inl old"
    by (simp add: im_repo_def im_Load_slice)
  from late_flush_misroutes [OF h(1,2) _ _ _ a this] h a show ?thesis
    unfolding Let_def l by (auto simp: demo_agent_fields)
qed

end
