(* ===== verification/Prompt_Correct.thy ===== *)
theory Prompt_Correct
  imports Agent_Props
begin

text \<open>
  The properties of the prompt loop as a whole, over every execution of a launched prompt, whatever
  the provider, the tools, the clock and the callers do.
\<close>

lemma demo_reaches_end:
  "\<exists>t. reach im_repo demo_cancelled t \<and> lo_pc t = PC_Exited"
proof -
  have "lo_pc demo_cancelled = PC_Start" "r_ctx (lo_run demo_cancelled) = Some (sentinel_err ErrPromptCancelled)"
    by (simp_all add: demo_cancelled_def loop_of_def new_run_def)
  from cancelled_exit [OF this] show ?thesis by blast
qed

section \<open>Events\<close>

lemma pc_ok_facts:
  "pc_ok p r run \<Longrightarrow> (\<exists>st. ev_run (r_emitted r) = Some st) \<and> subseq (r_delivered r) (r_emitted r)"
  by (cases p) (auto simp: going_def ended_def)

lemma ev_run_has_end: "ev_run evs = Some EV_End \<Longrightarrow> \<exists>e \<in> set evs. is_end e"
proof -
  assume "ev_run evs = Some EV_End"
  from ev_run_facts [OF this] have "length (filter is_end evs) = 1" by simp
  then show ?thesis by (metis filter_False length_0_conv zero_neq_one)
qed

text \<open>
  C1
  The events of a prompt come in order: nothing before AgentStart, turns numbered from 1 without a gap
  and each opened once, at most one AgentEnd, and after it only what tools that outlived the prompt
  still emit. What the subscriber receives is a subsequence of it: an event is dropped, never moved.
\<close>

theorem prompt_events_ordered:
  assumes "launched s" "reach R s t"
  shows "subseq (r_delivered (lo_run t)) (r_emitted (lo_run t)) \<and>
    (r_emitted (lo_run t) \<noteq> [] \<longrightarrow> hd (r_emitted (lo_run t)) = AgentStartEvent) \<and>
    (\<exists>k. turn_starts (r_emitted (lo_run t)) = [1..k]) \<and>
    length (filter is_end (r_emitted (lo_run t))) \<le> 1 \<and>
    (\<forall>xs ms ys e. r_emitted (lo_run t) = xs @ AgentEndEvent ms # ys \<and> e \<in> set ys \<longrightarrow>
       (\<exists>c n res. e = ToolUpdateEvent c n res \<or> e = ToolCallEndEvent c n res))"
proof -
  have "pc_ok (lo_pc t) (lo_run t) (a_running (lo_agent t))"
    using reach_inv [OF assms(2) launched_inv [OF assms(1)]] by (simp add: loop_inv_def)
  from pc_ok_facts [OF this] obtain st where st: "ev_run (r_emitted (lo_run t)) = Some st"
    and sub: "subseq (r_delivered (lo_run t)) (r_emitted (lo_run t))" by blast
  have after: "\<exists>c n res. e = ToolUpdateEvent c n res \<or> e = ToolCallEndEvent c n res"
    if "r_emitted (lo_run t) = xs @ AgentEndEvent ms # ys" "e \<in> set ys" for xs ms ys e
  proof -
    have "ev_next EV_End e = Some EV_End" using ev_run_after_end [of xs ms ys st e] st that by simp
    then show ?thesis by (cases e) auto
  qed
  note f = ev_run_facts [OF st]
  then have "length (filter is_end (r_emitted (lo_run t))) = (if st = EV_End then 1 else 0)" by blast
  then have "length (filter is_end (r_emitted (lo_run t))) \<le> 1" by simp
  moreover have "\<exists>k. turn_starts (r_emitted (lo_run t)) = [1..k]" using f by blast
  moreover have "r_emitted (lo_run t) \<noteq> [] \<longrightarrow> hd (r_emitted (lo_run t)) = AgentStartEvent" using f by blast
  ultimately show ?thesis using sub after by blast
qed

theorem prompt_events_ordered_witness:
  "\<exists>t. reach im_repo demo_cancelled t \<and> lo_pc t = PC_Exited \<and> length (filter is_end (r_emitted (lo_run t))) \<le> 1"
  using demo_reaches_end prompt_events_ordered [OF demo_cancelled_launched] by blast

text \<open>
  C2
  A prompt delivers its result once. The two channels are closed only after AgentEnd and the result,
  the slot is held until then, and when the loop has exited there is exactly one result, whose
  messages are a prefix of the transcript, both channels are closed and the slot is free.
\<close>

theorem prompt_finishes_once:
  assumes "launched s" "reach R s t"
  shows "length (r_done (lo_run t)) \<le> 1 \<and>
    (r_eventsClosed (lo_run t) \<longrightarrow> r_doneClosed (lo_run t)) \<and>
    (r_doneClosed (lo_run t) \<longrightarrow> length (r_done (lo_run t)) = 1 \<and> a_running (lo_agent t) = 0 \<and>
       (\<exists>e \<in> set (r_emitted (lo_run t)). is_end e)) \<and>
    (a_running (lo_agent t) = 0 \<or> a_running (lo_agent t) = 1) \<and>
    (r_done (lo_run t) = [] \<longrightarrow> a_running (lo_agent t) = 1) \<and>
    (lo_pc t = PC_Exited \<longrightarrow> a_running (lo_agent t) = 0 \<and> r_eventsClosed (lo_run t) \<and> r_phase (lo_run t) = PhaseDone \<and>
       (\<exists>res. r_done (lo_run t) = [res] \<and> prefix (res_Messages res) (r_transcript (lo_run t))))"
proof -
  have ok: "pc_ok (lo_pc t) (lo_run t) (a_running (lo_agent t))"
    using reach_inv [OF assms(2) launched_inv [OF assms(1)]] by (simp add: loop_inv_def)
  show ?thesis using ok by (cases "lo_pc t") (auto simp: going_def ended_def ev_run_has_end split: if_splits)
qed

theorem prompt_finishes_once_witness:
  "\<exists>t. reach im_repo demo_cancelled t \<and> a_running (lo_agent t) = 0 \<and> (\<exists>res. r_done (lo_run t) = [res])"
  using demo_reaches_end prompt_finishes_once [OF demo_cancelled_launched] by blast

section \<open>The transcript and the store\<close>


text \<open>The same cancelled prompt on the other backend.\<close>

definition demo_cancelled_ms :: "MemorySession loop_state" where
  "demo_cancelled_ms = loop_of \<lparr>ag_agent = (demo_agent (NewMemorySession [] []))\<lparr>a_running := 1, a_lastSessionID := ''s''\<rparr>, ag_current = None\<rparr>
     (new_run (Some (sentinel_err ErrPromptCancelled)) (\<lambda>_. True) (demo_opts ''s'' []) (snapshot (demo_agent demo_store)) ''m'' ''s'')"


section \<open>Stopping\<close>



text \<open>
  C28
  The stop hook is a turn cap: a hook that answers yes from turn \<open>N\<close> on keeps a prompt to \<open>N\<close> turns and
  \<open>N\<close> requests, whatever the model calls and the callers steer.
\<close>

theorem stop_hook_caps_turns:
  assumes "launched s" "reach R s t" "h_ShouldStopAfterTurn (a_hooks (lo_agent s)) = Some h" "\<forall>n had. N \<le> n \<longrightarrow> h n had" "1 \<le> N"
  shows "r_turn (lo_run t) \<le> int N \<and> length (lo_requests t) \<le> N"
proof -
  have "turns_ok N s" using assms(1,5) by (simp add: turns_ok_def launched_def)
  moreover have "stops_at (a_hooks (lo_agent s)) N" using assms(3,4) by (auto simp: stops_at_def)
  ultimately have "turns_ok N t" using turns_ok_reach [OF assms(2) launched_inv [OF assms(1)]] by blast
  then show ?thesis by (simp add: turns_ok_def)
qed

definition demo_capped :: "internalMemorySession loop_state" where
  "demo_capped = demo_cancelled\<lparr>lo_agent := (lo_agent demo_cancelled)\<lparr>a_hooks := no_hooks\<lparr>h_ShouldStopAfterTurn := Some (\<lambda>n had. 1 \<le> n)\<rparr>\<rparr>\<rparr>"

theorem stop_hook_caps_turns_witness:
  "\<exists>t. reach im_repo demo_capped t \<and> lo_pc t = PC_Exited \<and> r_turn (lo_run t) \<le> 1"
proof -
  have l: "launched demo_capped" using demo_cancelled_launched by (simp add: demo_capped_def launched_def)
  have "lo_pc demo_capped = PC_Start" "r_ctx (lo_run demo_capped) = Some (sentinel_err ErrPromptCancelled)"
    by (simp_all add: demo_capped_def demo_cancelled_def loop_of_def new_run_def)
  from cancelled_exit [OF this] obtain t where t: "reach im_repo demo_capped t" "lo_pc t = PC_Exited" by blast
  have "h_ShouldStopAfterTurn (a_hooks (lo_agent demo_capped)) = Some (\<lambda>n had. 1 \<le> n)" by (simp add: demo_capped_def)
  from stop_hook_caps_turns [OF l t(1) this, of 1] t show ?thesis by auto
qed

section \<open>Progress\<close>

inductive loop_steps :: "'s SessionRepo \<Rightarrow> 's loop_state \<Rightarrow> 's loop_state \<Rightarrow> bool" for R where
  steps_refl: "loop_steps R s s"
| steps_step: "loop_step R s t \<Longrightarrow> loop_steps R t u \<Longrightarrow> loop_steps R s u"

lemma can_finish_steps: "can_finish R s \<Longrightarrow> \<exists>t. loop_steps R s t \<and> (lo_pc t = PC_Exited \<or> lo_pc t = PC_Panicked)"
  by (induction rule: can_finish.induct) (auto intro: loop_steps.intros)

text \<open>
  C4
  A prompt is never stuck: from every state it reaches, its own steps, those of the provider and of the
  tools included, can bring the loop to its end, and until then one of them is possible. No caller
  is needed for it, and the only other end is a panic.
\<close>

theorem prompt_never_stuck:
  assumes "launched s" "reach R s t"
  shows "(lo_pc t \<noteq> PC_Exited \<and> lo_pc t \<noteq> PC_Panicked \<longrightarrow> (\<exists>u. loop_step R t u)) \<and>
    (\<exists>u. loop_steps R t u \<and> (lo_pc u = PC_Exited \<or> lo_pc u = PC_Panicked))"
proof -
  have i: "loop_inv t" using reach_inv [OF assms(2) launched_inv [OF assms(1)]] .
  have "batch_inv s" using assms(1) by (simp add: batch_inv_def launched_def)
  then have b: "batch_inv t" using batch_inv_reach [OF assms(2) launched_inv [OF assms(1)]] by blast
  show ?thesis using loop_progress [OF i b] can_finish_steps [OF always_can_finish [OF i b]] by blast
qed

theorem prompt_never_stuck_witness:
  "\<exists>u. loop_steps im_repo demo_cancelled u \<and> (lo_pc u = PC_Exited \<or> lo_pc u = PC_Panicked)"
  using prompt_never_stuck [OF demo_cancelled_launched reach_refl] by blast

section \<open>Tool results\<close>

lemma append_each_transcript:
  "append_each R ms ar = (ar', None) \<Longrightarrow> r_transcript (snd ar') = r_transcript (snd ar) @ ms"
proof (induction ms arbitrary: ar)
  case (Cons m ms)
  obtain y x where y: "appendTranscript R [m] ar = (y, x)" by fastforce
  then have x: "x = None" "append_each R ms y = (ar', None)" using Cons.prems by (cases x; simp)+
  have "r_transcript (snd y) = r_transcript (snd ar) @ [m]"
    using y x(1) by (cases ar) (auto simp: appendTranscript_def split: prod.splits option.splits)
  then show ?case using Cons.IH [OF x(2)] by simp
qed simp

text \<open>The outcome of a call of the assistant's message, and the calls that leave a result.\<close>

definition outcome_of :: "Hooks \<Rightarrow> RegisteredTool list \<Rightarrow> ToolCall \<Rightarrow> toolOutcome" where
  "outcome_of hooks tools tc = call_outcome hooks (snd (prepareToolCall hooks tools tc))"

lemma outcome_of_call:
  "o_callID (outcome_of hooks tools tc) = tcc_CallID tc" "o_name (outcome_of hooks tools tc) = tcc_ToolName tc"
  by (simp_all add: outcome_of_def call_outcome_def prepareToolCall_def Let_def split: option.split)

lemma outcome_of_unknown:
  "findTool tools (tcc_ToolName tc) = None \<Longrightarrow> o_err (outcome_of hooks tools tc) = Some (sentinel_err ErrToolNotFound)"
  by (simp add: outcome_of_def call_outcome_def prepareToolCall_def Let_def)

text \<open>
  C6
  However the tools of a turn interleave, the results are persisted in the order of the calls, one
  for each call but the suspended ones, under the call's id and name, an unknown tool's as an error;
  a suspended call marks the prompt. Where every call succeeds and asks to terminate, nothing is
  persisted and the prompt is marked to end.
\<close>

theorem tool_results_in_call_order:
  assumes "batch_run mx hooks (start_batch (map (\<lambda>tc. snd (prepareToolCall hooks tools tc)) calls)) evs b n" "batch_done b" "0 \<le> mx"
    "persist_results R (b_results b) (a, r) = ((a', r'), None)"
  shows "map o_callID (b_results b) = map tcc_CallID calls \<and> map o_name (b_results b) = map tcc_ToolName calls \<and>
    (\<forall>i < length calls. findTool tools (tcc_ToolName (calls ! i)) = None \<longrightarrow> o_err (b_results b ! i) = Some (sentinel_err ErrToolNotFound)) \<and>
    (if all_terminate (b_results b) then a' = a \<and> r' = r\<lparr>r_terminated := True\<rparr>
     else r_transcript r' = r_transcript r @ map outcome_message (filter (\<lambda>x. \<not> suspends x) (b_results b)) \<and>
       r_terminated r' = r_terminated r \<and> r_suspended r' = (r_suspended r \<or> list_ex suspends (b_results b)))"
proof -
  let ?preps = "map (\<lambda>tc. snd (prepareToolCall hooks tools tc)) calls"
  have ok: "batch_ok mx hooks b" "b_preps b = ?preps"
    using batch_run_ok [OF assms(1) start_batch_ok] by (simp_all add: start_batch_def)
  have res: "b_results b = map (outcome_of hooks tools) calls"
    using batch_done_results [OF ok(1) assms(2)] ok(2) by (simp add: outcome_of_def comp_def)
  have p: "if all_terminate (b_results b) then a' = a \<and> r' = r\<lparr>r_terminated := True\<rparr>
     else r_transcript r' = r_transcript r @ map outcome_message (filter (\<lambda>x. \<not> suspends x) (b_results b)) \<and>
       r_terminated r' = r_terminated r \<and> r_suspended r' = (r_suspended r \<or> list_ex suspends (b_results b))"
  proof (cases "all_terminate (b_results b)")
    case True
    then show ?thesis using assms(4) by (auto simp: persist_results_def)
  next
    case False
    obtain a1 r1 e where ap: "append_each R (map outcome_message (filter (\<lambda>x. \<not> suspends x) (b_results b))) (a, r) = ((a1, r1), e)"
      by (metis surj_pair)
    then have e: "e = None" and r': "r' = (if list_ex suspends (b_results b) then setSuspended r1 else r1)"
      using assms(4) False by (cases e; auto simp: persist_results_def split: if_splits)+
    have "r_terminated r1 = r_terminated r" "r_suspended r1 = r_suspended r"
      using append_each_log [OF ap] by (auto simp: same_but_log_def)
    then show ?thesis using append_each_transcript [of R _ "(a, r)" "(a1, r1)"] ap e False r' by auto
  qed
  have ids: "map o_callID (b_results b) = map tcc_CallID calls" "map o_name (b_results b) = map tcc_ToolName calls"
    by (simp_all add: res outcome_of_call comp_def)
  have unk: "\<forall>i < length calls. findTool tools (tcc_ToolName (calls ! i)) = None \<longrightarrow> o_err (b_results b ! i) = Some (sentinel_err ErrToolNotFound)"
    by (simp add: res outcome_of_unknown)
  show ?thesis using p ids unk by blast
qed

lemma im_append_None: "appendTranscript im_repo ms ar = (ar', e) \<Longrightarrow> e = None \<and> r_transcript (snd ar') = r_transcript (snd ar) @ ms"
proof (cases ar)
  case (Pair a r)
  assume ap: "appendTranscript im_repo ms ar = (ar', e)"
  obtain s x where "repo_Append im_repo (r_sessionID r) ms (a_session a) = (s, x)" by fastforce
  moreover from this have "x = None" using im_AppendD by (auto simp: im_repo_def)
  ultimately show ?thesis using ap Pair by (auto simp: appendTranscript_def)
qed

lemma im_append_each_None: "append_each im_repo ms ar = (ar', e) \<Longrightarrow> e = None"
proof (induction ms arbitrary: ar)
  case (Cons m ms)
  obtain y x where y: "appendTranscript im_repo [m] ar = (y, x)" by fastforce
  then show ?case using im_append_None [OF y] Cons by simp
qed simp

definition truncated_message :: "ToolCall \<Rightarrow> Message" where
  "truncated_message tc = NewToolResultMsg (tcc_CallID tc) (tcc_ToolName tc) (truncated_result (tcc_ToolName tc))"

lemma failTruncated_transcript:
  "failTruncatedToolCalls im_repo tcs ar = (ar', e) \<Longrightarrow>
     e = None \<and> r_transcript (snd ar') = r_transcript (snd ar) @ map truncated_message tcs"
proof (induction tcs arbitrary: ar)
  case (Cons tc tcs)
  let ?x = "(fst ar, emit (ToolCallEndEvent (tcc_CallID tc) (tcc_ToolName tc) (truncated_result (tcc_ToolName tc))) (snd ar))"
  obtain y x where a: "appendTranscript im_repo [truncated_message tc] ?x = (y, x)" by fastforce
  then have "x = None" "r_transcript (snd y) = r_transcript (snd ar) @ [truncated_message tc]"
    using im_append_None [OF a] by simp_all
  then show ?case using Cons a by (auto simp: Let_def truncated_message_def)
qed simp

text \<open>
  C30
  When the model's output was cut off by the token limit, none of the turn's tool calls is prepared or
  run: each gets an error result right after the assistant's messages, and the loop goes on.
\<close>

theorem truncated_calls_not_run:
  assumes "lo_pc s = PC_Stream acc tools" "sa_stop acc = StopReasonLength" "sa_toolCalls acc \<noteq> []"
  shows "lo_pc (loop_stream_end im_repo None acc tools s) = PC_Flush True \<and>
    r_transcript (lo_run (loop_stream_end im_repo None acc tools s))
      = r_transcript (lo_run s) @ assistant_messages acc @ map truncated_message (sa_toolCalls acc)"
proof -
  obtain a r e where ap: "append_each im_repo (assistant_messages acc) (lo_agent s, lo_run s) = ((a, r), e)" by (metis surj_pair)
  have e: "e = None" by (rule im_append_each_None [OF ap])
  obtain y x where f: "failTruncatedToolCalls im_repo (sa_toolCalls acc) (a, emit (TurnEndEvent (r_turn r)) r) = (y, x)" by fastforce
  show ?thesis
    using ap e f append_each_transcript [of im_repo _ "(lo_agent s, lo_run s)" "(a, r)"] failTruncated_transcript [OF f] assms
    by (simp add: loop_stream_end_def turn_try_def Let_def at_def)
qed

definition demo_call :: "string \<Rightarrow> ToolCall" where
  "demo_call n = \<lparr>tcc_CallID = n, tcc_ToolName = n, tcc_Args = Some ''{}'', tcc_ThoughtSignature = []\<rparr>"

theorem tool_results_in_call_order_witness:
  "\<exists>(b :: toolBatch) ar'. persist_results im_repo (b_results b) (lo_agent demo_cancelled, lo_run demo_cancelled) = (ar', None) \<and>
     map o_callID (b_results b) = [''gone'', ''read''] \<and> o_err (b_results b ! 0) = Some (sentinel_err ErrToolNotFound) \<and>
     length (r_transcript (snd ar')) = 2"
proof -
  let ?calls = "[demo_call ''gone'', demo_call ''read'']"
  let ?preps = "map (\<lambda>tc. snd (prepareToolCall no_hooks [demo_tool ''read''] tc)) ?calls"
  have nm: "t_Name (demo_tool ''read'') = ''read''" by (simp add: demo_tool_def NewDynamicTool_def)
  let ?p0 = "\<lparr>p_callID = ''gone'', p_name = ''gone'', p_args = None, p_tool = None, p_immediate = True, p_err = Some (sentinel_err ErrToolNotFound)\<rparr>"
  let ?p1 = "\<lparr>p_callID = ''read'', p_name = ''read'', p_args = Some ''{}'', p_tool = Some (demo_tool ''read''), p_immediate = False, p_err = None\<rparr>"
  have preps: "?preps = [?p0, ?p1]"
    by (simp add: prepareToolCall_def demo_call_def nm no_hooks_def Let_def)
  have run: "run_prepared ?p1 = ([], (zero_result, None))"
    by (simp add: run_prepared_def run_tool_def demo_tool_def NewDynamicTool_def dynamic_execute_def runPrepare_def)
  obtain evs b where b: "run_schedule 1 no_hooks [Suc 0, Suc 0, Suc 0] (start_batch [?p0, ?p1]) = Some (evs, b)" "batch_done b"
    "\<not> all_terminate (b_results b)" "length (filter (\<lambda>x. \<not> suspends x) (b_results b)) = 2"
    by (simp add: batch_act_def slot_free_def in_flight_def holds_slot_def start_batch_def run batch_done_def Let_def
        final_result_def no_hooks_def all_terminate_def zero_result_def suspends_def)
  obtain a r e where p: "persist_results im_repo (b_results b) (lo_agent demo_cancelled, lo_run demo_cancelled) = ((a, r), e)" by (metis surj_pair)
  obtain ar1 e1 where ap: "append_each im_repo (map outcome_message (filter (\<lambda>x. \<not> suspends x) (b_results b)))
      (lo_agent demo_cancelled, lo_run demo_cancelled) = (ar1, e1)" by fastforce
  have "e = None" using p b(3) ap im_append_each_None [OF ap] by (auto simp: persist_results_def)
  note c = tool_results_in_call_order [OF batch_run_schedule [OF b(1), folded preps] b(2) _ p [unfolded this]]
  have tr: "r_transcript (lo_run demo_cancelled) = []" by (simp add: demo_cancelled_def loop_of_def new_run_def)
  have "map o_callID (b_results b) = [''gone'', ''read'']" "o_err (b_results b ! 0) = Some (sentinel_err ErrToolNotFound)"
    "length (r_transcript r) = 2"
    using c b(3,4) nm tr by (auto simp: demo_call_def)
  then show ?thesis using p \<open>e = None\<close> by (intro exI [of _ b] exI [of _ "(a, r)"]) simp
qed

definition demo_truncated :: stream_acc where
  "demo_truncated = new_stream\<lparr>sa_toolCalls := [demo_call ''read''], sa_stop := StopReasonLength\<rparr>"

theorem truncated_calls_not_run_witness:
  "r_transcript (lo_run (loop_stream_end im_repo None demo_truncated [] (demo_cancelled\<lparr>lo_pc := PC_Stream demo_truncated []\<rparr>)))
     = [call_message (demo_call ''read''), truncated_message (demo_call ''read'')]"
  using truncated_calls_not_run [of "demo_cancelled\<lparr>lo_pc := PC_Stream demo_truncated []\<rparr>" demo_truncated "[]"]
  by (simp add: demo_truncated_def new_stream_def assistant_messages_def has_text_def demo_cancelled_def loop_of_def new_run_def)

section \<open>Requests\<close>

lemma loop_turn_agent: "lo_agent (loop_turn s) = lo_agent s"
  by (simp add: loop_turn_def turn_failed_def finished_def at_def split: prod.split outcome.split option.split)

lemma loop_step_tools: "loop_step R s t \<Longrightarrow> loop_inv s \<Longrightarrow> a_tools (lo_agent t) = a_tools (lo_agent s)"
proof (erule (1) loop_step_cases)
  fix n assume n: "n \<le> 4" "t = loop_deferred R n s"
  obtain a r e where f: "flushPendingActiveTools R (lo_agent s, lo_run s) = ((a, r), e)" by (metis surj_pair)
  then show ?thesis using n keeps_flush [OF f] by (cases rule: deferred_cases [OF n(1)]) (auto simp: keeps_def at_def)
qed (auto simp: loop_turn_agent keeps_state_def keeps_def)

text \<open>What a request must be: to a configured provider, for this session, with each tool once.\<close>

definition request_ok :: "AgentConfig \<Rightarrow> string \<Rightarrow> TurnRequest \<Rightarrow> bool" where
  "request_ok cfg sid q \<longleftrightarrow> tq_SessionID q = sid \<and> distinct (map fst (tq_Tools q)) \<and>
     (\<exists>p \<in> set (c_Providers cfg). pr_Name p = tq_Provider q \<and> (tq_Thinking q \<noteq> ThinkingOff \<longrightarrow> pr_Thinking p (tq_Model q)))"

definition requests_inv :: "'s loop_state \<Rightarrow> bool" where
  "requests_inv s \<longleftrightarrow> wf_agent (lo_agent s) \<and>
     list_all (request_ok (a_config (lo_agent s)) (r_sessionID (lo_run s))) (lo_requests s)"

lemma find_provider_in: "find_provider ps n = Some p \<Longrightarrow> p \<in> set ps \<and> pr_Name p = n"
  by (induction ps) (auto split: if_splits)

lemma snapshot_distinct: "wf_agent a \<Longrightarrow> distinct (map t_Name (ts_tools (snapshot a)))"
  by (auto simp: snapshot_def filterActiveTools_def wf_agent_def toolNames_def distinct_map_filter split: option.split)

lemma begin_turn_request:
  assumes "begin_turn a r0 = (r, Returned (q, tools))" "wf_agent a"
  shows "request_ok (a_config a) (r_sessionID r0) q \<and> tools = ts_tools (snapshot a)"
proof -
  have pr: "p \<in> set (c_Providers (a_config a))" if "providerByName a n = Inl p" for n p
    using that find_provider_in by (auto simp: providerByName_def split: option.splits)
  define mref where "mref = (if r_optModel r0 = [] then ts_model (snapshot a) else r_optModel r0)"
  define th where "th = (if r_optThinking r0 = ThinkingOff then ts_thinkingLevel (snapshot a) else r_optThinking r0)"
  have u: "r_optModel (r'\<lparr>r_turn := k\<rparr>) = r_optModel r'" "r_optThinking (r'\<lparr>r_turn := k\<rparr>) = r_optThinking r'" for r' :: promptRun and k
    by simp_all
  note b = assms(1) [unfolded begin_turn_def Let_def emit_simps u setPhase_simps, folded mref_def th_def]
  have ctx: "r_ctx r0 = None" using b by (cases "r_ctx r0") auto
  obtain n m where m: "parseModelRef mref = Inl (n, m)"
    using b ctx by (cases "parseModelRef mref") auto
  obtain p where p: "providerByName a n = Inl p"
    using b ctx m by (cases "providerByName a n") auto
  have "tq_SessionID q = r_sessionID r0 \<and> tq_Provider q = pr_Name p \<and> tq_Model q = m \<and>
      tq_Tools q = map (\<lambda>t. (t_Name t, t_Description t, t_Schema t)) (ts_tools (snapshot a)) \<and>
      (tq_Thinking q = ThinkingOff \<or> pr_Thinking p m) \<and> tools = ts_tools (snapshot a)"
    using b ctx m p by (auto split: option.splits sum.splits if_splits)
  then show ?thesis using pr [OF p] snapshot_distinct [OF assms(2)] by (auto simp: request_ok_def comp_def)
qed

lemma requests_inv_step:
  assumes "loop_step R s t" "loop_inv s" "requests_inv s"
  shows "requests_inv t"
proof -
  note same = loop_step_same [OF assms(1,2)] loop_step_tools [OF assms(1,2)]
  have w: "wf_agent (lo_agent t)" using same(2) assms(3) by (simp add: requests_inv_def wf_agent_def)
  have "lo_requests t = lo_requests s \<or>
      (\<exists>q tools r. begin_turn (lo_agent s) (lo_run s) = (r, Returned (q, tools)) \<and> lo_requests t = lo_requests s @ [q])"
    using assms(1,2)
  proof (cases rule: loop_step_cases)
    case Turn
    then show ?thesis
      by (auto simp: loop_turn_def turn_failed_def finished_def at_def split: prod.splits outcome.splits option.splits)
  qed (auto simp: loop_deferred_facts keeps_state_def)
  then show ?thesis
  proof (elim disjE exE conjE)
    fix q tools r assume b: "begin_turn (lo_agent s) (lo_run s) = (r, Returned (q, tools))" "lo_requests t = lo_requests s @ [q]"
    then have "request_ok (a_config (lo_agent s)) (r_sessionID (lo_run s)) q"
      using begin_turn_request [OF b(1)] assms(3) by (simp add: requests_inv_def)
    then show ?thesis using b(2) same(1) w assms(3) by (simp add: requests_inv_def same_prompt_def)
  qed (use same(1) w assms(3) in \<open>simp add: requests_inv_def same_prompt_def\<close>)
qed

lemma requests_inv_env:
  assumes "env_step R s t" "requests_inv s"
  shows "requests_inv t"
proof -
  have r: "lo_requests t = lo_requests s" using assms(1) by cases auto
  have "wf_agent (lo_agent t)" using assms(1)
  proof cases
    case (EnvTools ts)
    obtain a us e where u: "SetTools ts (lo_agent s) = (a, us, e)" by (metis surj_pair)
    then show ?thesis using EnvTools assms(2) SetTools_wf [of ts "lo_agent s" a us]
      by (cases e) (auto simp: SetTools_def requests_inv_def split: option.splits)
  next
    case (EnvActiveTools names)
    obtain a us e where u: "SetActiveTools R names (lo_agent s) = (a, us, e)" by (metis surj_pair)
    then show ?thesis using EnvActiveTools assms(2) SetActiveTools_fields(1) [OF u] by (simp add: requests_inv_def wf_agent_def)
  qed (use assms(2) in \<open>auto simp: requests_inv_def wf_agent_def SetModel_def SetSystemPrompt_def SetThinkingLevel_def SetSkills_def\<close>)
  then show ?thesis using r env_step_same [OF assms(1)] assms(2) by (simp add: requests_inv_def same_prompt_def)
qed

lemma requests_inv_reach: "reach R s t \<Longrightarrow> loop_inv s \<Longrightarrow> requests_inv s \<Longrightarrow> requests_inv t"
proof (induction rule: reach.induct)
  case (reach_loop s t u)
  then show ?case using requests_inv_step reach_inv by blast
next
  case (reach_env s t u)
  then show ?case using requests_inv_env by blast
qed simp

text \<open>
  C29
  Every request a prompt makes goes to a configured provider, names the prompt's session, offers each
  tool at most once and asks for thinking only where the provider supports it for the model, whatever
  the setters did meanwhile and whatever names a session restored.
\<close>

theorem requests_well_formed:
  assumes "launched s" "reach R s t" "wf_agent (lo_agent s)" "q \<in> set (lo_requests t)"
  shows "tq_SessionID q = r_sessionID (lo_run s) \<and> distinct (map fst (tq_Tools q)) \<and>
    (\<exists>p \<in> set (c_Providers (a_config (lo_agent s))). pr_Name p = tq_Provider q \<and>
       (tq_Thinking q \<noteq> ThinkingOff \<longrightarrow> pr_Thinking p (tq_Model q)))"
proof -
  have "requests_inv s" using assms(1,3) by (simp add: requests_inv_def launched_def)
  then have "requests_inv t" using requests_inv_reach [OF assms(2) launched_inv [OF assms(1)]] by blast
  moreover have "same_prompt s t" by (rule reach_same [OF assms(2) launched_inv [OF assms(1)]])
  ultimately show ?thesis using assms(4) by (auto simp: requests_inv_def same_prompt_def request_ok_def list_all_iff)
qed

text \<open>The demo agent's prompt, its caller patient: the first turn makes a request.\<close>

definition demo_running :: "internalMemorySession loop_state" where
  "demo_running = demo_cancelled\<lparr>lo_run := (lo_run demo_cancelled)\<lparr>r_ctx := None\<rparr>\<rparr>"

lemma demo_first_turn:
  "\<exists>t. reach im_repo demo_running t \<and> lo_requests t \<noteq> []"
proof -
  let ?t = "loop_start im_repo demo_running"
  have st: "lo_pc demo_running = PC_Start" by (simp add: demo_running_def demo_cancelled_def loop_of_def)
  have m: "im_Load ''s'' (demo_session ''s'' [demo_message]) = Inl [demo_message]"
    using demo_session_load [of "''s''" "[demo_message]"] by (simp add: im_repo_def)
  have t: "lo_pc ?t = PC_Turn" "r_transcript (lo_run ?t) = [demo_message]" "r_ctx (lo_run ?t) = None" "r_optModel (lo_run ?t) = []"
    "r_branchSummaries (lo_run ?t) = map_slice (im_summaries (demo_session ''s'' [demo_message])) ''s''"
    "lo_agent ?t = (demo_agent (demo_session ''s'' [demo_message]))\<lparr>a_running := 1, a_lastSessionID := ''s''\<rparr>"
    by (simp_all add: loop_start_def loadTranscript_def im_repo_def im_LoadBranchSummaries_def Let_def at_def demo_running_def
        demo_cancelled_def loop_of_def new_run_def demo_agent_fields demo_opts_def m)
  have s: "map_slice (im_summaries (demo_session ''s'' [demo_message])) ''s'' = []"
    by (simp add: demo_session_def im_Append_def demo_store_def newInternalMemorySession_def map_slice_def)
  have b: "BuildLLMContext [demo_message] [] = Some [demo_message]" by (simp add: BuildLLMContext_def excludeBookkeeping_def demo_message_def NewText_def mk_message_def)
  have p: "providerByName (lo_agent ?t) ''p'' = Inl \<lparr>pr_Name = ''p'', pr_Thinking = (\<lambda>m. False)\<rparr>"
    using demo_provider [of "demo_session ''s'' [demo_message]"] t(6) by (simp add: providerByName_def)
  have m: "ts_model (snapshot (lo_agent ?t)) = ''p/m''" "h_TransformContext (a_hooks (lo_agent ?t)) = None"
    using t(6) by (simp_all add: snapshot_def demo_agent_fields no_hooks_def)
  have "lo_requests (loop_turn ?t) \<noteq> []"
    using t m p b s parseModelRef_ok [of "''p''" "''m''"]
    by (simp add: loop_turn_def begin_turn_def Let_def turn_messages_def split: outcome.split)
  then show ?thesis using reach_loop [OF reach_loop [OF reach_refl Start [OF st]] Turn [OF t(1)]] by blast
qed

theorem requests_well_formed_witness:
  "\<exists>t q. reach im_repo demo_running t \<and> q \<in> set (lo_requests t) \<and> tq_SessionID q = ''s''"
proof -
  obtain t where t: "reach im_repo demo_running t" "lo_requests t \<noteq> []" using demo_first_turn by blast
  then obtain q where q: "q \<in> set (lo_requests t)" by (meson list.set_sel(1))
  have l: "launched demo_running" using demo_cancelled_launched by (simp add: launched_def demo_running_def)
  have "wf_agent (demo_agent (demo_session ''s'' [demo_message]))" using NewAgent_wf [OF demo_NewAgent] by (rule conjunct1)
  then have "wf_agent (lo_agent demo_running)" by (simp add: demo_running_def demo_cancelled_def loop_of_def wf_agent_def)
  from requests_well_formed [OF l t(1) this q] t(1) q show ?thesis
    by (auto simp: demo_running_def demo_cancelled_def loop_of_def new_run_def)
qed

end
