(* ===== verification/Truncate.thy ===== *)
theory Truncate
  imports Go_Utf8
begin

text \<open>
  Output truncation (tools/truncate.go). A limit is an \<^typ>\<open>int\<close>, since a caller may set a negative
  one; a length is a \<^typ>\<open>nat\<close>. \<open>TruncateHead\<close> is an option: \<open>None\<close> is the run-time panic of
  \<open>lines[0]\<close> on empty content.
\<close>

section \<open>Limits, lines and results\<close>

definition DefaultMaxLines :: int where
  "DefaultMaxLines = 2000"

definition DefaultMaxBytes :: int where
  "DefaultMaxBytes = 50 * 1024"

record TruncationResult =
  tn_Content :: string
  tn_Truncated :: bool
  tn_TruncatedBy :: string
  tn_TotalLines :: nat
  tn_TotalBytes :: nat
  tn_OutputLines :: nat
  tn_OutputBytes :: nat
  tn_LastLinePartial :: bool
  tn_FirstLineExceedsLimit :: bool
  tn_MaxLines :: int
  tn_MaxBytes :: int

record TruncationOptions =
  to_MaxLines :: int
  to_MaxBytes :: int

definition no_options :: TruncationOptions where
  "no_options = \<lparr>to_MaxLines = 0, to_MaxBytes = 0\<rparr>"

definition resolveLimits :: "TruncationOptions \<Rightarrow> int \<times> int" where
  "resolveLimits opts =
     ((if to_MaxLines opts = 0 then DefaultMaxLines else to_MaxLines opts),
      (if to_MaxBytes opts = 0 then DefaultMaxBytes else to_MaxBytes opts))"

definition splitLinesForCounting :: "string \<Rightarrow> string list" where
  "splitLinesForCounting content =
     (if content = [] then []
      else let lines = split_on newline content
           in if has_suffix content [newline] then butlast lines else lines)"

definition noTruncationResult :: "string \<Rightarrow> nat \<Rightarrow> nat \<Rightarrow> int \<Rightarrow> int \<Rightarrow> TruncationResult" where
  "noTruncationResult content totalLines totalBytes maxLines maxBytes =
     \<lparr>tn_Content = content, tn_Truncated = False, tn_TruncatedBy = [], tn_TotalLines = totalLines,
      tn_TotalBytes = totalBytes, tn_OutputLines = totalLines, tn_OutputBytes = totalBytes,
      tn_LastLinePartial = False, tn_FirstLineExceedsLimit = False, tn_MaxLines = maxLines, tn_MaxBytes = maxBytes\<rparr>"

text \<open>What joining one more line adds: the newline before it counts from the second line on.\<close>

definition line_cost :: "string list \<Rightarrow> string \<Rightarrow> nat" where
  "line_cost out line = length line + (if out = [] then 0 else 1)"

section \<open>Keeping the head\<close>

text \<open>
  The collecting loop. The loop's index is the number of lines collected so far, every iteration
  that goes on having appended one.
\<close>

fun head_loop :: "int \<Rightarrow> int \<Rightarrow> string list \<Rightarrow> string list \<Rightarrow> nat \<Rightarrow> string list \<times> nat \<times> string" where
  "head_loop maxLines maxBytes [] out count = (out, count, ''lines'')"
| "head_loop maxLines maxBytes (line # lines) out count =
     (if \<not> int (length out) < maxLines then (out, count, ''lines'')
      else if int (count + line_cost out line) > maxBytes then (out, count, ''bytes'')
      else head_loop maxLines maxBytes lines (out @ [line]) (count + line_cost out line))"

definition TruncateHead :: "string \<Rightarrow> TruncationOptions \<Rightarrow> TruncationResult option" where
  "TruncateHead content opts =
     (let (maxLines, maxBytes) = resolveLimits opts;
          totalBytes = length content;
          lines = splitLinesForCounting content;
          totalLines = length lines
      in if int totalLines \<le> maxLines \<and> int totalBytes \<le> maxBytes
         then Some (noTruncationResult content totalLines totalBytes maxLines maxBytes)
         else case lines of
           [] \<Rightarrow> None
         | first # _ \<Rightarrow>
             if int (length first) > maxBytes
             then Some \<lparr>tn_Content = [], tn_Truncated = True, tn_TruncatedBy = ''bytes'',
                        tn_TotalLines = totalLines, tn_TotalBytes = totalBytes, tn_OutputLines = 0,
                        tn_OutputBytes = 0, tn_LastLinePartial = False, tn_FirstLineExceedsLimit = True,
                        tn_MaxLines = maxLines, tn_MaxBytes = maxBytes\<rparr>
             else (let (out, count, why) = head_loop maxLines maxBytes lines [] 0;
                       why' = (if int (length out) \<ge> maxLines \<and> int count \<le> maxBytes then ''lines'' else why);
                       outputContent = strings_join out [newline]
                   in Some \<lparr>tn_Content = outputContent, tn_Truncated = True, tn_TruncatedBy = why',
                            tn_TotalLines = totalLines, tn_TotalBytes = totalBytes,
                            tn_OutputLines = length out, tn_OutputBytes = length outputContent,
                            tn_LastLinePartial = False, tn_FirstLineExceedsLimit = False,
                            tn_MaxLines = maxLines, tn_MaxBytes = maxBytes\<rparr>))"

section \<open>Keeping the tail\<close>

text \<open>The cut in the middle of a line skips the continuation bytes its start landed on.\<close>

definition truncateStringToBytesFromEnd :: "string \<Rightarrow> int \<Rightarrow> string" where
  "truncateStringToBytesFromEnd s maxBytes =
     (if maxBytes \<le> 0 then []
      else if int (length s) \<le> maxBytes then s
      else dropWhile is_cont (drop (length s - nat maxBytes) s))"

text \<open>
  The loop runs over the lines from the last to the first, so it is given the reversed lines; its
  result is the lines collected, also in reverse, the byte count, the limit that stopped it and
  whether the last line was cut.
\<close>

fun tail_loop :: "int \<Rightarrow> int \<Rightarrow> string list \<Rightarrow> string list \<Rightarrow> nat \<Rightarrow> string list \<times> nat \<times> string \<times> bool" where
  "tail_loop maxLines maxBytes [] rv count = (rv, count, ''lines'', False)"
| "tail_loop maxLines maxBytes (line # lines) rv count =
     (if \<not> int (length rv) < maxLines then (rv, count, ''lines'', False)
      else if int (count + line_cost rv line) > maxBytes
      then if rv = []
           then (let cut = truncateStringToBytesFromEnd line maxBytes in ([cut], length cut, ''bytes'', True))
           else (rv, count, ''bytes'', False)
      else tail_loop maxLines maxBytes lines (rv @ [line]) (count + line_cost rv line))"

definition TruncateTail :: "string \<Rightarrow> TruncationOptions \<Rightarrow> TruncationResult" where
  "TruncateTail content opts =
     (let (maxLines, maxBytes) = resolveLimits opts;
          totalBytes = length content;
          lines = splitLinesForCounting content;
          totalLines = length lines
      in if int totalLines \<le> maxLines \<and> int totalBytes \<le> maxBytes
         then noTruncationResult content totalLines totalBytes maxLines maxBytes
         else let (rv, count, why, partial) = tail_loop maxLines maxBytes (rev lines) [] 0;
                  why' = (if int (length rv) \<ge> maxLines \<and> int count \<le> maxBytes then ''lines'' else why);
                  outputContent = strings_join (rev rv) [newline]
              in \<lparr>tn_Content = outputContent, tn_Truncated = True, tn_TruncatedBy = why',
                  tn_TotalLines = totalLines, tn_TotalBytes = totalBytes, tn_OutputLines = length rv,
                  tn_OutputBytes = length outputContent, tn_LastLinePartial = partial,
                  tn_FirstLineExceedsLimit = False, tn_MaxLines = maxLines, tn_MaxBytes = maxBytes\<rparr>)"

section \<open>Sizes for people\<close>

text \<open>
  \<open>tenths n d\<close> is \<^verbatim>\<open>%.1f\<close> of the quotient: the division by a power of two is exact in a float64 up
  to 2^53 and \<^verbatim>\<open>strconv\<close> rounds its exact decimal value half to even.
\<close>

definition tenths :: "nat \<Rightarrow> nat \<Rightarrow> nat" where
  "tenths n d =
     (let q = 10 * n div d; r = 10 * n mod d
      in if 2 * r > d \<or> 2 * r = d \<and> odd q then q + 1 else q)"

definition one_decimal :: "nat \<Rightarrow> string" where
  "one_decimal t = itoa_nat (t div 10) @ ''.'' @ itoa_nat (t mod 10)"

definition FormatSize :: "int \<Rightarrow> string" where
  "FormatSize bytes =
     (if bytes < 1024 then itoa bytes @ ''B''
      else if bytes < 1024 * 1024 then one_decimal (tenths (nat bytes) 1024) @ ''KB''
      else one_decimal (tenths (nat bytes) (1024 * 1024)) @ ''MB'')"

section \<open>Cutting at a rune boundary\<close>

lemma second_byte_cont: "ok_second c d \<Longrightarrow> is_cont d"
  by (auto simp: ok_second_def is_cont_def second_lo_def second_hi_def split: if_splits)

text \<open>Inside a well-formed rune every byte but the first is a continuation byte.\<close>

lemma rune_bytes:
  assumes "valid_utf8 s" "s \<noteq> []" "decode_rune s = (r, n)"
  shows "\<not> is_cont (s ! 0)" "n \<le> 4" "0 < k \<Longrightarrow> k < n \<Longrightarrow> is_cont (s ! k)"
proof -
  note ok = valid_utf8_step(1) [OF assms]
  have *: "\<not> is_cont (s ! 0) \<and> n \<le> 4 \<and> (\<forall>k. 0 < k \<longrightarrow> k < n \<longrightarrow> is_cont (s ! k))"
    using assms(3,2) ok
  proof (cases rule: decode_rune_cases)
    case (one c t)
    then show ?thesis by (simp add: is_cont_def)
  next
    case (two c0 c1 t)
    then show ?thesis by (auto simp: is_cont_def less_2_cases_iff dest: second_byte_cont)
  next
    case (three c0 c1 c2 t)
    then show ?thesis
      by (auto simp: less_Suc_eq numeral_3_eq_3 dest: second_byte_cont) (simp add: is_cont_def)
  next
    case (four c0 c1 c2 c3 t)
    then have "\<not> is_cont c0" by (simp add: is_cont_def)
    moreover have "is_cont (s ! k)" if "0 < k" "k < n" for k
    proof -
      have "k = 1 \<or> k = 2 \<or> k = 3" using that four(7) by arith
      then show ?thesis using four(1,4-6) by (auto dest: second_byte_cont)
    qed
    ultimately show ?thesis using four(1,7) by simp
  qed
  then show "\<not> is_cont (s ! 0)" "n \<le> 4" "0 < k \<Longrightarrow> k < n \<Longrightarrow> is_cont (s ! k)" by blast+
qed

lemma valid_utf8_drop:
  assumes "valid_utf8 s" "k = length s \<or> k < length s \<and> \<not> is_cont (s ! k)"
  shows "valid_utf8 (drop k s)"
  using assms
proof (induction "length s" arbitrary: s k rule: less_induct)
  case less
  show ?case
  proof (cases "s = [] \<or> k = 0")
    case True
    then show ?thesis using less.prems by auto
  next
    case False
    then have ne: "s \<noteq> []" "0 < k" by simp_all
    obtain r n where d: "decode_rune s = (r, n)" by fastforce
    note st = valid_utf8_step [OF less.prems(1) ne(1) d]
    have "n \<le> k"
      using rune_bytes(3) [OF less.prems(1) ne(1) d ne(2)] less.prems(2) st(5) by linarith
    moreover have "valid_utf8 (drop (k - n) (drop n s))"
      using less.prems(2) st(2,4,5) ne \<open>n \<le> k\<close> by (intro less.hyps [of "drop n s" "k - n"]) auto
    ultimately show ?thesis using \<open>n \<le> k\<close> by simp
  qed
qed

lemma valid_utf8_boundary:
  assumes "valid_utf8 s" "s \<noteq> []"
  shows "\<exists>i < length s. length s \<le> i + 4 \<and> \<not> is_cont (s ! i)"
  using assms
proof (induction "length s" arbitrary: s rule: less_induct)
  case less
  obtain r n where d: "decode_rune s = (r, n)" by fastforce
  note st = valid_utf8_step [OF less.prems d] and rb = rune_bytes [OF less.prems d]
  show ?case
  proof (cases "drop n s = []")
    case True
    then show ?thesis using rb(1,2) less.prems(2) by (intro exI [of _ 0]) auto
  next
    case False
    then obtain i where "i < length (drop n s)" "length (drop n s) \<le> i + 4" "\<not> is_cont (drop n s ! i)"
      using less.hyps [of "drop n s"] st less.prems(2) by fastforce
    then show ?thesis by (intro exI [of _ "n + i"]) auto
  qed
qed

text \<open>The result is a suffix within the limit that starts on a rune boundary, and no longer one does.\<close>

lemma drop_dropWhile:
  "\<exists>k. dropWhile P s = drop k s \<and> k \<le> length s \<and> (k = length s \<or> \<not> P (s ! k)) \<and> (\<forall>j < k. P (s ! j))"
proof -
  let ?k = "length (takeWhile P s)"
  have "dropWhile P s = drop ?k s" by (rule dropWhile_eq_drop)
  moreover have "?k = length s \<or> \<not> P (s ! ?k)"
    using nth_length_takeWhile [of P s] length_takeWhile_le [of P s] le_less by blast
  moreover have "\<forall>j < ?k. P (s ! j)"
    by (metis nth_mem set_takeWhileD takeWhile_nth)
  ultimately show ?thesis using length_takeWhile_le [of P s] by blast
qed

lemma cut_cases:
  assumes "0 < m"
  obtains (all) "int (length s) \<le> m" "truncateStringToBytesFromEnd s m = s"
  | (cut) k where "m < int (length s)" "truncateStringToBytesFromEnd s m = drop k s"
      "length s - nat m \<le> k" "k \<le> length s" "k = length s \<or> \<not> is_cont (s ! k)"
      "\<forall>j. length s - nat m \<le> j \<longrightarrow> j < k \<longrightarrow> is_cont (s ! j)"
proof (cases "int (length s) \<le> m")
  case True
  then show ?thesis using all assms by (simp add: truncateStringToBytesFromEnd_def)
next
  case False
  let ?p = "length s - nat m" and ?s = "drop (length s - nat m) s"
  obtain k where k: "dropWhile is_cont ?s = drop k ?s" "k \<le> length ?s" "k = length ?s \<or> \<not> is_cont (?s ! k)"
    "\<forall>j < k. is_cont (?s ! j)"
    using drop_dropWhile [of is_cont ?s] by blast
  have "truncateStringToBytesFromEnd s m = drop (k + ?p) s"
    using False assms k(1) by (simp add: truncateStringToBytesFromEnd_def)
  moreover have "\<forall>j. ?p \<le> j \<longrightarrow> j < k + ?p \<longrightarrow> is_cont (s ! j)"
  proof (intro allI impI)
    fix j assume j: "?p \<le> j" "j < k + ?p"
    then have "is_cont (?s ! (j - ?p))" using k(4) by (simp del: nth_drop)
    then show "is_cont (s ! j)" using j by simp
  qed
  ultimately show ?thesis using False k(2,3) by (intro cut [of "k + ?p"]) (auto simp: add.commute)
qed

lemma cut_suffix: "\<exists>k \<le> length s. truncateStringToBytesFromEnd s m = drop k s"
proof (cases "0 < m")
  case True
  then show ?thesis by (cases rule: cut_cases [of m s]) (auto intro: exI [of _ 0])
qed (auto simp: truncateStringToBytesFromEnd_def)

lemma cut_length: "int (length (truncateStringToBytesFromEnd s m)) \<le> max 0 m"
proof (cases "0 < m")
  case True
  then show ?thesis by (cases rule: cut_cases [of m s]) auto
qed (auto simp: truncateStringToBytesFromEnd_def)

lemma cut_valid: "valid_utf8 s \<Longrightarrow> valid_utf8 (truncateStringToBytesFromEnd s m)"
proof (cases "0 < m")
  case True
  then show "valid_utf8 s \<Longrightarrow> ?thesis"
    by (cases rule: cut_cases [of m s]) (auto intro: valid_utf8_drop simp: le_less)
qed (auto simp: truncateStringToBytesFromEnd_def)

lemma cut_longest:
  assumes "k \<le> length s" "int (length s - k) \<le> m" "k = 0 \<or> k = length s \<or> \<not> is_cont (s ! k)"
  shows "\<exists>t. truncateStringToBytesFromEnd s m = t @ drop k s"
proof (cases "0 < m")
  case True
  then show ?thesis
  proof (cases rule: cut_cases [of m s])
    case all
    then show ?thesis by (metis append_take_drop_id)
  next
    case (cut k')
    then have "k' \<le> k"
      using assms by (cases "k < k'") (auto simp: le_less)
    then have "drop k' s = take (k - k') (drop k' s) @ drop k s"
      by (metis append_take_drop_id drop_drop le_add_diff_inverse2)
    then show ?thesis using cut(2) by metis
  qed
next
  case False
  then show ?thesis using assms by (simp add: truncateStringToBytesFromEnd_def)
qed

text \<open>On well-formed text a cut to at least four bytes leaves something to continue from.\<close>

lemma cut_not_Nil:
  assumes "valid_utf8 s" "s \<noteq> []" "4 \<le> m"
  shows "truncateStringToBytesFromEnd s m \<noteq> []"
proof -
  obtain i where "i < length s" "length s \<le> i + 4" "\<not> is_cont (s ! i)"
    using valid_utf8_boundary [OF assms(1,2)] by blast
  then obtain t where "truncateStringToBytesFromEnd s m = t @ drop i s"
    using cut_longest [of i s m] assms(3) by auto
  then show ?thesis using \<open>i < length s\<close> by simp
qed

text \<open>Cutting as the text arrives is cutting it once at the end.\<close>

lemma cut_append:
  assumes "valid_utf8 s" "4 \<le> m"
  shows "truncateStringToBytesFromEnd (truncateStringToBytesFromEnd s m @ t) m
       = truncateStringToBytesFromEnd (s @ t) m"
proof -
  from assms(2) have "0 < m" by simp
  then show ?thesis
  proof (cases rule: cut_cases [of m s])
    case all
    then show ?thesis by simp
  next
    case (cut k)
    have ne: "k < length s"
      using cut \<open>0 < m\<close> cut_not_Nil [OF assms(1) _ assms(2)] by (cases "s = []"; cases "k = length s") auto
    have noncont: "\<not> is_cont (s ! k)" using cut(5) ne by simp
    have inner: "is_cont (s ! j)" if "length s - nat m \<le> j" "j < k" for j using cut(6) that by blast
    have st: "drop k (s @ t) = truncateStringToBytesFromEnd s m @ t"
      using cut ne by simp
    from \<open>0 < m\<close> show ?thesis
    proof (cases rule: cut_cases [of m "s @ t"])
      case all
      then show ?thesis using cut(1) by simp
    next
      case (cut k')
      note c' = this
      have eq: "drop k' (s @ t) = truncateStringToBytesFromEnd (s @ t) m" using c' by simp
      show ?thesis
      proof (cases "int (length (drop k (s @ t))) \<le> m")
        case True
        have "length (s @ t) - nat m \<le> k" using True by auto
        have "\<not> k < k'"
          using c'(6) \<open>length (s @ t) - nat m \<le> k\<close> noncont ne by (auto simp: nth_append)
        moreover have "\<not> k' < k"
        proof
          assume lt: "k' < k"
          then have "is_cont (s ! k')" using c'(3) inner by simp
          then show False using c'(4,5) lt ne by (auto simp: nth_append)
        qed
        ultimately have "k' = k" by simp
        have "truncateStringToBytesFromEnd (drop k (s @ t)) m = drop k (s @ t)"
          using True \<open>0 < m\<close> by (simp only: truncateStringToBytesFromEnd_def) simp
        then show ?thesis using eq \<open>k' = k\<close> st by metis
      next
        case False
        then have p: "k \<le> length (s @ t) - nat m" using ne by (cases m) auto
        have "drop (length (drop k (s @ t)) - nat m) (drop k (s @ t)) = drop (length (s @ t) - nat m) (s @ t)"
        proof -
          have "length (drop k (s @ t)) - nat m + k = length (s @ t) - nat m" using p False ne by auto
          then show ?thesis by (simp only: drop_drop)
        qed
        then have "truncateStringToBytesFromEnd (drop k (s @ t)) m = truncateStringToBytesFromEnd (s @ t) m"
          using False c'(1) \<open>0 < m\<close> by (simp only: truncateStringToBytesFromEnd_def if_False not_le) simp
        then show ?thesis using st by simp
      qed
    qed
  qed
qed

section \<open>What the head keeps\<close>

abbreviation joined :: "string list \<Rightarrow> string" where
  "joined lines \<equiv> strings_join lines [newline]"

lemma length_joined_snoc: "length (joined (out @ [line])) = length (joined out) + line_cost out line"
  by (cases "out = []") (simp_all add: strings_join_append line_cost_def)

lemma length_joined_cons: "length (joined (line # out)) = length (joined out) + line_cost out line"
  by (cases out) (simp_all add: line_cost_def)

text \<open>The lines of a text and, where it ends in one, the last newline.\<close>

lemma has_suffix_newline: "has_suffix s [c] \<longleftrightarrow> s \<noteq> [] \<and> last s = c"
  by (cases s rule: rev_cases) (auto simp: has_suffix_def)

lemma split_on_snoc: "split_on c (s @ [c]) = split_on c s @ [[]]"
  by (induction s) (auto split: list.splits)

lemma split_lines_joined:
  "content = joined (splitLinesForCounting content) @ (if has_suffix content [newline] then [newline] else [])"
proof (cases "has_suffix content [newline]")
  case True
  then have "content = butlast content @ [newline]"
    by (metis append_butlast_last_id has_suffix_newline)
  moreover have "splitLinesForCounting (butlast content @ [newline]) = split_on newline (butlast content)"
    by (simp add: splitLinesForCounting_def split_on_snoc has_suffix_newline)
  ultimately show ?thesis using True by (metis join_split_on)
next
  case False
  then show ?thesis by (simp add: splitLinesForCounting_def join_split_on)
qed

lemma head_loop_spec:
  assumes "head_loop maxLines maxBytes lines out count = (out', count', why)"
    "count = length (joined out)" "int (length out) \<le> maxLines" "int count \<le> maxBytes"
  shows "\<exists>k \<le> length lines. out' = out @ take k lines \<and> count' = length (joined out') \<and>
           int (length out') \<le> maxLines \<and> int count' \<le> maxBytes \<and>
           (k = length lines \<or> int (length out') = maxLines \<or>
             int (length (joined (out' @ [lines ! k]))) > maxBytes)"
  using assms
proof (induction lines arbitrary: out count)
  case (Cons line lines)
  consider "\<not> int (length out) < maxLines"
    | "int (length out) < maxLines" "int (count + line_cost out line) > maxBytes"
    | "int (length out) < maxLines" "int (count + line_cost out line) \<le> maxBytes" by linarith
  then show ?case
  proof cases
    case 3
    have "\<exists>k \<le> length lines. out' = (out @ [line]) @ take k lines \<and> count' = length (joined out') \<and>
        int (length out') \<le> maxLines \<and> int count' \<le> maxBytes \<and>
        (k = length lines \<or> int (length out') = maxLines \<or> int (length (joined (out' @ [lines ! k]))) > maxBytes)"
      by (rule Cons.IH) (use 3 Cons.prems in \<open>auto simp: length_joined_snoc\<close>)
    then obtain k where "k \<le> length lines" "out' = (out @ [line]) @ take k lines" "count' = length (joined out')"
      "int (length out') \<le> maxLines" "int count' \<le> maxBytes"
      "k = length lines \<or> int (length out') = maxLines \<or> int (length (joined (out' @ [lines ! k]))) > maxBytes"
      by blast
    then show ?thesis by (intro exI [of _ "Suc k"]) simp
  qed (use Cons.prems in \<open>auto intro!: exI [of _ 0] simp: length_joined_snoc\<close>)
qed auto

text \<open>The lines kept are described by their number: as many as both limits allow.\<close>

definition fits :: "string list \<Rightarrow> int \<Rightarrow> int \<Rightarrow> nat \<Rightarrow> bool" where
  "fits lines maxLines maxBytes k \<longleftrightarrow>
     k \<le> length lines \<and> int k \<le> maxLines \<and> int (length (joined (take k lines))) \<le> maxBytes"

definition most_that_fit :: "string list \<Rightarrow> int \<Rightarrow> int \<Rightarrow> nat \<Rightarrow> bool" where
  "most_that_fit lines maxLines maxBytes k \<longleftrightarrow>
     fits lines maxLines maxBytes k \<and> \<not> fits lines maxLines maxBytes (Suc k)"

lemma head_loop_most:
  assumes "head_loop maxLines maxBytes lines [] 0 = (out, count, why)" "0 \<le> maxLines" "0 \<le> maxBytes"
  shows "out = take (length out) lines \<and> count = length (joined out) \<and>
     most_that_fit lines maxLines maxBytes (length out)"
proof -
  obtain k where k: "k \<le> length lines" "out = take k lines" "count = length (joined out)"
      "int (length out) \<le> maxLines" "int count \<le> maxBytes"
      "k = length lines \<or> int (length out) = maxLines \<or> int (length (joined (out @ [lines ! k]))) > maxBytes"
    using head_loop_spec [OF assms(1)] assms(2,3) unfolding append_Nil by fastforce
  then have "length out = k" by simp
  with k show ?thesis
    by (auto simp: most_that_fit_def fits_def take_Suc_conv_app_nth)
qed

text \<open>
  C31
  With limits that are not negative, \<^verbatim>\<open>TruncateHead\<close> returns, and truthfully: the totals are those of the text; it is truncated exactly
  when it exceeds a limit; what is kept then is the longest run of first lines that fits both limits, joined by
  newlines; and a first line too long on its own is reported as such.
\<close>

theorem truncate_head_spec:
  assumes "0 \<le> to_MaxLines opts" "0 \<le> to_MaxBytes opts"
  shows "\<exists>r. TruncateHead content opts = Some r \<and>
    (let (maxLines, maxBytes) = resolveLimits opts; lines = splitLinesForCounting content
     in tn_TotalLines r = length lines \<and> tn_TotalBytes r = length content \<and>
        tn_OutputBytes r = length (tn_Content r) \<and>
        tn_Truncated r = (\<not> (int (length lines) \<le> maxLines \<and> int (length content) \<le> maxBytes)) \<and>
        (if tn_Truncated r
         then tn_Content r = joined (take (tn_OutputLines r) lines) \<and>
              most_that_fit lines maxLines maxBytes (tn_OutputLines r) \<and>
              tn_FirstLineExceedsLimit r = (int (length (hd lines)) > maxBytes)
         else tn_Content r = content \<and> tn_OutputLines r = length lines))"
proof -
  obtain maxLines maxBytes where lim: "resolveLimits opts = (maxLines, maxBytes)" by fastforce
  then have pos: "0 < maxLines" "0 < maxBytes"
    using assms by (auto simp: resolveLimits_def DefaultMaxLines_def DefaultMaxBytes_def split: if_splits)
  let ?lines = "splitLinesForCounting content"
  show ?thesis
  proof (cases "int (length ?lines) \<le> maxLines \<and> int (length content) \<le> maxBytes")
    case True
    then show ?thesis by (simp add: TruncateHead_def lim noTruncationResult_def Let_def)
  next
    case False
    have "?lines \<noteq> []"
      using False pos split_lines_joined [of content] by (auto split: if_splits)
    then obtain first rest where lines: "?lines = first # rest" by (cases ?lines) auto
    show ?thesis
    proof (cases "int (length first) > maxBytes")
      case True
      with False show ?thesis
        using pos by (auto simp: TruncateHead_def lim lines most_that_fit_def fits_def Let_def)
    next
      case small: False
      obtain out count why where h: "head_loop maxLines maxBytes ?lines [] 0 = (out, count, why)"
        by (cases "head_loop maxLines maxBytes ?lines [] 0") auto
      note m = head_loop_most [OF h]
      have "TruncateHead content opts =
          Some \<lparr>tn_Content = joined out, tn_Truncated = True,
            tn_TruncatedBy = (if int (length out) \<ge> maxLines \<and> int count \<le> maxBytes then ''lines'' else why),
            tn_TotalLines = length ?lines, tn_TotalBytes = length content, tn_OutputLines = length out,
            tn_OutputBytes = length (joined out), tn_LastLinePartial = False, tn_FirstLineExceedsLimit = False,
            tn_MaxLines = maxLines, tn_MaxBytes = maxBytes\<rparr>"
        using small h unfolding TruncateHead_def lim Let_def prod.case if_not_P [OF False]
        by (simp add: lines del: head_loop.simps)
      then show ?thesis
        using False small m pos by (auto simp: lim lines Let_def)
    qed
  qed
qed

text \<open>The number of lines kept is thereby fixed: no larger number of them fits.\<close>

lemma length_joined_take_mono: "j \<le> k \<Longrightarrow> length (joined (take j lines)) \<le> length (joined (take k lines))"
proof (induction k)
  case (Suc k)
  have "length (joined (take k lines)) \<le> length (joined (take (Suc k) lines))"
    by (cases "k < length lines") (simp_all add: take_Suc_conv_app_nth length_joined_snoc)
  then show ?case using Suc by (cases "j = Suc k") auto
qed simp

lemma most_that_fit_greatest:
  "most_that_fit lines maxLines maxBytes k \<Longrightarrow> fits lines maxLines maxBytes j \<Longrightarrow> j \<le> k"
  by (rule ccontr) (use length_joined_take_mono [of "Suc k" j lines] in
    \<open>auto simp: most_that_fit_def fits_def not_le Suc_le_eq\<close>)

section \<open>What the tail keeps\<close>

definition last_fits :: "string list \<Rightarrow> int \<Rightarrow> int \<Rightarrow> nat \<Rightarrow> bool" where
  "last_fits lines maxLines maxBytes k \<longleftrightarrow>
     k \<le> length lines \<and> int k \<le> maxLines \<and>
     int (length (joined (drop (length lines - k) lines))) \<le> maxBytes"

definition most_of_the_last :: "string list \<Rightarrow> int \<Rightarrow> int \<Rightarrow> nat \<Rightarrow> bool" where
  "most_of_the_last lines maxLines maxBytes k \<longleftrightarrow>
     last_fits lines maxLines maxBytes k \<and> \<not> last_fits lines maxLines maxBytes (Suc k)"

lemma length_joined_rev: "length (joined (rev xs)) = length (joined xs)"
proof (cases "xs = []")
  case False
  then show ?thesis by (simp add: length_strings_join rev_map [symmetric])
qed simp

lemma line_cost_not_Nil: "out \<noteq> [] \<Longrightarrow> line_cost out line = line_cost (rev out) line"
  by (simp add: line_cost_def)

lemma tail_loop_spec:
  assumes "tail_loop maxLines maxBytes lines rv count = (rv', count', why, partial)"
    "count = length (joined rv)" "int (length rv) \<le> maxLines" "int count \<le> maxBytes"
  shows "(partial \<longrightarrow> rv = [] \<and> lines \<noteq> [] \<and> int (length (hd lines)) > maxBytes \<and>
             rv' = [truncateStringToBytesFromEnd (hd lines) maxBytes]) \<and>
         (\<not> partial \<longrightarrow> (\<exists>k \<le> length lines. rv' = rv @ take k lines \<and> int (length rv') \<le> maxLines \<and>
             int (length (joined rv')) \<le> maxBytes \<and>
             (k = length lines \<or> int (length rv') = maxLines \<or>
               int (length (joined (rv' @ [lines ! k]))) > maxBytes)))"
  using assms
proof (induction lines arbitrary: rv count)
  case (Cons line lines)
  consider "\<not> int (length rv) < maxLines"
    | "int (length rv) < maxLines" "int (count + line_cost rv line) > maxBytes"
    | "int (length rv) < maxLines" "int (count + line_cost rv line) \<le> maxBytes" by linarith
  then show ?case
  proof cases
    case 3
    have "(partial \<longrightarrow> rv @ [line] = [] \<and> lines \<noteq> [] \<and> int (length (hd lines)) > maxBytes \<and>
             rv' = [truncateStringToBytesFromEnd (hd lines) maxBytes]) \<and>
         (\<not> partial \<longrightarrow> (\<exists>k \<le> length lines. rv' = (rv @ [line]) @ take k lines \<and> int (length rv') \<le> maxLines \<and>
             int (length (joined rv')) \<le> maxBytes \<and>
             (k = length lines \<or> int (length rv') = maxLines \<or>
               int (length (joined (rv' @ [lines ! k]))) > maxBytes)))"
      by (rule Cons.IH) (use 3 Cons.prems in \<open>auto simp: length_joined_snoc\<close>)
    then have np: "\<not> partial" by blast
    with \<open>_ \<and> _\<close> obtain k where "k \<le> length lines" "rv' = (rv @ [line]) @ take k lines"
      "int (length rv') \<le> maxLines" "int (length (joined rv')) \<le> maxBytes"
      "k = length lines \<or> int (length rv') = maxLines \<or> int (length (joined (rv' @ [lines ! k]))) > maxBytes"
      by blast
    then show ?thesis using np by (auto intro!: exI [of _ "Suc k"])
  next
    case 2
    then show ?thesis
      using Cons.prems by (cases "rv = []") (auto simp: Let_def line_cost_def length_joined_snoc)
  qed (use Cons.prems in \<open>auto intro!: exI [of _ 0]\<close>)
qed auto

lemma tail_loop_most:
  assumes "tail_loop maxLines maxBytes (rev lines) [] 0 = (rv, count, why, partial)" "0 \<le> maxLines" "0 \<le> maxBytes"
  shows "partial \<Longrightarrow> lines \<noteq> [] \<and> int (length (last lines)) > maxBytes \<and>
           rv = [truncateStringToBytesFromEnd (last lines) maxBytes]"
    "\<not> partial \<Longrightarrow> rev rv = drop (length lines - length rv) lines \<and>
           most_of_the_last lines maxLines maxBytes (length rv)"
proof -
  note spec = tail_loop_spec [OF assms(1)]
  show "partial \<Longrightarrow> lines \<noteq> [] \<and> int (length (last lines)) > maxBytes \<and>
           rv = [truncateStringToBytesFromEnd (last lines) maxBytes]"
    using spec assms(2,3) by (simp add: hd_rev)
  assume "\<not> partial"
  then have "\<exists>k \<le> length lines. rv = take k (rev lines) \<and> int (length rv) \<le> maxLines \<and>
      int (length (joined rv)) \<le> maxBytes \<and>
      (k = length lines \<or> int (length rv) = maxLines \<or> int (length (joined (rv @ [rev lines ! k]))) > maxBytes)"
    using spec assms(2,3) by simp
  then obtain k where k: "k \<le> length lines" "rv = take k (rev lines)" "int (length rv) \<le> maxLines"
      "int (length (joined rv)) \<le> maxBytes"
      "k = length lines \<or> int (length rv) = maxLines \<or> int (length (joined (rv @ [rev lines ! k]))) > maxBytes"
    by blast
  have len: "length rv = k" using k by simp
  have takes: "rev (take j (rev lines)) = drop (length lines - j) lines" for j
    by (simp add: take_rev)
  have joins: "length (joined (drop (length lines - j) lines)) = length (joined (take j (rev lines)))" for j
    by (metis takes length_joined_rev)
  show "rev rv = drop (length lines - length rv) lines \<and> most_of_the_last lines maxLines maxBytes (length rv)"
    using k unfolding len most_of_the_last_def last_fits_def joins
    by (auto simp: takes take_Suc_conv_app_nth)
qed

text \<open>
  C35
  With limits that are not negative, what \<^verbatim>\<open>TruncateTail\<close> keeps of a text that exceeds one is the longest run of last lines that fits
  both; when not even the last line fits, it is the end of that line, cut at the start of a character, and flagged as
  partial. The totals are those of the text.
\<close>

theorem truncate_tail_spec:
  assumes "0 \<le> to_MaxLines opts" "0 \<le> to_MaxBytes opts"
  shows "let r = TruncateTail content opts; (maxLines, maxBytes) = resolveLimits opts;
             lines = splitLinesForCounting content
         in tn_TotalLines r = length lines \<and> tn_TotalBytes r = length content \<and>
            tn_OutputBytes r = length (tn_Content r) \<and>
            tn_Truncated r = (\<not> (int (length lines) \<le> maxLines \<and> int (length content) \<le> maxBytes)) \<and>
            (if \<not> tn_Truncated r then tn_Content r = content
             else if tn_LastLinePartial r
             then int (length (last lines)) > maxBytes \<and> tn_OutputLines r = 1 \<and>
                  tn_Content r = truncateStringToBytesFromEnd (last lines) maxBytes
             else 0 < tn_OutputLines r \<and>
                  tn_Content r = joined (drop (length lines - tn_OutputLines r) lines) \<and>
                  most_of_the_last lines maxLines maxBytes (tn_OutputLines r))"
proof -
  obtain maxLines maxBytes where lim: "resolveLimits opts = (maxLines, maxBytes)" by fastforce
  then have pos: "0 < maxLines" "0 < maxBytes"
    using assms by (auto simp: resolveLimits_def DefaultMaxLines_def DefaultMaxBytes_def split: if_splits)
  let ?lines = "splitLinesForCounting content"
  show ?thesis
  proof (cases "int (length ?lines) \<le> maxLines \<and> int (length content) \<le> maxBytes")
    case True
    then show ?thesis by (simp add: TruncateTail_def lim noTruncationResult_def Let_def)
  next
    case False
    have "?lines \<noteq> []"
      using False pos split_lines_joined [of content] by (auto split: if_splits)
    obtain rv count why partial where t: "tail_loop maxLines maxBytes (rev ?lines) [] 0 = (rv, count, why, partial)"
      by (cases "tail_loop maxLines maxBytes (rev ?lines) [] 0") auto
    note m = tail_loop_most [OF t]
    have some: "rv \<noteq> []"
    proof (cases partial)
      case False
      then show ?thesis using t pos \<open>?lines \<noteq> []\<close>
        by (cases "rev ?lines") (auto simp: Let_def line_cost_def split: if_splits dest!: tail_loop_spec)
    qed (use m pos in simp)
    have r: "TruncateTail content opts =
        \<lparr>tn_Content = joined (rev rv), tn_Truncated = True,
          tn_TruncatedBy = (if int (length rv) \<ge> maxLines \<and> int count \<le> maxBytes then ''lines'' else why),
          tn_TotalLines = length ?lines, tn_TotalBytes = length content, tn_OutputLines = length rv,
          tn_OutputBytes = length (joined (rev rv)), tn_LastLinePartial = partial,
          tn_FirstLineExceedsLimit = False, tn_MaxLines = maxLines, tn_MaxBytes = maxBytes\<rparr>"
      using t unfolding TruncateTail_def lim Let_def prod.case if_not_P [OF False] by simp
    show ?thesis
    proof (cases partial)
      case True
      then show ?thesis using m(1) False pos by (auto simp: r lim Let_def)
    next
      case np: False
      then show ?thesis using m(2) False pos some by (auto simp: r lim Let_def)
    qed
  qed
qed

section \<open>Boundary cases and witnesses\<close>

text \<open>
  A text over the byte limit by its final newline alone is reported as cut by the line limit, with
  every line of it in the output.
\<close>

lemma newline_reported_as_lines:
  "TruncateHead (''ab'' @ [newline]) \<lparr>to_MaxLines = 5, to_MaxBytes = 2\<rparr> =
     Some \<lparr>tn_Content = ''ab'', tn_Truncated = True, tn_TruncatedBy = ''lines'', tn_TotalLines = 1, tn_TotalBytes = 3,
       tn_OutputLines = 1, tn_OutputBytes = 2, tn_LastLinePartial = False, tn_FirstLineExceedsLimit = False,
       tn_MaxLines = 5, tn_MaxBytes = 2\<rparr>"
  by (simp add: TruncateHead_def resolveLimits_def splitLinesForCounting_def has_suffix_def line_cost_def)

text \<open>A negative limit makes the first-line test index an empty slice when there is no text.\<close>

lemma negative_limit_panics: "to_MaxLines opts < 0 \<or> to_MaxBytes opts < 0 \<Longrightarrow> TruncateHead [] opts = None"
  by (auto simp: TruncateHead_def resolveLimits_def splitLinesForCounting_def)

definition demo_text :: string where
  "demo_text = ''one'' @ newline # ''two'' @ newline # ''three''"

lemma demo_text_lines: "splitLinesForCounting demo_text = [''one'', ''two'', ''three'']"
  by (simp add: demo_text_def splitLinesForCounting_def has_suffix_def)

lemma truncate_head_spec_witness:
  "\<exists>r. TruncateHead demo_text \<lparr>to_MaxLines = 2, to_MaxBytes = 0\<rparr> = Some r \<and> tn_Truncated r \<and>
     most_that_fit [''one'', ''two'', ''three''] 2 DefaultMaxBytes (tn_OutputLines r)"
  using truncate_head_spec [of "\<lparr>to_MaxLines = 2, to_MaxBytes = 0\<rparr>" demo_text]
  by (auto simp: demo_text_lines resolveLimits_def Let_def)

lemma truncate_tail_spec_witness:
  "tn_Truncated (TruncateTail demo_text \<lparr>to_MaxLines = 0, to_MaxBytes = 7\<rparr>) \<and>
   0 < tn_OutputLines (TruncateTail demo_text \<lparr>to_MaxLines = 0, to_MaxBytes = 7\<rparr>)"
  using truncate_tail_spec [of "\<lparr>to_MaxLines = 0, to_MaxBytes = 7\<rparr>" demo_text]
  by (auto simp: demo_text_lines resolveLimits_def Let_def DefaultMaxLines_def demo_text_def split: if_splits)

end
