(* ===== verification/Line_Diff.thy ===== *)
theory Line_Diff
  imports Go_Prelude
begin

text \<open>
  The line diff of tools/editdiff.go: \<open>tokenizeLines\<close>, the shortest-edit-script search
  \<open>computeLineDiff\<close> and \<open>buildDiffValues\<close>. Positions in the token slices start at -1, as in the code,
  so they are \<^typ>\<open>int\<close>. A pointer to a path component is the list of the components from it back along
  \<^verbatim>\<open>previous\<close>: the code never changes a component it has linked. The panic at the end of the search
  is \<open>None\<close>; that it is never reached is a theorem below.
\<close>

section \<open>Tokens\<close>

abbreviation carriage :: char where
  "carriage \<equiv> CHR 0x0D"

text \<open>\<open>seg\<close> is \<^verbatim>\<open>value[start:i]\<close>, what has been read since the last separator.\<close>

fun split_newlines :: "string \<Rightarrow> string \<Rightarrow> string list" where
  "split_newlines seg [] = [seg]"
| "split_newlines seg (c # s) =
     (if c \<noteq> newline then split_newlines (seg @ [c]) s
      else if seg \<noteq> [] \<and> last seg = carriage
           then butlast seg # [carriage, newline] # split_newlines [] s
           else seg # [newline] # split_newlines [] s)"

definition splitOnNewlines :: "string \<Rightarrow> string list" where
  "splitOnNewlines value = split_newlines [] value"

text \<open>A part at an odd index is a separator and goes to the end of the line before it.\<close>

fun merge_parts :: "string list \<Rightarrow> string list" where
  "merge_parts [] = []"
| "merge_parts [p] = [p]"
| "merge_parts (p # q # ps) = (p @ q) # merge_parts ps"

definition tokenizeLines :: "string \<Rightarrow> string list" where
  "tokenizeLines value =
     (let parts = splitOnNewlines value
      in merge_parts (if parts \<noteq> [] \<and> last parts = [] then butlast parts else parts))"

section \<open>Paths\<close>

record diffComponent =
  dc_value :: string
  dc_added :: bool
  dc_removed :: bool

record diffPathComponent =
  pc_count :: nat
  pc_added :: bool
  pc_removed :: bool

record diffPathNode =
  pn_oldPos :: int
  pn_last :: "diffPathComponent list"

text \<open>How many tokens agree from a pair of positions on: the loop of \<open>extractCommon\<close>.\<close>

function common_run :: "string list \<Rightarrow> string list \<Rightarrow> int \<Rightarrow> int \<Rightarrow> nat" where
  "common_run old new oldPos newPos =
     (if newPos + 1 < int (length new) \<and> oldPos + 1 < int (length old) \<and>
         old ! nat (oldPos + 1) = new ! nat (newPos + 1)
      then Suc (common_run old new (oldPos + 1) (newPos + 1)) else 0)"
  by pat_completeness auto
termination by (relation "measure (\<lambda>(old, new, oldPos, newPos). nat (int (length new) - newPos))") auto

declare common_run.simps [simp del]

text \<open>The node with the run appended, and the new position reached.\<close>

definition extractCommon :: "string list \<Rightarrow> string list \<Rightarrow> diffPathNode \<Rightarrow> int \<Rightarrow> diffPathNode \<times> int" where
  "extractCommon old new basePath diagonalPath =
     (let oldPos = pn_oldPos basePath; newPos = oldPos - diagonalPath;
          commonCount = common_run old new oldPos newPos
      in (\<lparr>pn_oldPos = oldPos + int commonCount,
           pn_last = (if commonCount > 0
             then \<lparr>pc_count = commonCount, pc_added = False, pc_removed = False\<rparr> # pn_last basePath
             else pn_last basePath)\<rparr>,
          newPos + int commonCount))"

definition addToPath :: "diffPathNode \<Rightarrow> bool \<Rightarrow> bool \<Rightarrow> int \<Rightarrow> diffPathNode" where
  "addToPath path added removed oldPosInc =
     \<lparr>pn_oldPos = pn_oldPos path + oldPosInc,
      pn_last = (case pn_last path of
         c # previous \<Rightarrow>
           if pc_added c = added \<and> pc_removed c = removed
           then \<lparr>pc_count = pc_count c + 1, pc_added = added, pc_removed = removed\<rparr> # previous
           else \<lparr>pc_count = 1, pc_added = added, pc_removed = removed\<rparr> # c # previous
       | [] \<Rightarrow> [\<lparr>pc_count = 1, pc_added = added, pc_removed = removed\<rparr>])\<rparr>"

section \<open>The search\<close>

text \<open>
  \<open>choose_path\<close> picks, for one diagonal, the better of the two neighbouring paths and extends it by an
  addition or a removal; \<open>None\<close> when neither can be extended.
\<close>

type_synonym paths = "int \<Rightarrow> diffPathNode option"

definition can_add :: "string list \<Rightarrow> paths \<Rightarrow> int \<Rightarrow> bool" where
  "can_add new bestPath diagonalPath =
     (case bestPath (diagonalPath + 1) of
        None \<Rightarrow> False
      | Some addPath \<Rightarrow>
          (let addPathNewPos = pn_oldPos addPath - diagonalPath
           in addPathNewPos \<ge> 0 \<and> addPathNewPos < int (length new)))"

definition can_remove :: "string list \<Rightarrow> paths \<Rightarrow> int \<Rightarrow> bool" where
  "can_remove old bestPath diagonalPath =
     (case bestPath (diagonalPath - 1) of
        None \<Rightarrow> False
      | Some removePath \<Rightarrow> pn_oldPos removePath + 1 < int (length old))"

definition choose_path :: "string list \<Rightarrow> string list \<Rightarrow> paths \<Rightarrow> int \<Rightarrow> diffPathNode option" where
  "choose_path old new bestPath diagonalPath =
     (let removePath = the (bestPath (diagonalPath - 1)); addPath = the (bestPath (diagonalPath + 1));
          canAdd = can_add new bestPath diagonalPath; canRemove = can_remove old bestPath diagonalPath
      in if \<not> canAdd \<and> \<not> canRemove then None
         else if \<not> canRemove \<or> canAdd \<and> pn_oldPos removePath < pn_oldPos addPath
              then Some (addToPath addPath True False 0)
              else Some (addToPath removePath False True 1))"

text \<open>One pass over the diagonals: \<open>Inl\<close> the components of a complete path, \<open>Inr\<close> what is carried on.\<close>

function diagonal_loop :: "string list \<Rightarrow> string list \<Rightarrow> int \<Rightarrow> int \<Rightarrow> paths \<Rightarrow> int \<Rightarrow> int \<Rightarrow>
    diffPathComponent list + paths \<times> int \<times> int" where
  "diagonal_loop old new upperBound diagonalPath bestPath minDiagonal maxDiagonal =
     (if diagonalPath > upperBound then Inr (bestPath, minDiagonal, maxDiagonal)
      else let remaining = bestPath(diagonalPath - 1 := None) in
        (case choose_path old new bestPath diagonalPath of
           None \<Rightarrow> diagonal_loop old new upperBound (diagonalPath + 2) (remaining(diagonalPath := None))
                     minDiagonal maxDiagonal
         | Some basePath \<Rightarrow>
             (let (node, newPos) = extractCommon old new basePath diagonalPath in
              if pn_oldPos node + 1 \<ge> int (length old) \<and> newPos + 1 \<ge> int (length new)
              then Inl (pn_last node)
              else diagonal_loop old new upperBound (diagonalPath + 2) (remaining(diagonalPath \<mapsto> node))
                     (if newPos + 1 \<ge> int (length new) \<and> diagonalPath + 1 > minDiagonal
                      then diagonalPath + 1 else minDiagonal)
                     (if pn_oldPos node + 1 \<ge> int (length old) \<and> diagonalPath - 1 < maxDiagonal
                      then diagonalPath - 1 else maxDiagonal))))"
  by pat_completeness auto
termination
  by (relation "measure (\<lambda>(old, new, upperBound, diagonalPath, _). nat (upperBound + 1 - diagonalPath))") auto

declare diagonal_loop.simps [simp del]

function edit_loop :: "string list \<Rightarrow> string list \<Rightarrow> nat \<Rightarrow> paths \<Rightarrow> int \<Rightarrow> int \<Rightarrow> diffPathComponent list option" where
  "edit_loop old new editLength bestPath minDiagonal maxDiagonal =
     (if editLength > length new + length old then None
      else case diagonal_loop old new (min maxDiagonal (int editLength)) (max minDiagonal (- int editLength))
                  bestPath minDiagonal maxDiagonal of
             Inl components \<Rightarrow> Some components
           | Inr (bestPath', minDiagonal', maxDiagonal') \<Rightarrow>
               edit_loop old new (editLength + 1) bestPath' minDiagonal' maxDiagonal')"
  by pat_completeness auto
termination
  by (relation "measure (\<lambda>(old, new, editLength, _). length new + length old + 1 - editLength)") auto

declare edit_loop.simps [simp del]

definition diagonal_sentinel :: int where
  "diagonal_sentinel = 2 ^ 30"

definition shortest_path :: "string list \<Rightarrow> string list \<Rightarrow> diffPathComponent list option" where
  "shortest_path old new =
     (let (node, newPos) = extractCommon old new \<lparr>pn_oldPos = - 1, pn_last = []\<rparr> 0 in
      if pn_oldPos node + 1 \<ge> int (length old) \<and> newPos + 1 \<ge> int (length new)
      then Some (pn_last node)
      else edit_loop old new 1 [0 \<mapsto> node] (- diagonal_sentinel) diagonal_sentinel)"

section \<open>Components with their text\<close>

text \<open>The components in file order, each with the tokens it stands for.\<close>

fun materialize :: "diffPathComponent list \<Rightarrow> string list \<Rightarrow> string list \<Rightarrow> nat \<Rightarrow> nat \<Rightarrow> diffComponent list" where
  "materialize [] new old newPos oldPos = []"
| "materialize (c # cs) new old newPos oldPos =
     (if \<not> pc_removed c
      then \<lparr>dc_value = concat (take (pc_count c) (drop newPos new)), dc_added = pc_added c, dc_removed = pc_removed c\<rparr>
           # materialize cs new old (newPos + pc_count c) (if pc_added c then oldPos else oldPos + pc_count c)
      else \<lparr>dc_value = concat (take (pc_count c) (drop oldPos old)), dc_added = pc_added c, dc_removed = pc_removed c\<rparr>
           # materialize cs new old newPos (oldPos + pc_count c))"

definition buildDiffValues :: "diffPathComponent list \<Rightarrow> string list \<Rightarrow> string list \<Rightarrow> diffComponent list" where
  "buildDiffValues chain new old = materialize (rev chain) new old 0 0"

definition computeLineDiff :: "string \<Rightarrow> string \<Rightarrow> diffComponent list option" where
  "computeLineDiff oldContent newContent =
     (let old = tokenizeLines oldContent; new = tokenizeLines newContent
      in map_option (\<lambda>chain. buildDiffValues chain new old) (shortest_path old new))"

section \<open>Edit scripts\<close>

text \<open>
  The specification: \<open>edit_script old new k x y\<close> says that the first \<open>x\<close> tokens of the old text become
  the first \<open>y\<close> of the new one by \<open>k\<close> removals and additions, everything else being kept.
\<close>

inductive edit_script :: "string list \<Rightarrow> string list \<Rightarrow> nat \<Rightarrow> nat \<Rightarrow> nat \<Rightarrow> bool"
  for old :: "string list" and new :: "string list" where
  start: "edit_script old new 0 0 0"
| keep: "edit_script old new k x y \<Longrightarrow> x < length old \<Longrightarrow> y < length new \<Longrightarrow> old ! x = new ! y \<Longrightarrow>
           edit_script old new k (Suc x) (Suc y)"
| remove: "edit_script old new k x y \<Longrightarrow> x < length old \<Longrightarrow> edit_script old new (Suc k) (Suc x) y"
| add: "edit_script old new k x y \<Longrightarrow> y < length new \<Longrightarrow> edit_script old new (Suc k) x (Suc y)"

lemma edit_script_bounds: "edit_script old new k x y \<Longrightarrow> x \<le> length old \<and> y \<le> length new"
  by (induction rule: edit_script.induct) auto

lemma edit_script_diagonal:
  "edit_script old new k x y \<Longrightarrow> \<bar>int x - int y\<bar> \<le> int k \<and> even (int x - int y - int k)"
  by (induction rule: edit_script.induct) (auto simp: algebra_simps)

text \<open>Every pair of texts has an edit script: remove everything, then add everything.\<close>

lemma edit_script_total: "edit_script old new (length old + length new) (length old) (length new)"
proof -
  have "x \<le> length old \<Longrightarrow> edit_script old new x x 0" for x
    by (induction x) (auto intro: edit_script.intros)
  moreover have "y \<le> length new \<Longrightarrow> edit_script old new (length old + y) (length old) y" for y
    by (induction y) (use calculation in \<open>auto intro: edit_script.intros\<close>)
  ultimately show ?thesis by blast
qed

text \<open>What the components of a path stand for, from the last one back.\<close>

fun covers :: "string list \<Rightarrow> string list \<Rightarrow> diffPathComponent list \<Rightarrow> nat \<Rightarrow> nat \<Rightarrow> bool" where
  "covers old new [] x y \<longleftrightarrow> x = 0 \<and> y = 0"
| "covers old new (c # cs) x y \<longleftrightarrow> 0 < pc_count c \<and> x \<le> length old \<and> y \<le> length new \<and>
     (if pc_removed c then \<not> pc_added c \<and> pc_count c \<le> x \<and> covers old new cs (x - pc_count c) y
      else if pc_added c then pc_count c \<le> y \<and> covers old new cs x (y - pc_count c)
      else pc_count c \<le> x \<and> pc_count c \<le> y \<and>
           take (pc_count c) (drop (x - pc_count c) old) = take (pc_count c) (drop (y - pc_count c) new) \<and>
           covers old new cs (x - pc_count c) (y - pc_count c))"

definition edits :: "diffPathComponent list \<Rightarrow> nat" where
  "edits chain = sum_list (map (\<lambda>c. if pc_added c \<or> pc_removed c then pc_count c else 0) chain)"

lemma edit_script_keeps:
  "edit_script old new k x y \<Longrightarrow> take n (drop x old) = take n (drop y new) \<Longrightarrow> x + n \<le> length old \<Longrightarrow>
     y + n \<le> length new \<Longrightarrow> edit_script old new k (x + n) (y + n)"
proof (induction n)
  case (Suc n)
  have "take n (drop x old) = take n (drop y new)" "old ! (x + n) = new ! (y + n)"
    using Suc.prems by (simp_all add: take_Suc_conv_app_nth)
  then show ?case using Suc by (auto intro: edit_script.keep)
qed simp

lemma edit_script_removes: "edit_script old new k x y \<Longrightarrow> x + n \<le> length old \<Longrightarrow> edit_script old new (k + n) (x + n) y"
  by (induction n) (auto intro: edit_script.remove)

lemma edit_script_adds: "edit_script old new k x y \<Longrightarrow> y + n \<le> length new \<Longrightarrow> edit_script old new (k + n) x (y + n)"
  by (induction n) (auto intro: edit_script.add)

lemma covers_edit_script: "covers old new chain x y \<Longrightarrow> edit_script old new (edits chain) x y"
proof (induction chain arbitrary: x y)
  case Nil
  then show ?case by (simp add: edits_def edit_script.start)
next
  case (Cons c cs)
  show ?case
  proof (cases "pc_removed c")
    case True
    then show ?thesis
      using Cons.prems edit_script_removes [OF Cons.IH, of "x - pc_count c" y "pc_count c"]
      by (auto simp: edits_def add.commute)
  next
    case nr: False
    show ?thesis
    proof (cases "pc_added c")
      case True
      then show ?thesis
        using nr Cons.prems edit_script_adds [OF Cons.IH, of x "y - pc_count c" "pc_count c"]
        by (auto simp: edits_def add.commute)
    next
      case False
      then show ?thesis
        using nr Cons.prems edit_script_keeps [OF Cons.IH, of "x - pc_count c" "y - pc_count c" "pc_count c"]
        by (auto simp: edits_def)
    qed
  qed
qed

section \<open>Steps of a path\<close>

lemma common_run_spec:
  assumes "x \<le> length old" "y \<le> length new"
  defines "k \<equiv> common_run old new (int x - 1) (int y - 1)"
  shows "x + k \<le> length old \<and> y + k \<le> length new \<and> take k (drop x old) = take k (drop y new) \<and>
    \<not> (x + k < length old \<and> y + k < length new \<and> old ! (x + k) = new ! (y + k))"
  using assms(1,2) unfolding k_def
proof (induction "length old - x" arbitrary: x y)
  case 0
  then show ?case by (simp add: common_run.simps [of old new "int x - 1"])
next
  case (Suc n)
  show ?case
  proof (cases "y < length new \<and> old ! x = new ! y")
    case True
    let ?k = "common_run old new (int (Suc x) - 1) (int (Suc y) - 1)"
    have run: "common_run old new (int x - 1) (int y - 1) = Suc ?k"
      using True Suc.hyps(2) by (subst common_run.simps) simp
    have "Suc x + ?k \<le> length old \<and> Suc y + ?k \<le> length new \<and>
        take ?k (drop (Suc x) old) = take ?k (drop (Suc y) new) \<and>
        \<not> (Suc x + ?k < length old \<and> Suc y + ?k < length new \<and> old ! (Suc x + ?k) = new ! (Suc y + ?k))"
      by (rule Suc.hyps(1)) (use Suc.hyps(2) Suc.prems True in auto)
    moreover have "drop x old = old ! x # drop (Suc x) old" "drop y new = new ! y # drop (Suc y) new"
      using True Suc.hyps(2) by (metis Cons_nth_drop_Suc zero_less_Suc zero_less_diff)+
    ultimately show ?thesis using True by (simp add: run)
  next
    case False
    then have "common_run old new (int x - 1) (int y - 1) = 0"
      by (subst common_run.simps) auto
    then show ?thesis using False Suc.prems by auto
  qed
qed

text \<open>
  A node of the search on diagonal \<open>d\<close> stands for a path of \<open>D\<close> edits to the point its position and
  diagonal give; it is the furthest when no script of at most \<open>D\<close> edits gets further on the diagonal.
\<close>

definition node_ok :: "string list \<Rightarrow> string list \<Rightarrow> nat \<Rightarrow> int \<Rightarrow> diffPathNode \<Rightarrow> bool" where
  "node_ok old new D d node \<longleftrightarrow>
     (\<exists>x y. pn_oldPos node = int x - 1 \<and> int x - int y = d \<and> covers old new (pn_last node) x y \<and>
            edits (pn_last node) = D)"

definition furthest :: "string list \<Rightarrow> string list \<Rightarrow> nat \<Rightarrow> int \<Rightarrow> diffPathNode \<Rightarrow> bool" where
  "furthest old new D d node \<longleftrightarrow>
     (\<forall>k x y. k \<le> D \<longrightarrow> edit_script old new k x y \<longrightarrow> int x - int y = d \<longrightarrow> int x \<le> pn_oldPos node + 1)"

definition at_old_end :: "string list \<Rightarrow> diffPathNode \<Rightarrow> bool" where
  "at_old_end old node \<longleftrightarrow> pn_oldPos node + 1 \<ge> int (length old)"

definition at_new_end :: "string list \<Rightarrow> int \<Rightarrow> diffPathNode \<Rightarrow> bool" where
  "at_new_end new d node \<longleftrightarrow> pn_oldPos node - d + 1 \<ge> int (length new)"

lemma node_okE:
  assumes "node_ok old new D d node"
  obtains x y where "pn_oldPos node = int x - 1" "int x - int y = d" "covers old new (pn_last node) x y"
    "edits (pn_last node) = D" "x \<le> length old" "y \<le> length new"
  using assms edit_script_bounds [OF covers_edit_script] by (force simp: node_ok_def)

lemma covers_bounds: "covers old new chain x y \<Longrightarrow> x \<le> length old \<and> y \<le> length new"
  using edit_script_bounds [OF covers_edit_script] .

lemma node_ok_add:
  assumes "node_ok old new D (d + 1) node" "\<not> at_new_end new (d + 1) node"
  shows "node_ok old new (Suc D) d (addToPath node True False 0)"
  using assms(1)
proof (rule node_okE)
  fix x y assume n: "pn_oldPos node = int x - 1" "int x - int y = d + 1" "covers old new (pn_last node) x y"
    "edits (pn_last node) = D" "x \<le> length old" "y \<le> length new"
  have "y < length new" using assms(2) n(1,2) by (simp add: at_new_end_def)
  then have "covers old new (pn_last (addToPath node True False 0)) x (Suc y) \<and>
      edits (pn_last (addToPath node True False 0)) = Suc D"
    using n by (auto simp: addToPath_def edits_def split: list.splits if_splits)
  then show ?thesis using n(1,2) by (force simp: node_ok_def addToPath_def)
qed

lemma node_ok_remove:
  assumes "node_ok old new D (d - 1) node" "\<not> at_old_end old node"
  shows "node_ok old new (Suc D) d (addToPath node False True 1)"
  using assms(1)
proof (rule node_okE)
  fix x y assume n: "pn_oldPos node = int x - 1" "int x - int y = d - 1" "covers old new (pn_last node) x y"
    "edits (pn_last node) = D" "x \<le> length old" "y \<le> length new"
  have "x < length old" using assms(2) n(1) by (simp add: at_old_end_def)
  then have "covers old new (pn_last (addToPath node False True 1)) (Suc x) y \<and>
      edits (pn_last (addToPath node False True 1)) = Suc D"
    using n by (auto simp: addToPath_def edits_def split: list.splits if_splits)
  then show ?thesis using n(1,2) by (force simp: node_ok_def addToPath_def)
qed

lemma extractCommon_spec:
  assumes "node_ok old new D d base" "extractCommon old new base d = (node, newPos)"
  shows "node_ok old new D d node" "newPos = pn_oldPos node - d" "pn_oldPos base \<le> pn_oldPos node"
    "\<not> at_old_end old node \<Longrightarrow> \<not> at_new_end new d node \<Longrightarrow>
       old ! nat (pn_oldPos node + 1) \<noteq> new ! nat (pn_oldPos node - d + 1)"
proof -
  obtain x y where n: "pn_oldPos base = int x - 1" "int x - int y = d" "covers old new (pn_last base) x y"
    "edits (pn_last base) = D" "x \<le> length old" "y \<le> length new"
    using assms(1) by (rule node_okE)
  define k where "k = common_run old new (int x - 1) (int y - 1)"
  have y: "int x - 1 - d = int y - 1" using n by simp
  have e: "pn_oldPos node = int (x + k) - 1" "newPos = int (y + k) - 1"
    "pn_last node = (if k > 0 then \<lparr>pc_count = k, pc_added = False, pc_removed = False\<rparr> # pn_last base else pn_last base)"
    using assms(2) unfolding extractCommon_def Let_def n(1) y k_def by auto
  note run = common_run_spec [OF n(5,6), folded k_def]
  have "covers old new (pn_last node) (x + k) (y + k)" "edits (pn_last node) = D"
    using e(3) run n(3,4) by (auto simp: edits_def)
  then show "node_ok old new D d node"
    using e(1) n(2) unfolding node_ok_def by (intro exI [of _ "x + k"] exI [of _ "y + k"]) auto
  show "newPos = pn_oldPos node - d" "pn_oldPos base \<le> pn_oldPos node" using e n by auto
  show "old ! nat (pn_oldPos node + 1) \<noteq> new ! nat (pn_oldPos node - d + 1)"
    if "\<not> at_old_end old node" "\<not> at_new_end new d node"
  proof -
    have p: "pn_oldPos node + 1 = int (x + k)" "pn_oldPos node - d + 1 = int (y + k)"
      using e(1) n(2) by simp_all
    show ?thesis using that run unfolding at_old_end_def at_new_end_def p nat_int by simp
  qed
qed

text \<open>
  The furthest points of one round give those of the next: a script of one more edit comes from a
  neighbouring diagonal, which the round before has followed as far as it goes.
\<close>

lemma furthest_step:
  assumes node: "node_ok old new D d node"
    and stop: "\<not> at_old_end old node \<Longrightarrow> \<not> at_new_end new d node \<Longrightarrow>
       old ! nat (pn_oldPos node + 1) \<noteq> new ! nat (pn_oldPos node - d + 1)"
    and below: "\<And>k x y. k < D \<Longrightarrow> edit_script old new k x y \<Longrightarrow> int x - int y = d - 1 \<Longrightarrow>
       int x + 1 \<le> pn_oldPos node + 1"
    and above: "\<And>k x y. k < D \<Longrightarrow> edit_script old new k x y \<Longrightarrow> int x - int y = d + 1 \<Longrightarrow>
       int x \<le> pn_oldPos node + 1"
  shows "furthest old new D d node"
proof -
  obtain p q where n: "pn_oldPos node = int p - 1" "int p - int q = d" using node by (rule node_okE)
  have "k \<le> D \<longrightarrow> int x - int y = d \<longrightarrow> int x \<le> pn_oldPos node + 1" if "edit_script old new k x y" for k x y
    using that
  proof (induction rule: edit_script.induct)
    case start
    then show ?case by (simp add: n)
  next
    case (keep k x y)
    show ?case
    proof (intro impI)
      assume k: "k \<le> D" and d: "int (Suc x) - int (Suc y) = d"
      then have "int x \<le> pn_oldPos node + 1" using keep.IH by simp
      moreover have "int x \<noteq> pn_oldPos node + 1"
      proof
        assume eq: "int x = pn_oldPos node + 1"
        then have xy: "x = p" "y = q" using n d by auto
        have "pn_oldPos node - d + 1 = int q" using n by simp
        then show False
          using stop keep.hyps n(1) unfolding xy by (simp add: at_old_end_def at_new_end_def)
      qed
      ultimately show "int (Suc x) \<le> pn_oldPos node + 1" by simp
    qed
  next
    case (remove k x y)
    then show ?case using below [of k x y] by auto
  next
    case (add k x y)
    then show ?case using above [of k x y] by auto
  qed
  then show ?thesis by (simp add: furthest_def)
qed

section \<open>The invariant of the search\<close>

text \<open>
  After the round of \<open>D\<close> edits every diagonal of the round that is still considered holds the furthest
  path; a path at an end of a text has narrowed the diagonals considered, never past the one of the
  goal; and no script of up to \<open>D\<close> edits leads to the goal.
\<close>

definition narrowed :: "string list \<Rightarrow> string list \<Rightarrow> int \<Rightarrow> int \<Rightarrow> int \<Rightarrow> diffPathNode \<Rightarrow> bool" where
  "narrowed old new minD maxD d node \<longleftrightarrow>
     (at_old_end old node \<longrightarrow> maxD \<le> d - 1) \<and> (at_new_end new d node \<longrightarrow> d + 1 \<le> minD)"

definition on_round :: "nat \<Rightarrow> int \<Rightarrow> bool" where
  "on_round D d \<longleftrightarrow> \<bar>d\<bar> \<le> int D \<and> even (d - int D)"

definition goal_diagonal :: "string list \<Rightarrow> string list \<Rightarrow> int" where
  "goal_diagonal old new = int (length old) - int (length new)"

definition populated :: "string list \<Rightarrow> string list \<Rightarrow> nat \<Rightarrow> int \<Rightarrow> int \<Rightarrow> paths \<Rightarrow> bool" where
  "populated old new D minD maxD best \<longleftrightarrow>
     (\<forall>d. on_round D d \<longrightarrow> minD - 1 \<le> d \<longrightarrow> d \<le> maxD + 1 \<longrightarrow>
        (\<exists>node. best d = Some node \<and> node_ok old new D d node \<and> furthest old new D d node \<and>
                narrowed old new minD maxD d node))"

definition lower_ok :: "string list \<Rightarrow> nat \<Rightarrow> int \<Rightarrow> paths \<Rightarrow> bool" where
  "lower_ok new D minD best \<longleftrightarrow> minD = - diagonal_sentinel \<or>
     on_round D (minD - 1) \<and> (\<forall>node. best (minD - 1) = Some node \<longrightarrow> at_new_end new (minD - 1) node)"

definition upper_ok :: "string list \<Rightarrow> nat \<Rightarrow> int \<Rightarrow> paths \<Rightarrow> bool" where
  "upper_ok old D maxD best \<longleftrightarrow> maxD = diagonal_sentinel \<or>
     on_round D (maxD + 1) \<and> (\<forall>node. best (maxD + 1) = Some node \<longrightarrow> at_old_end old node)"

definition search_inv :: "string list \<Rightarrow> string list \<Rightarrow> nat \<Rightarrow> int \<Rightarrow> int \<Rightarrow> paths \<Rightarrow> bool" where
  "search_inv old new D minD maxD best \<longleftrightarrow>
     (\<forall>d. best d \<noteq> None \<longrightarrow> \<bar>d\<bar> \<le> int D) \<and>
     populated old new D minD maxD best \<and>
     minD \<le> goal_diagonal old new \<and> goal_diagonal old new \<le> maxD \<and>
     lower_ok new D minD best \<and> upper_ok old D maxD best \<and>
     (\<forall>k \<le> D. \<not> edit_script old new k (length old) (length new))"

lemma populated_no_script:
  assumes "populated old new D minD maxD best" "minD \<le> goal_diagonal old new" "goal_diagonal old new \<le> maxD"
  shows "\<not> edit_script old new D (length old) (length new)"
proof
  assume s: "edit_script old new D (length old) (length new)"
  then have "on_round D (goal_diagonal old new)"
    using edit_script_diagonal [OF s] by (simp add: on_round_def goal_diagonal_def)
  then obtain node where n: "furthest old new D (goal_diagonal old new) node"
    "narrowed old new minD maxD (goal_diagonal old new) node"
    using assms unfolding populated_def by fastforce
  then have "at_old_end old node"
    using s by (auto simp: furthest_def at_old_end_def goal_diagonal_def)
  then show False using n(2) assms(3) by (simp add: narrowed_def)
qed

lemma on_round_Suc:
  assumes "on_round (Suc D) d"
  shows "on_round D (d - 1) \<or> d = - int (Suc D)" "on_round D (d + 1) \<or> d = int (Suc D)"
  using assms by (auto simp: on_round_def) presburger+

text \<open>What a diagonal of the next round becomes.\<close>

definition new_node :: "string list \<Rightarrow> string list \<Rightarrow> nat \<Rightarrow> int \<Rightarrow> int \<Rightarrow> int \<Rightarrow> diffPathNode \<Rightarrow> bool" where
  "new_node old new D minD maxD e node \<longleftrightarrow>
     node_ok old new (Suc D) e node \<and> furthest old new (Suc D) e node \<and>
     (e = minD \<longrightarrow> minD \<noteq> - diagonal_sentinel \<longrightarrow> at_new_end new e node) \<and>
     (e = maxD \<longrightarrow> maxD \<noteq> diagonal_sentinel \<longrightarrow> at_old_end old node)"

lemma search_invD:
  assumes "search_inv old new D minD maxD best"
  shows "on_round D d \<Longrightarrow> minD - 1 \<le> d \<Longrightarrow> d \<le> maxD + 1 \<Longrightarrow>
      \<exists>node. best d = Some node \<and> node_ok old new D d node \<and> furthest old new D d node \<and> narrowed old new minD maxD d node"
    "\<not> \<bar>d\<bar> \<le> int D \<Longrightarrow> best d = None"
    "lower_ok new D minD best" "upper_ok old D maxD best"
    "minD \<le> goal_diagonal old new" "goal_diagonal old new \<le> maxD"
    "k \<le> D \<Longrightarrow> \<not> edit_script old new k (length old) (length new)"
  using assms unfolding search_inv_def populated_def by blast+

lemma below_neighbour:
  assumes inv: "search_inv old new D minD maxD best" and e: "on_round (Suc D) e" "minD \<le> e" "e \<le> maxD"
  shows "(\<exists>r. best (e - 1) = Some r \<and> node_ok old new D (e - 1) r \<and> furthest old new D (e - 1) r \<and>
             \<not> at_old_end old r \<and> can_remove old best e \<and> (e = minD \<longrightarrow> minD \<noteq> - diagonal_sentinel \<longrightarrow> at_new_end new (e - 1) r)) \<or>
         e = - int (Suc D) \<and> \<not> can_remove old best e \<and> (e = minD \<longrightarrow> minD = - diagonal_sentinel)"
proof (cases "on_round D (e - 1)")
  case True
  then obtain r where r: "best (e - 1) = Some r" "node_ok old new D (e - 1) r" "furthest old new D (e - 1) r"
    "narrowed old new minD maxD (e - 1) r"
    using search_invD(1) [OF inv True] e(2,3) by auto
  moreover have "\<not> at_old_end old r" using r(4) e(3) by (auto simp: narrowed_def)
  moreover have "e = minD \<longrightarrow> minD \<noteq> - diagonal_sentinel \<longrightarrow> at_new_end new (e - 1) r"
    using search_invD(3) [OF inv] r(1) by (auto simp: lower_ok_def)
  ultimately show ?thesis by (auto simp: can_remove_def at_old_end_def)
next
  case False
  then have eq: "e = - int (Suc D)" using on_round_Suc(1) [OF e(1)] by blast
  then have "\<not> \<bar>e - 1\<bar> \<le> int D" by simp
  then have "best (e - 1) = None" by (rule search_invD(2) [OF inv])
  moreover have "e = minD \<longrightarrow> minD = - diagonal_sentinel"
    using search_invD(3) [OF inv] False by (auto simp: lower_ok_def)
  ultimately show ?thesis using eq by (simp add: can_remove_def)
qed

lemma above_neighbour:
  assumes inv: "search_inv old new D minD maxD best" and e: "on_round (Suc D) e" "minD \<le> e" "e \<le> maxD"
  shows "(\<exists>a. best (e + 1) = Some a \<and> node_ok old new D (e + 1) a \<and> furthest old new D (e + 1) a \<and>
             \<not> at_new_end new (e + 1) a \<and> can_add new best e \<and> (e = maxD \<longrightarrow> maxD \<noteq> diagonal_sentinel \<longrightarrow> at_old_end old a)) \<or>
         e = int (Suc D) \<and> \<not> can_add new best e \<and> (e = maxD \<longrightarrow> maxD = diagonal_sentinel)"
proof (cases "on_round D (e + 1)")
  case True
  then obtain a where a: "best (e + 1) = Some a" "node_ok old new D (e + 1) a" "furthest old new D (e + 1) a"
    "narrowed old new minD maxD (e + 1) a"
    using search_invD(1) [OF inv True] e(2,3) by auto
  moreover have ne: "\<not> at_new_end new (e + 1) a" using a(4) e(2) by (auto simp: narrowed_def)
  moreover have "can_add new best e"
    using a(2)
  proof (rule node_okE)
    fix x y assume "pn_oldPos a = int x - 1" "int x - int y = e + 1"
    then have "pn_oldPos a - e = int y" by simp
    then show ?thesis using ne unfolding at_new_end_def by (simp add: can_add_def a(1))
  qed
  moreover have "e = maxD \<longrightarrow> maxD \<noteq> diagonal_sentinel \<longrightarrow> at_old_end old a"
    using search_invD(4) [OF inv] a(1) by (auto simp: upper_ok_def)
  ultimately show ?thesis by auto
next
  case False
  then have eq: "e = int (Suc D)" using on_round_Suc(2) [OF e(1)] by blast
  then have "\<not> \<bar>e + 1\<bar> \<le> int D" by simp
  then have "best (e + 1) = None" by (rule search_invD(2) [OF inv])
  moreover have "e = maxD \<longrightarrow> maxD = diagonal_sentinel"
    using search_invD(4) [OF inv] False by (auto simp: upper_ok_def)
  ultimately show ?thesis using eq by (simp add: can_add_def)
qed

lemma choose_path_new:
  assumes inv: "search_inv old new D minD maxD best" and e: "on_round (Suc D) e" "minD \<le> e" "e \<le> maxD"
  obtains base where "choose_path old new best e = Some base" "node_ok old new (Suc D) e base"
    "\<And>k x y. k \<le> D \<Longrightarrow> edit_script old new k x y \<Longrightarrow> int x - int y = e - 1 \<Longrightarrow> int x + 1 \<le> pn_oldPos base + 1"
    "\<And>k x y. k \<le> D \<Longrightarrow> edit_script old new k x y \<Longrightarrow> int x - int y = e + 1 \<Longrightarrow> int x \<le> pn_oldPos base + 1"
    "e = minD \<Longrightarrow> minD \<noteq> - diagonal_sentinel \<Longrightarrow> at_new_end new e base"
    "e = maxD \<Longrightarrow> maxD \<noteq> diagonal_sentinel \<Longrightarrow> at_old_end old base"
proof -
  note noscript = edit_script_diagonal
  show thesis
    using below_neighbour [OF assms] above_neighbour [OF assms]
  proof (elim disjE exE conjE)
    fix r a
    assume r: "best (e - 1) = Some r" "node_ok old new D (e - 1) r" "furthest old new D (e - 1) r"
        "\<not> at_old_end old r" "can_remove old best e" "e = minD \<longrightarrow> minD \<noteq> - diagonal_sentinel \<longrightarrow> at_new_end new (e - 1) r"
      and a: "best (e + 1) = Some a" "node_ok old new D (e + 1) a" "furthest old new D (e + 1) a"
        "\<not> at_new_end new (e + 1) a" "can_add new best e" "e = maxD \<longrightarrow> maxD \<noteq> diagonal_sentinel \<longrightarrow> at_old_end old a"
    define base where "base = (if pn_oldPos r < pn_oldPos a then addToPath a True False 0 else addToPath r False True 1)"
    have pos: "pn_oldPos r + 1 \<le> pn_oldPos base" "pn_oldPos a \<le> pn_oldPos base"
      by (auto simp: base_def addToPath_def)
    have "choose_path old new best e = Some base"
      using r(1,5) a(1,5) by (simp add: choose_path_def base_def)
    moreover have "node_ok old new (Suc D) e base"
      using node_ok_add [OF a(2,4)] node_ok_remove [OF r(2,4)] by (simp add: base_def)
    ultimately show thesis
      using r(3,6) a(3,6) pos by (intro that [of base]) (fastforce simp: furthest_def at_new_end_def at_old_end_def)+
  next
    fix r
    assume r: "best (e - 1) = Some r" "node_ok old new D (e - 1) r" "furthest old new D (e - 1) r"
        "\<not> at_old_end old r" "can_remove old best e" "e = minD \<longrightarrow> minD \<noteq> - diagonal_sentinel \<longrightarrow> at_new_end new (e - 1) r"
      and a: "e = int (Suc D)" "\<not> can_add new best e" "e = maxD \<longrightarrow> maxD = diagonal_sentinel"
    have "choose_path old new best e = Some (addToPath r False True 1)"
      using r(1,5) a(2) by (simp add: choose_path_def)
    moreover have "pn_oldPos (addToPath r False True 1) = pn_oldPos r + 1" by (simp add: addToPath_def)
    ultimately show thesis
      using r(3,6) a node_ok_remove [OF r(2,4)]
      by (intro that [of "addToPath r False True 1"])
        (fastforce simp: furthest_def at_new_end_def at_old_end_def dest: noscript)+
  next
    fix a
    assume a: "best (e + 1) = Some a" "node_ok old new D (e + 1) a" "furthest old new D (e + 1) a"
        "\<not> at_new_end new (e + 1) a" "can_add new best e" "e = maxD \<longrightarrow> maxD \<noteq> diagonal_sentinel \<longrightarrow> at_old_end old a"
      and r: "e = - int (Suc D)" "\<not> can_remove old best e" "e = minD \<longrightarrow> minD = - diagonal_sentinel"
    have "choose_path old new best e = Some (addToPath a True False 0)"
      using a(1,5) r(2) by (simp add: choose_path_def)
    moreover have "pn_oldPos (addToPath a True False 0) = pn_oldPos a" by (simp add: addToPath_def)
    ultimately show thesis
      using a(3,6) r node_ok_add [OF a(2,4)]
      by (intro that [of "addToPath a True False 0"])
        (fastforce simp: furthest_def at_new_end_def at_old_end_def dest: noscript)+
  qed auto
qed

lemma diagonal_new:
  assumes "search_inv old new D minD maxD best" "on_round (Suc D) e" "minD \<le> e" "e \<le> maxD"
  obtains base node where "choose_path old new best e = Some base"
    "extractCommon old new base e = (node, pn_oldPos node - e)" "new_node old new D minD maxD e node"
proof -
  obtain base where b: "choose_path old new best e = Some base" "node_ok old new (Suc D) e base"
    "\<And>k x y. k \<le> D \<Longrightarrow> edit_script old new k x y \<Longrightarrow> int x - int y = e - 1 \<Longrightarrow> int x + 1 \<le> pn_oldPos base + 1"
    "\<And>k x y. k \<le> D \<Longrightarrow> edit_script old new k x y \<Longrightarrow> int x - int y = e + 1 \<Longrightarrow> int x \<le> pn_oldPos base + 1"
    "e = minD \<Longrightarrow> minD \<noteq> - diagonal_sentinel \<Longrightarrow> at_new_end new e base"
    "e = maxD \<Longrightarrow> maxD \<noteq> diagonal_sentinel \<Longrightarrow> at_old_end old base"
    using choose_path_new [OF assms] by blast
  obtain node newPos where x: "extractCommon old new base e = (node, newPos)" by fastforce
  note spec = extractCommon_spec [OF b(2) x]
  have "furthest old new (Suc D) e node"
  proof (rule furthest_step [OF spec(1,4)])
    fix k x y assume "k < Suc D" "edit_script old new k x y"
    then show "int x - int y = e - 1 \<Longrightarrow> int x + 1 \<le> pn_oldPos node + 1"
      "int x - int y = e + 1 \<Longrightarrow> int x \<le> pn_oldPos node + 1"
      using b(3,4) [of k x y] spec(3) by simp_all
  qed
  then have "new_node old new D minD maxD e node"
    using spec(1,3) b(5,6) by (auto simp: new_node_def at_new_end_def at_old_end_def)
  then show thesis using that b(1) x spec(2) by blast
qed

text \<open>
  Inside a round: the diagonals below \<open>d\<close> are done, the others are as the round found them. \<open>minD\<close> and
  \<open>maxD\<close> bound the diagonals the invariant speaks of, \<open>min0\<close> and \<open>max0\<close> are what the code starts with:
  the two differ in the first round only, where the code has not looked at the ends yet.
\<close>

definition done_diagonal :: "nat \<Rightarrow> int \<Rightarrow> int \<Rightarrow> int \<Rightarrow> int \<Rightarrow> bool" where
  "done_diagonal D minD maxD d e \<longleftrightarrow> on_round (Suc D) e \<and> minD \<le> e \<and> e \<le> maxD \<and> e < d"

definition round_inv :: "string list \<Rightarrow> string list \<Rightarrow> nat \<Rightarrow> int \<Rightarrow> int \<Rightarrow> paths \<Rightarrow> int \<Rightarrow> int \<Rightarrow>
    int \<Rightarrow> paths \<Rightarrow> int \<Rightarrow> int \<Rightarrow> bool" where
  "round_inv old new D minD maxD best0 min0 max0 d best mn mx \<longleftrightarrow>
     (\<forall>j \<ge> d - 1. best j = best0 j) \<and>
     (\<forall>j. best j \<noteq> None \<longrightarrow> \<bar>j\<bar> \<le> int (Suc D)) \<and>
     (\<forall>e. done_diagonal D minD maxD d e \<longrightarrow>
        (\<exists>node. best e = Some node \<and> new_node old new D minD maxD e node \<and> narrowed old new mn mx e node \<and>
                \<not> (at_old_end old node \<and> at_new_end new e node))) \<and>
     (mn = min0 \<or> (\<exists>e node. done_diagonal D minD maxD d e \<and> mn = e + 1 \<and> best e = Some node \<and> at_new_end new e node)) \<and>
     (mx = max0 \<or> (\<exists>e node. done_diagonal D minD maxD d e \<and> mx = e - 1 \<and> best e = Some node \<and> at_old_end old node)) \<and>
     min0 \<le> mn \<and> mx \<le> max0"

lemma on_round_next:
  assumes "on_round n d" "on_round n e" "d \<le> e" "e < d + 2"
  shows "e = d"
proof -
  have "even (d - int n)" "even (e - int n)" using assms(1,2) unfolding on_round_def by blast+
  then have "even (e - d)" by presburger
  moreover have "e = d \<or> e = d + 1" using assms(3,4) by arith
  ultimately show ?thesis by auto
qed

lemma round_step:
  assumes inv: "round_inv old new D minD maxD best0 min0 max0 d best mn mx"
    and d: "on_round (Suc D) d" "minD \<le> d" "d \<le> maxD"
    and node: "new_node old new D minD maxD d node" "\<not> (at_old_end old node \<and> at_new_end new d node)"
  shows "round_inv old new D minD maxD best0 min0 max0 (d + 2) (best(d - 1 := None, d \<mapsto> node))
           (if at_new_end new d node \<and> d + 1 > mn then d + 1 else mn)
           (if at_old_end old node \<and> d - 1 < mx then d - 1 else mx)"
proof -
  let ?best = "best(d - 1 := None, d \<mapsto> node)"
  let ?mn = "if at_new_end new d node \<and> d + 1 > mn then d + 1 else mn"
  let ?mx = "if at_old_end old node \<and> d - 1 < mx then d - 1 else mx"
  have same: "?best e = best e" if "done_diagonal D minD maxD d e" for e
  proof -
    have "e \<noteq> d - 1" using that d(1) by (auto simp: done_diagonal_def on_round_def)
    then show ?thesis using that by (simp add: done_diagonal_def)
  qed
  have split: "done_diagonal D minD maxD (d + 2) e \<longleftrightarrow> e = d \<or> done_diagonal D minD maxD d e" for e
  proof -
    have "e = d" if "on_round (Suc D) e" "\<not> e < d" "e < d + 2"
      using on_round_next [OF d(1) that(1)] that by simp
    then show ?thesis using d by (auto simp: done_diagonal_def)
  qed
  have mono: "mn \<le> ?mn" "?mx \<le> mx" by auto
  have "\<exists>n. ?best e = Some n \<and> new_node old new D minD maxD e n \<and> narrowed old new ?mn ?mx e n \<and>
          \<not> (at_old_end old n \<and> at_new_end new e n)" if "done_diagonal D minD maxD (d + 2) e" for e
    using that unfolding split
  proof (elim disjE)
    assume "e = d"
    then show ?thesis using node by (auto simp: narrowed_def)
  next
    assume e: "done_diagonal D minD maxD d e"
    then obtain n where "best e = Some n" "new_node old new D minD maxD e n" "narrowed old new mn mx e n"
      "\<not> (at_old_end old n \<and> at_new_end new e n)"
      using inv unfolding round_inv_def by blast
    then show ?thesis using same [OF e] mono by (intro exI [of _ n]) (auto simp: narrowed_def)
  qed
  moreover have "?mn = min0 \<or> (\<exists>e n. done_diagonal D minD maxD (d + 2) e \<and> ?mn = e + 1 \<and> ?best e = Some n \<and> at_new_end new e n)"
  proof (cases "at_new_end new d node \<and> d + 1 > mn")
    case True
    then show ?thesis using split by (intro disjI2 exI [of _ d] exI [of _ node]) simp
  next
    case False
    have "mn = min0 \<or> (\<exists>e n. done_diagonal D minD maxD d e \<and> mn = e + 1 \<and> best e = Some n \<and> at_new_end new e n)"
      using inv unfolding round_inv_def by blast
    then show ?thesis unfolding if_not_P [OF False] using same split by metis
  qed
  moreover have "?mx = max0 \<or> (\<exists>e n. done_diagonal D minD maxD (d + 2) e \<and> ?mx = e - 1 \<and> ?best e = Some n \<and> at_old_end old n)"
  proof (cases "at_old_end old node \<and> d - 1 < mx")
    case True
    then show ?thesis using split by (intro disjI2 exI [of _ d] exI [of _ node]) simp
  next
    case False
    have "mx = max0 \<or> (\<exists>e n. done_diagonal D minD maxD d e \<and> mx = e - 1 \<and> best e = Some n \<and> at_old_end old n)"
      using inv unfolding round_inv_def by blast
    then show ?thesis unfolding if_not_P [OF False] using same split by metis
  qed
  moreover have "\<forall>j \<ge> d + 2 - 1. ?best j = best0 j" "\<forall>j. ?best j \<noteq> None \<longrightarrow> \<bar>j\<bar> \<le> int (Suc D)"
    "min0 \<le> ?mn" "?mx \<le> max0"
    using inv d(1) mono unfolding round_inv_def on_round_def by auto
  ultimately show ?thesis unfolding round_inv_def by blast
qed

lemma round_skip:
  assumes inv: "round_inv old new D minD maxD best0 min0 max0 d best mn mx"
    and d: "on_round (Suc D) d" "\<not> (minD \<le> d \<and> d \<le> maxD)"
  shows "round_inv old new D minD maxD best0 min0 max0 (d + 2) (best(d - 1 := None, d := None)) mn mx"
proof -
  let ?best = "best(d - 1 := None, d := None)"
  have same: "?best e = best e" if "done_diagonal D minD maxD d e" for e
  proof -
    have "e \<noteq> d - 1" using that d(1) by (auto simp: done_diagonal_def on_round_def)
    then show ?thesis using that by (simp add: done_diagonal_def)
  qed
  have split: "done_diagonal D minD maxD (d + 2) e \<longleftrightarrow> done_diagonal D minD maxD d e" for e
  proof -
    have "e = d" if "on_round (Suc D) e" "\<not> e < d" "e < d + 2"
      using on_round_next [OF d(1) that(1)] that by simp
    then show ?thesis using d by (auto simp: done_diagonal_def)
  qed
  have "\<forall>j \<ge> d + 2 - 1. ?best j = best0 j" "\<forall>j. ?best j \<noteq> None \<longrightarrow> \<bar>j\<bar> \<le> int (Suc D)"
    using inv d(1) unfolding round_inv_def by auto
  then show ?thesis
    using inv same unfolding round_inv_def split by (simp only: cong: conj_cong) (metis same)
qed

text \<open>A whole round: either a complete path of \<open>D + 1\<close> edits, or every diagonal of the round is done.\<close>

lemma diagonal_loop_round:
  assumes "search_inv old new D minD maxD best0"
    and "round_inv old new D minD maxD best0 min0 max0 d best mn mx"
    and "even (d - int (Suc D))" "- int (Suc D) \<le> d" "hi \<le> int (Suc D)"
    and "\<And>e. on_round (Suc D) e \<Longrightarrow> d \<le> e \<Longrightarrow> e \<le> hi \<Longrightarrow> \<not> (minD \<le> e \<and> e \<le> maxD) \<Longrightarrow> choose_path old new best0 e = None"
  shows "case diagonal_loop old new hi d best mn mx of
           Inl chain \<Rightarrow> covers old new chain (length old) (length new) \<and> edits chain = Suc D
         | Inr (best', mn', mx') \<Rightarrow>
             \<exists>d' > hi. round_inv old new D minD maxD best0 min0 max0 d' best' mn' mx'"
  using assms(2-)
proof (induction "nat (hi + 1 - d)" arbitrary: d best mn mx rule: less_induct)
  case less
  show ?case
  proof (cases "d > hi")
    case True
    then show ?thesis using less.prems(1) by (auto simp: diagonal_loop.simps [of old new hi d])
  next
    case False
    then have d: "on_round (Suc D) d" using less.prems by (auto simp: on_round_def)
    have agree: "best (d - 1) = best0 (d - 1)" "best (d + 1) = best0 (d + 1)"
      using less.prems(1) by (auto simp: round_inv_def)
    then have ch: "choose_path old new best d = choose_path old new best0 d"
      by (simp add: choose_path_def can_add_def can_remove_def)
    show ?thesis
    proof (cases "minD \<le> d \<and> d \<le> maxD")
      case True
      obtain base node where n: "choose_path old new best0 d = Some base"
        "extractCommon old new base d = (node, pn_oldPos node - d)" "new_node old new D minD maxD d node"
        using diagonal_new [OF assms(1) d] True by blast
      have loop: "diagonal_loop old new hi d best mn mx =
          (if at_old_end old node \<and> at_new_end new d node then Inl (pn_last node)
           else diagonal_loop old new hi (d + 2) (best(d - 1 := None, d \<mapsto> node))
             (if at_new_end new d node \<and> d + 1 > mn then d + 1 else mn)
             (if at_old_end old node \<and> d - 1 < mx then d - 1 else mx))"
        using False by (subst diagonal_loop.simps) (simp add: ch n(1,2) at_old_end_def at_new_end_def Let_def)
      show ?thesis
      proof (cases "at_old_end old node \<and> at_new_end new d node")
        case True
        from n(3) have "node_ok old new (Suc D) d node" by (simp add: new_node_def)
        then obtain x y where c: "pn_oldPos node = int x - 1" "int x - int y = d" "covers old new (pn_last node) x y"
          "edits (pn_last node) = Suc D" "x \<le> length old" "y \<le> length new" by (rule node_okE)
        then have "x = length old" "y = length new" using True by (auto simp: at_old_end_def at_new_end_def)
        then show ?thesis using c True by (simp add: loop)
      next
        case nf: False
        have "round_inv old new D minD maxD best0 min0 max0 (d + 2) (best(d - 1 := None, d \<mapsto> node))
            (if at_new_end new d node \<and> d + 1 > mn then d + 1 else mn)
            (if at_old_end old node \<and> d - 1 < mx then d - 1 else mx)"
          using round_step [OF less.prems(1) d _ _ n(3) nf] True by blast
        then show ?thesis
          unfolding loop if_not_P [OF nf]
          by (intro less.hyps) (use False less.prems in auto)
      qed
    next
      case out: False
      have "choose_path old new best d = None"
        using less.prems(5) [OF d] False out ch by simp
      then have loop: "diagonal_loop old new hi d best mn mx =
          diagonal_loop old new hi (d + 2) (best(d - 1 := None, d := None)) mn mx"
        using False by (subst diagonal_loop.simps) (simp add: Let_def)
      show ?thesis
        unfolding loop
        by (intro less.hyps round_skip [OF less.prems(1) d out]) (use False less.prems in auto)
    qed
  qed
qed

lemma round_end:
  assumes inv: "search_inv old new D minD maxD best0"
    and rnd: "round_inv old new D minD maxD best0 min0 max0 d best mn mx"
    and hi: "min max0 (int (Suc D)) < d"
    and bounds: "min0 = minD \<or> min0 = - diagonal_sentinel" "max0 = maxD \<or> max0 = diagonal_sentinel"
    and fits: "int (Suc D) \<le> diagonal_sentinel" "int (length old + length new) \<le> diagonal_sentinel"
  shows "search_inv old new (Suc D) mn mx best"
proof -
  have rng: "minD = - diagonal_sentinel \<or> on_round D (minD - 1)" "maxD = diagonal_sentinel \<or> on_round D (maxD + 1)"
    using search_invD(3,4) [OF inv] by (auto simp: lower_ok_def upper_ok_def)
  have all_done: "done_diagonal D minD maxD d e" if "on_round (Suc D) e" "minD \<le> e" "e \<le> maxD" for e
  proof -
    have "e \<le> int (Suc D)" using that(1) abs_le_D1 unfolding on_round_def by blast
    moreover have "maxD \<le> max0" using bounds(2) rng(2) fits(1) by (auto simp: on_round_def)
    ultimately show ?thesis using that hi by (auto simp: done_diagonal_def)
  qed
  have node: "\<exists>node. best e = Some node \<and> new_node old new D minD maxD e node \<and> narrowed old new mn mx e node \<and>
      \<not> (at_old_end old node \<and> at_new_end new e node)" if "done_diagonal D minD maxD d e" for e
    using rnd that unfolding round_inv_def by blast
  have mn: "mn = min0 \<or> (\<exists>e node. done_diagonal D minD maxD d e \<and> mn = e + 1 \<and> best e = Some node \<and> at_new_end new e node)"
    and mx: "mx = max0 \<or> (\<exists>e node. done_diagonal D minD maxD d e \<and> mx = e - 1 \<and> best e = Some node \<and> at_old_end old node)"
    and mono: "min0 \<le> mn" "mx \<le> max0"
    using rnd unfolding round_inv_def by blast+
  have goal: "minD \<le> maxD" using search_invD(5,6) [OF inv] by linarith
  have min_moves: "minD + 1 \<le> mn" if "minD \<noteq> - diagonal_sentinel"
  proof -
    have "on_round (Suc D) minD" using rng(1) that by (auto simp: on_round_def)
    then obtain n where "new_node old new D minD maxD minD n" "narrowed old new mn mx minD n"
      using node all_done goal by blast
    then show ?thesis using that by (auto simp: new_node_def narrowed_def)
  qed
  have max_moves: "mx \<le> maxD - 1" if "maxD \<noteq> diagonal_sentinel"
  proof -
    have "on_round (Suc D) maxD" using rng(2) that by (auto simp: on_round_def)
    then obtain n where "new_node old new D minD maxD maxD n" "narrowed old new mn mx maxD n"
      using node all_done goal by blast
    then show ?thesis using that by (auto simp: new_node_def narrowed_def)
  qed
  have mn': "mn = - diagonal_sentinel \<or> (\<exists>e node. done_diagonal D minD maxD d e \<and> mn = e + 1 \<and> best e = Some node \<and> at_new_end new e node)"
    using mn bounds(1) min_moves by auto
  have mx': "mx = diagonal_sentinel \<or> (\<exists>e node. done_diagonal D minD maxD d e \<and> mx = e - 1 \<and> best e = Some node \<and> at_old_end old node)"
    using mx bounds(2) max_moves by auto
  have pop: "populated old new (Suc D) mn mx best"
    unfolding populated_def
  proof (intro allI impI)
    fix e assume e: "on_round (Suc D) e" "mn - 1 \<le> e" "e \<le> mx + 1"
    have "minD \<le> e" using min_moves e fits(1) by (cases "minD = - diagonal_sentinel") (auto simp: on_round_def)
    moreover have "e \<le> maxD" using max_moves e fits(1) by (cases "maxD = diagonal_sentinel") (auto simp: on_round_def)
    ultimately show "\<exists>node. best e = Some node \<and> node_ok old new (Suc D) e node \<and> furthest old new (Suc D) e node \<and>
        narrowed old new mn mx e node"
      using node all_done e(1) unfolding new_node_def by blast
  qed
  have goal_min: "mn \<le> goal_diagonal old new"
    using mn'
  proof (elim disjE exE conjE)
    fix e n assume e: "done_diagonal D minD maxD d e" "mn = e + 1" "best e = Some n" "at_new_end new e n"
    then have "node_ok old new (Suc D) e n" "\<not> at_old_end old n"
      using node [OF e(1)] by (auto simp: new_node_def)
    then show ?thesis
      using e by (auto elim!: node_okE simp: at_old_end_def at_new_end_def goal_diagonal_def)
  qed (use fits(2) in \<open>simp add: goal_diagonal_def\<close>)
  have goal_max: "goal_diagonal old new \<le> mx"
    using mx'
  proof (elim disjE exE conjE)
    fix e n assume e: "done_diagonal D minD maxD d e" "mx = e - 1" "best e = Some n" "at_old_end old n"
    then have "node_ok old new (Suc D) e n" "\<not> at_new_end new e n"
      using node [OF e(1)] by (auto simp: new_node_def)
    then show ?thesis
      using e by (auto elim!: node_okE simp: at_old_end_def at_new_end_def goal_diagonal_def)
  qed (use fits(2) in \<open>simp add: goal_diagonal_def\<close>)
  have "lower_ok new (Suc D) mn best" "upper_ok old (Suc D) mx best"
    using mn' mx' by (auto simp: lower_ok_def upper_ok_def done_diagonal_def)
  moreover have "\<forall>j. best j \<noteq> None \<longrightarrow> \<bar>j\<bar> \<le> int (Suc D)" using rnd unfolding round_inv_def by blast
  moreover have "\<forall>k \<le> Suc D. \<not> edit_script old new k (length old) (length new)"
    using populated_no_script [OF pop goal_min goal_max] search_invD(7) [OF inv] le_Suc_eq by blast
  ultimately show ?thesis using pop goal_min goal_max by (simp add: search_inv_def)
qed

text \<open>The search from one round on finds a shortest script before the bound on its length is reached.\<close>

lemma edit_loop_finds:
  assumes "search_inv old new D minD maxD best"
    and "min0 = minD \<or> min0 = - diagonal_sentinel" "max0 = maxD \<or> max0 = diagonal_sentinel"
    and "int (length old + length new) \<le> diagonal_sentinel"
    and "\<And>e. on_round (Suc D) e \<Longrightarrow> min0 \<le> e \<Longrightarrow> e \<le> max0 \<Longrightarrow> \<not> (minD \<le> e \<and> e \<le> maxD) \<Longrightarrow> choose_path old new best e = None"
  shows "\<exists>chain. edit_loop old new (Suc D) best min0 max0 = Some chain \<and> covers old new chain (length old) (length new) \<and>
           (\<forall>k. edit_script old new k (length old) (length new) \<longrightarrow> edits chain \<le> k)"
  using assms
proof (induction "length old + length new - D" arbitrary: D minD maxD best min0 max0 rule: less_induct)
  case less
  note inv = less.prems(1)
  have lt: "D < length old + length new"
    using search_invD(7) [OF inv] edit_script_total [of old new] by (meson not_le)
  then have S: "int (Suc D) \<le> diagonal_sentinel" using less.prems(4) by linarith
  let ?lo = "max min0 (- int (Suc D))" and ?hi = "min max0 (int (Suc D))"
  have par: "even (?lo - int (Suc D))"
  proof (cases "min0 = - diagonal_sentinel")
    case True
    then show ?thesis using S by (simp add: max_def)
  next
    case False
    then have "min0 = minD" "on_round D (minD - 1)"
      using less.prems(2) search_invD(3) [OF inv] by (auto simp: lower_ok_def)
    then show ?thesis by (auto simp: on_round_def max_def)
  qed
  have none_done: "\<not> done_diagonal D minD maxD ?lo e" for e
  proof
    assume e: "done_diagonal D minD maxD ?lo e"
    then have "- int (Suc D) \<le> e" "e < ?lo" "minD \<le> e" by (auto simp: done_diagonal_def on_round_def)
    then show False using less.prems(2) S by auto
  qed
  have "\<forall>j. best j \<noteq> None \<longrightarrow> \<bar>j\<bar> \<le> int (Suc D)"
    using search_invD(2) [OF inv] by (metis int_Suc le_add_same_cancel1 linear order_trans zero_le_one add.commute)
  then have rnd: "round_inv old new D minD maxD best min0 max0 ?lo best min0 max0"
    unfolding round_inv_def using none_done by blast
  have res: "case diagonal_loop old new ?hi ?lo best min0 max0 of
           Inl chain \<Rightarrow> covers old new chain (length old) (length new) \<and> edits chain = Suc D
         | Inr (best', mn', mx') \<Rightarrow>
             \<exists>d' > ?hi. round_inv old new D minD maxD best min0 max0 d' best' mn' mx'"
    by (rule diagonal_loop_round [OF inv rnd par]) (use less.prems(5) in auto)
  have run: "edit_loop old new (Suc D) best min0 max0 =
      (case diagonal_loop old new ?hi ?lo best min0 max0 of
         Inl components \<Rightarrow> Some components
       | Inr (best', mn', mx') \<Rightarrow> edit_loop old new (Suc (Suc D)) best' mn' mx')"
  proof -
    have "\<not> length new + length old < Suc D" using lt by simp
    then show ?thesis by (subst edit_loop.simps) (simp only: if_False Suc_eq_plus1 [symmetric])
  qed
  show ?case
  proof (cases "diagonal_loop old new ?hi ?lo best min0 max0")
    case (Inl chain)
    have "Suc D \<le> k" if "edit_script old new k (length old) (length new)" for k
      using search_invD(7) [OF inv, of k] that not_less_eq_eq by blast
    then show ?thesis using res run Inl by auto
  next
    case (Inr r)
    obtain best' mn' mx' where r: "r = (best', mn', mx')" by (cases r) auto
    obtain d' where d': "?hi < d'" "round_inv old new D minD maxD best min0 max0 d' best' mn' mx'"
      using res Inr r by auto
    have inv': "search_inv old new (Suc D) mn' mx' best'"
      by (rule round_end [OF inv d'(2,1) less.prems(2,3) S less.prems(4)])
    show ?thesis
      unfolding run Inr r sum.case prod.case
      by (rule less.hyps [OF _ inv']) (use lt less.prems(4) in auto)
  qed
qed

theorem shortest_path_finds:
  assumes "length old + length new \<le> 2 ^ 30"
  shows "\<exists>chain. shortest_path old new = Some chain \<and> covers old new chain (length old) (length new) \<and>
           (\<forall>k. edit_script old new k (length old) (length new) \<longrightarrow> edits chain \<le> k)"
proof -
  let ?base = "\<lparr>pn_oldPos = - 1, pn_last = []\<rparr>"
  have base: "node_ok old new 0 0 ?base" by (simp add: node_ok_def edits_def)
  obtain node newPos where x: "extractCommon old new ?base 0 = (node, newPos)" by fastforce
  note spec = extractCommon_spec [OF base x]
  have far: "furthest old new 0 0 node" by (rule furthest_step [OF spec(1,4)]) auto
  have size: "int (length old + length new) \<le> diagonal_sentinel" using assms by (simp add: diagonal_sentinel_def)
  obtain p where p: "pn_oldPos node = int p - 1" "covers old new (pn_last node) p p" "edits (pn_last node) = 0"
    "p \<le> length old" "p \<le> length new"
    using spec(1) by (auto elim!: node_okE)
  have ends: "at_old_end old node \<longleftrightarrow> p = length old" "at_new_end new 0 node \<longleftrightarrow> p = length new"
    using p by (auto simp: at_old_end_def at_new_end_def)
  show ?thesis
  proof (cases "p = length old \<and> p = length new")
    case True
    then have "shortest_path old new = Some (pn_last node)"
      using x spec(2) p(1) by (simp add: shortest_path_def)
    then show ?thesis using True p by auto
  next
    case False
    then have run: "shortest_path old new = edit_loop old new (Suc 0) [0 \<mapsto> node] (- diagonal_sentinel) diagonal_sentinel"
      using x spec(2) p by (auto simp: shortest_path_def)
    let ?minD = "if p = length new then 1 else - diagonal_sentinel"
    let ?maxD = "if p = length old then - 1 else diagonal_sentinel"
    have S: "1 \<le> diagonal_sentinel" by (simp add: diagonal_sentinel_def)
    have goal: "?minD \<le> goal_diagonal old new" "goal_diagonal old new \<le> ?maxD"
      using False p(4,5) size by (auto simp: goal_diagonal_def)
    have pop: "populated old new 0 ?minD ?maxD [0 \<mapsto> node]"
      using spec(1) far S by (auto simp: populated_def on_round_def narrowed_def ends)
    have inv: "search_inv old new 0 ?minD ?maxD [0 \<mapsto> node]"
      unfolding search_inv_def
      using pop goal populated_no_script [OF pop goal] by (auto simp: lower_ok_def upper_ok_def on_round_def ends)
    show ?thesis
      unfolding run
    proof (rule edit_loop_finds [OF inv _ _ size])
      fix e assume e: "on_round (Suc 0) e" "\<not> (?minD \<le> e \<and> e \<le> ?maxD)"
      then have "\<bar>e\<bar> \<le> 1" "odd e" by (auto simp: on_round_def)
      then have "e = - 1 \<or> e = 0 \<or> e = 1" by arith
      then have "e = - 1 \<or> e = 1" using \<open>odd e\<close> by auto
      then show "choose_path old new [0 \<mapsto> node] e = None"
        using e False S p by (auto simp: choose_path_def can_add_def can_remove_def split: if_splits)
    qed auto
  qed
qed

section \<open>Tokens and components\<close>

text \<open>A token is a line with its newline; only the last one may be without.\<close>

fun line_tokens :: "string list \<Rightarrow> bool" where
  "line_tokens [] \<longleftrightarrow> True"
| "line_tokens [t] \<longleftrightarrow> t \<noteq> [] \<and> newline \<notin> set (butlast t)"
| "line_tokens (t # ts) \<longleftrightarrow> t \<noteq> [] \<and> newline \<notin> set (butlast t) \<and> last t = newline \<and> line_tokens ts"

fun line_split :: "string \<Rightarrow> string \<Rightarrow> string list" where
  "line_split seg [] = (if seg = [] then [] else [seg])"
| "line_split seg (c # s) = (if c = newline then (seg @ [c]) # line_split [] s else line_split (seg @ [c]) s)"

lemma split_newlines_not_Nil: "split_newlines seg s \<noteq> []"
  by (induction seg s rule: split_newlines.induct) auto

lemma tokens_split: "merge_parts (let parts = split_newlines seg s in if parts \<noteq> [] \<and> last parts = [] then butlast parts else parts)
    = line_split seg s"
proof (induction seg s rule: split_newlines.induct)
  case (2 seg c s)
  obtain q qs where q: "split_newlines [] s = q # qs" using split_newlines_not_Nil by (meson neq_Nil_conv)
  show ?case
  proof (cases "c = newline")
    case True
    have drop_last: "merge_parts (if a # b # ps \<noteq> [] \<and> last (a # b # ps) = [] then butlast (a # b # ps) else a # b # ps)
        = (a @ b) # merge_parts (if ps \<noteq> [] \<and> last ps = [] then butlast ps else ps)" if "ps \<noteq> []" for a b :: string and ps
      using that by auto
    have "butlast seg @ [carriage, newline] = seg @ [newline]" if "seg \<noteq> []" "last seg = carriage"
      using that by (metis append_Cons append_assoc append_Nil append_butlast_last_id)
    then show ?thesis
      using 2 True drop_last [OF split_newlines_not_Nil] by (auto simp: Let_def)
  qed (use 2 in simp)
qed simp

lemma tokenizeLines_split: "tokenizeLines s = line_split [] s"
  using tokens_split [of "[]" s] by (simp add: tokenizeLines_def splitOnNewlines_def Let_def)

lemma line_split_concat: "concat (line_split seg s) = seg @ s"
  by (induction seg s rule: line_split.induct) auto

lemma tokenizeLines_concat [simp]: "concat (tokenizeLines s) = s"
  by (simp add: tokenizeLines_split line_split_concat)

lemma line_split_tokens: "newline \<notin> set seg \<Longrightarrow> line_tokens (line_split seg s)"
proof (induction seg s rule: line_split.induct)
  case (1 seg)
  then show ?case by (auto dest: in_set_butlastD)
next
  case (2 seg c s)
  then show ?case by (cases "line_split [] s") auto
qed

lemma line_split_skip: "newline \<notin> set t \<Longrightarrow> line_split seg (t @ s) = line_split (seg @ t) s"
  by (induction t arbitrary: seg) auto

lemma line_split_id: "line_tokens ts \<Longrightarrow> line_split [] (concat ts) = ts"
proof (induction ts rule: line_tokens.induct)
  case (2 t)
  obtain t' c where t: "t = t' @ [c]" "newline \<notin> set t'"
    using 2 by (cases t rule: rev_cases) auto
  show ?case using t(2) unfolding t(1) by (simp add: line_split_skip)
next
  case (3 t u ts)
  obtain t' where t: "t = t' @ [newline]" "newline \<notin> set t'"
    using 3(2) by (cases t rule: rev_cases) auto
  have "line_split [] (t' @ newline # concat (u # ts)) = (t' @ [newline]) # line_split [] (concat (u # ts))"
    using t(2) by (subst line_split_skip) auto
  then show ?case using 3 by (simp add: t(1))
qed simp

lemma line_tokens_drop: "line_tokens ts \<Longrightarrow> line_tokens (drop n ts)"
proof (induction n arbitrary: ts)
  case (Suc n)
  then show ?case by (cases ts rule: line_tokens.cases) auto
qed simp

lemma line_tokens_take: "line_tokens ts \<Longrightarrow> line_tokens (take n ts)"
proof (induction ts arbitrary: n rule: line_tokens.induct)
  case (3 t u ts)
  show ?case
  proof (cases n)
    case (Suc m)
    then show ?thesis using 3 by (cases m) (auto dest: 3(1) [of m])
  qed simp
qed (auto simp: take_Cons split: nat.split)

lemma tokenizeLines_piece:
  "tokenizeLines (concat (take n (drop p (tokenizeLines s)))) = take n (drop p (tokenizeLines s))"
  unfolding tokenizeLines_split
  by (intro line_split_id line_tokens_take line_tokens_drop line_split_tokens) simp

section \<open>The components of a path\<close>

definition old_count :: "diffPathComponent list \<Rightarrow> nat" where
  "old_count cs = sum_list (map (\<lambda>c. if pc_added c \<and> \<not> pc_removed c then 0 else pc_count c) cs)"

definition new_count :: "diffPathComponent list \<Rightarrow> nat" where
  "new_count cs = sum_list (map (\<lambda>c. if pc_removed c then 0 else pc_count c) cs)"

lemma materialize_append:
  "materialize (cs @ ds) new old p q =
     materialize cs new old p q @ materialize ds new old (p + new_count cs) (q + old_count cs)"
  by (induction cs arbitrary: p q) (auto simp: new_count_def old_count_def add.assoc)

lemma covers_counts: "covers old new chain x y \<Longrightarrow> old_count chain = x \<and> new_count chain = y"
  by (induction chain arbitrary: x y) (auto simp: old_count_def new_count_def split: if_splits)

lemma count_rev [simp]: "old_count (rev cs) = old_count cs" "new_count (rev cs) = new_count cs"
  by (simp_all add: old_count_def new_count_def rev_map [symmetric] sum_list_rev)

definition old_text :: "diffComponent list \<Rightarrow> string" where
  "old_text cs = concat (map dc_value (filter (\<lambda>c. \<not> dc_added c) cs))"

definition new_text :: "diffComponent list \<Rightarrow> string" where
  "new_text cs = concat (map dc_value (filter (\<lambda>c. \<not> dc_removed c) cs))"

definition changed_lines :: "diffComponent list \<Rightarrow> nat" where
  "changed_lines cs = sum_list (map (\<lambda>c. if dc_added c \<or> dc_removed c then length (tokenizeLines (dc_value c)) else 0) cs)"

lemma take_piece: "n \<le> x \<Longrightarrow> x \<le> length xs \<Longrightarrow> take x xs = take (x - n) xs @ take n (drop (x - n) xs)"
  by (metis le_add_diff_inverse2 take_add)

lemma covers_texts:
  assumes "covers old new chain x y"
  shows "old_text (buildDiffValues chain new old) = concat (take x old) \<and>
         new_text (buildDiffValues chain new old) = concat (take y new)"
  using assms
proof (induction chain arbitrary: x y)
  case Nil
  then show ?case by (simp add: buildDiffValues_def old_text_def new_text_def)
next
  case (Cons c cs)
  have build: "buildDiffValues (c # cs) new old = buildDiffValues cs new old @ materialize [c] new old (new_count cs) (old_count cs)"
    by (simp add: buildDiffValues_def materialize_append)
  have bounds: "x \<le> length old" "y \<le> length new" using Cons.prems by auto
  consider "pc_removed c" "\<not> pc_added c" | "\<not> pc_removed c" "pc_added c" | "\<not> pc_removed c" "\<not> pc_added c"
    using Cons.prems by (auto split: if_splits)
  then show ?case
  proof cases
    case 1
    then have c: "pc_count c \<le> x" "covers old new cs (x - pc_count c) y" using Cons.prems by auto
    show ?thesis
      using 1 Cons.IH [OF c(2)] covers_counts [OF c(2)] take_piece [OF c(1) bounds(1)]
      by (simp add: build old_text_def new_text_def)
  next
    case 2
    then have c: "pc_count c \<le> y" "covers old new cs x (y - pc_count c)" using Cons.prems by auto
    show ?thesis
      using 2 Cons.IH [OF c(2)] covers_counts [OF c(2)] take_piece [OF c(1) bounds(2)]
      by (simp add: build old_text_def new_text_def)
  next
    case 3
    then have c: "pc_count c \<le> x" "pc_count c \<le> y" "covers old new cs (x - pc_count c) (y - pc_count c)"
      "take (pc_count c) (drop (x - pc_count c) old) = take (pc_count c) (drop (y - pc_count c) new)"
      using Cons.prems by auto
    show ?thesis
      using 3 Cons.IH [OF c(3)] covers_counts [OF c(3)] take_piece [OF c(1) bounds(1)] take_piece [OF c(2) bounds(2)] c(4)
      by (simp add: build old_text_def new_text_def)
  qed
qed

lemma covers_changed:
  assumes "covers (tokenizeLines a) (tokenizeLines b) chain x y"
  shows "changed_lines (buildDiffValues chain (tokenizeLines b) (tokenizeLines a)) = edits chain"
  using assms
proof (induction chain arbitrary: x y)
  case Nil
  then show ?case by (simp add: buildDiffValues_def changed_lines_def edits_def)
next
  case (Cons c cs)
  let ?old = "tokenizeLines a" and ?new = "tokenizeLines b"
  have build: "buildDiffValues (c # cs) ?new ?old = buildDiffValues cs ?new ?old @ materialize [c] ?new ?old (new_count cs) (old_count cs)"
    by (simp add: buildDiffValues_def materialize_append)
  have bounds: "x \<le> length ?old" "y \<le> length ?new" using Cons.prems by auto
  obtain x' y' where rest: "covers ?old ?new cs x' y'" "pc_removed c \<longrightarrow> x' + pc_count c = x"
      "\<not> pc_removed c \<longrightarrow> y' + pc_count c = y"
    using Cons.prems by (auto split: if_splits)
  have "length (take (pc_count c) (drop x' ?old)) = pc_count c" if "pc_removed c" using that rest bounds by simp
  moreover have "length (take (pc_count c) (drop y' ?new)) = pc_count c" if "\<not> pc_removed c" using that rest bounds by simp
  ultimately show ?case
    using Cons.IH [OF rest(1)] covers_counts [OF rest(1)]
    by (auto simp: build changed_lines_def edits_def tokenizeLines_piece)
qed

section \<open>The diff is total, faithful and minimal\<close>

text \<open>
  C32
  The search for an edit script always ends with one: \<^verbatim>\<open>computeLineDiff\<close> never falls through its loop to the panic after it. The bound
  on the lines is where the range of diagonals meets the sentinel of the code.
\<close>

theorem line_diff_total:
  assumes "length (tokenizeLines a) + length (tokenizeLines b) \<le> 2 ^ 30"
  shows "computeLineDiff a b \<noteq> None"
  using shortest_path_finds [OF assms] by (auto simp: computeLineDiff_def Let_def)

text \<open>
  C33
  A diff loses nothing: its unchanged and removed components, in order, make up the old text, and its
  unchanged and added components the new one.
\<close>

theorem line_diff_reconstructs:
  assumes "length (tokenizeLines a) + length (tokenizeLines b) \<le> 2 ^ 30" "computeLineDiff a b = Some cs"
  shows "old_text cs = a \<and> new_text cs = b"
proof -
  obtain chain where c: "shortest_path (tokenizeLines a) (tokenizeLines b) = Some chain"
    "covers (tokenizeLines a) (tokenizeLines b) chain (length (tokenizeLines a)) (length (tokenizeLines b))"
    using shortest_path_finds [OF assms(1)] by blast
  then show ?thesis
    using assms(2) covers_texts [OF c(2)] by (simp add: computeLineDiff_def Let_def)
qed

text \<open>
  C8
  A diff is the shortest there is: the number of lines it removes and adds is the least number of any edit
  script that turns the old lines into the new ones.
\<close>

theorem line_diff_minimal:
  assumes "length (tokenizeLines a) + length (tokenizeLines b) \<le> 2 ^ 30" "computeLineDiff a b = Some cs"
  shows "changed_lines cs = (LEAST k. edit_script (tokenizeLines a) (tokenizeLines b) k
            (length (tokenizeLines a)) (length (tokenizeLines b)))"
proof -
  obtain chain where c: "shortest_path (tokenizeLines a) (tokenizeLines b) = Some chain"
    "covers (tokenizeLines a) (tokenizeLines b) chain (length (tokenizeLines a)) (length (tokenizeLines b))"
    "\<forall>k. edit_script (tokenizeLines a) (tokenizeLines b) k (length (tokenizeLines a)) (length (tokenizeLines b)) \<longrightarrow>
       edits chain \<le> k"
    using shortest_path_finds [OF assms(1)] by blast
  have "changed_lines cs = edits chain"
    using assms(2) c(1) covers_changed [OF c(2)] by (auto simp: computeLineDiff_def Let_def)
  then show ?thesis
    using covers_edit_script [OF c(2)] c(3) by (metis (no_types, lifting) Least_equality)
qed

definition demo_old :: string where
  "demo_old = ''a'' @ newline # ''b'' @ newline # ''c'' @ [newline]"

definition demo_new :: string where
  "demo_new = ''a'' @ newline # ''x'' @ newline # ''c'' @ [newline]"

lemma demo_tokens:
  "tokenizeLines demo_old = [''a'' @ [newline], ''b'' @ [newline], ''c'' @ [newline]]"
  "tokenizeLines demo_new = [''a'' @ [newline], ''x'' @ [newline], ''c'' @ [newline]]"
  by (simp_all add: tokenizeLines_split demo_old_def demo_new_def)

lemma line_diff_total_witness: "computeLineDiff demo_old demo_new \<noteq> None"
  by (rule line_diff_total) (simp add: demo_tokens)

definition demo_diff :: "diffComponent list" where
  "demo_diff = [\<lparr>dc_value = ''a'' @ [newline], dc_added = False, dc_removed = False\<rparr>,
     \<lparr>dc_value = ''b'' @ [newline], dc_added = False, dc_removed = True\<rparr>,
     \<lparr>dc_value = ''x'' @ [newline], dc_added = True, dc_removed = False\<rparr>,
     \<lparr>dc_value = ''c'' @ [newline], dc_added = False, dc_removed = False\<rparr>]"

lemma demo_computed: "computeLineDiff demo_old demo_new = Some demo_diff"
  by (simp add: computeLineDiff_def demo_tokens shortest_path_def extractCommon_def common_run.simps edit_loop.simps
      diagonal_loop.simps choose_path_def can_add_def can_remove_def addToPath_def diagonal_sentinel_def
      buildDiffValues_def demo_diff_def Let_def eval_nat_numeral)

lemma line_diff_reconstructs_witness: "old_text demo_diff = demo_old \<and> new_text demo_diff = demo_new"
  by (rule line_diff_reconstructs [OF _ demo_computed]) (simp add: demo_tokens)

lemma line_diff_minimal_witness:
  "changed_lines demo_diff = (LEAST k. edit_script (tokenizeLines demo_old) (tokenizeLines demo_new) k
     (length (tokenizeLines demo_old)) (length (tokenizeLines demo_new)))"
  by (rule line_diff_minimal [OF _ demo_computed]) (simp add: demo_tokens)

text \<open>The components line by line: their lines are the tokens of the two texts, and none is empty.\<close>

definition old_lines :: "diffComponent list \<Rightarrow> string list" where
  "old_lines cs = concat (map (\<lambda>c. tokenizeLines (dc_value c)) (filter (\<lambda>c. \<not> dc_added c) cs))"

definition new_lines :: "diffComponent list \<Rightarrow> string list" where
  "new_lines cs = concat (map (\<lambda>c. tokenizeLines (dc_value c)) (filter (\<lambda>c. \<not> dc_removed c) cs))"

definition component_ok :: "diffComponent \<Rightarrow> bool" where
  "component_ok c \<longleftrightarrow> dc_value c \<noteq> [] \<and> \<not> (dc_added c \<and> dc_removed c)"

lemma token_not_Nil: "t \<in> set (tokenizeLines s) \<Longrightarrow> t \<noteq> []"
proof -
  have "t \<in> set (line_split seg s) \<Longrightarrow> t \<noteq> []" for seg
    by (induction seg s rule: line_split.induct) (auto split: if_splits)
  then show "t \<in> set (tokenizeLines s) \<Longrightarrow> ?thesis" by (simp add: tokenizeLines_split)
qed

lemma piece_not_Nil:
  "0 < n \<Longrightarrow> p + n \<le> length (tokenizeLines s) \<Longrightarrow> concat (take n (drop p (tokenizeLines s))) \<noteq> []"
proof
  assume n: "0 < n" "p + n \<le> length (tokenizeLines s)" and e: "concat (take n (drop p (tokenizeLines s))) = []"
  then have "tokenizeLines s ! p \<in> set (take n (drop p (tokenizeLines s)))"
    by (auto simp: set_conv_nth intro!: exI [of _ 0])
  then have "tokenizeLines s ! p = []" using e by (metis concat_eq_Nil_conv)
  moreover have "tokenizeLines s ! p \<in> set (tokenizeLines s)" using n by simp
  ultimately show False using token_not_Nil by blast
qed

lemma covers_lines:
  assumes "covers (tokenizeLines a) (tokenizeLines b) chain x y"
  shows "old_lines (buildDiffValues chain (tokenizeLines b) (tokenizeLines a)) = take x (tokenizeLines a) \<and>
         new_lines (buildDiffValues chain (tokenizeLines b) (tokenizeLines a)) = take y (tokenizeLines b) \<and>
         list_all component_ok (buildDiffValues chain (tokenizeLines b) (tokenizeLines a))"
  using assms
proof (induction chain arbitrary: x y)
  case Nil
  then show ?case by (simp add: buildDiffValues_def old_lines_def new_lines_def)
next
  case (Cons c cs)
  let ?old = "tokenizeLines a" and ?new = "tokenizeLines b"
  have build: "buildDiffValues (c # cs) ?new ?old = buildDiffValues cs ?new ?old @ materialize [c] ?new ?old (new_count cs) (old_count cs)"
    by (simp add: buildDiffValues_def materialize_append)
  have bounds: "x \<le> length ?old" "y \<le> length ?new" "0 < pc_count c" using Cons.prems by auto
  consider "pc_removed c" "\<not> pc_added c" | "\<not> pc_removed c" "pc_added c" | "\<not> pc_removed c" "\<not> pc_added c"
    using Cons.prems by (auto split: if_splits)
  then show ?case
  proof cases
    case 1
    then have c: "pc_count c \<le> x" "covers ?old ?new cs (x - pc_count c) y" using Cons.prems by auto
    show ?thesis
      using 1 Cons.IH [OF c(2)] covers_counts [OF c(2)] take_piece [OF c(1) bounds(1)] c(1) bounds
        piece_not_Nil [of "pc_count c" "x - pc_count c" a]
      by (simp add: build old_lines_def new_lines_def tokenizeLines_piece component_ok_def)
  next
    case 2
    then have c: "pc_count c \<le> y" "covers ?old ?new cs x (y - pc_count c)" using Cons.prems by auto
    show ?thesis
      using 2 Cons.IH [OF c(2)] covers_counts [OF c(2)] take_piece [OF c(1) bounds(2)] c(1) bounds
        piece_not_Nil [of "pc_count c" "y - pc_count c" b]
      by (simp add: build old_lines_def new_lines_def tokenizeLines_piece component_ok_def)
  next
    case 3
    then have c: "pc_count c \<le> x" "pc_count c \<le> y" "covers ?old ?new cs (x - pc_count c) (y - pc_count c)"
      "take (pc_count c) (drop (x - pc_count c) ?old) = take (pc_count c) (drop (y - pc_count c) ?new)"
      using Cons.prems by auto
    show ?thesis
      using 3 Cons.IH [OF c(3)] covers_counts [OF c(3)] take_piece [OF c(1) bounds(1)] take_piece [OF c(2) bounds(2)] c bounds
        piece_not_Nil [of "pc_count c" "y - pc_count c" b]
      by (simp add: build old_lines_def new_lines_def tokenizeLines_piece component_ok_def)
  qed
qed

lemma diff_lines:
  assumes "length (tokenizeLines a) + length (tokenizeLines b) \<le> 2 ^ 30" "computeLineDiff a b = Some cs"
  shows "old_lines cs = tokenizeLines a" "new_lines cs = tokenizeLines b" "list_all component_ok cs"
proof -
  obtain chain where c: "shortest_path (tokenizeLines a) (tokenizeLines b) = Some chain"
    "covers (tokenizeLines a) (tokenizeLines b) chain (length (tokenizeLines a)) (length (tokenizeLines b))"
    using shortest_path_finds [OF assms(1)] by blast
  then show "old_lines cs = tokenizeLines a" "new_lines cs = tokenizeLines b" "list_all component_ok cs"
    using assms(2) covers_lines [OF c(2)] by (simp_all add: computeLineDiff_def Let_def)
qed

end
