(* ===== verification/Edit_Text.thy ===== *)
theory Edit_Text
  imports Line_Diff Go_Utf8 "HOL-Library.Multiset"
begin

text \<open>
  The edit engine of tools/editdiff.go: line endings, the search for the text to replace with its
  fuzzy second attempt, and the application of the replacements. NFKC normalisation is a function of
  a package outside the repository: the parameter \<open>nfkc\<close>. A Go slice expression out of range is a
  run-time panic, here \<open>None\<close>.
\<close>

section \<open>Line endings and the byte order mark\<close>

abbreviation crlf :: string where
  "crlf \<equiv> [carriage, newline]"

definition DetectLineEnding :: "string \<Rightarrow> string" where
  "DetectLineEnding content =
     (case strings_index content [newline] of
        None \<Rightarrow> [newline]
      | Some lfIdx \<Rightarrow>
          (case strings_index content crlf of
             None \<Rightarrow> [newline]
           | Some crlfIdx \<Rightarrow> if crlfIdx < lfIdx then crlf else [newline]))"

definition NormalizeToLF :: "string \<Rightarrow> string" where
  "NormalizeToLF txt = replace_all (replace_all txt crlf [newline]) [carriage] [newline]"

definition RestoreLineEndings :: "string \<Rightarrow> string \<Rightarrow> string" where
  "RestoreLineEndings txt ending = (if ending = crlf then replace_all txt [newline] crlf else txt)"

definition bom :: string where
  "bom = [CHR 0xEF, CHR 0xBB, CHR 0xBF]"

definition StripBOM :: "string \<Rightarrow> string \<times> string" where
  "StripBOM content = (if has_prefix content bom then (bom, drop (length bom) content) else ([], content))"

section \<open>Fuzzy normalisation\<close>

text \<open>\<^verbatim>\<open>regexp.ReplaceAllString\<close> for a class of runes: ill-formed bytes match no class and are copied.\<close>

definition replace_runes :: "(nat \<Rightarrow> bool) \<Rightarrow> string \<Rightarrow> string \<Rightarrow> string" where
  "replace_runes cls s repl = concat (map (\<lambda>c. if cls (fst c) \<and> \<not> bad_chunk c then repl else snd c) (runes s))"

definition fuzzySmartSingleQuotes :: "nat \<Rightarrow> bool" where
  "fuzzySmartSingleQuotes r \<longleftrightarrow> r \<in> {0x2018, 0x2019, 0x201A, 0x201B}"

definition fuzzySmartDoubleQuotes :: "nat \<Rightarrow> bool" where
  "fuzzySmartDoubleQuotes r \<longleftrightarrow> r \<in> {0x201C, 0x201D, 0x201E, 0x201F}"

definition fuzzyDashes :: "nat \<Rightarrow> bool" where
  "fuzzyDashes r \<longleftrightarrow> r \<in> {0x2010, 0x2011, 0x2012, 0x2013, 0x2014, 0x2015, 0x2212}"

definition fuzzySpaces :: "nat \<Rightarrow> bool" where
  "fuzzySpaces r \<longleftrightarrow> r \<in> {0x00A0, 0x202F, 0x205F, 0x3000} \<or> 0x2002 \<le> r \<and> r \<le> 0x200A"

definition NormalizeForFuzzyMatch :: "(string \<Rightarrow> string) \<Rightarrow> string \<Rightarrow> string" where
  "NormalizeForFuzzyMatch nfkc txt =
     (let lines = map trim_right (split_on newline (nfkc txt));
          result = strings_join lines [newline];
          result = replace_runes fuzzySmartSingleQuotes result [CHR 0x27];
          result = replace_runes fuzzySmartDoubleQuotes result [CHR 0x22];
          result = replace_runes fuzzyDashes result ''-''
      in replace_runes fuzzySpaces result '' '')"

section \<open>Finding the text\<close>

record fuzzyMatchResult =
  fm_found :: bool
  fm_index :: int
  fm_matchLength :: nat
  fm_usedFuzzyMatch :: bool
  fm_contentForReplacement :: string

definition fuzzyFindText :: "(string \<Rightarrow> string) \<Rightarrow> string \<Rightarrow> string \<Rightarrow> fuzzyMatchResult" where
  "fuzzyFindText nfkc content oldText =
     (case strings_index content oldText of
        Some idx \<Rightarrow> \<lparr>fm_found = True, fm_index = int idx, fm_matchLength = length oldText,
                     fm_usedFuzzyMatch = False, fm_contentForReplacement = content\<rparr>
      | None \<Rightarrow>
          (let fuzzyContent = NormalizeForFuzzyMatch nfkc content; fuzzyOldText = NormalizeForFuzzyMatch nfkc oldText
           in case strings_index fuzzyContent fuzzyOldText of
                None \<Rightarrow> \<lparr>fm_found = False, fm_index = - 1, fm_matchLength = 0,
                         fm_usedFuzzyMatch = False, fm_contentForReplacement = content\<rparr>
              | Some idx \<Rightarrow> \<lparr>fm_found = True, fm_index = int idx, fm_matchLength = length fuzzyOldText,
                             fm_usedFuzzyMatch = True, fm_contentForReplacement = fuzzyContent\<rparr>))"

definition FuzzyFindText :: "(string \<Rightarrow> string) \<Rightarrow> string \<Rightarrow> string \<Rightarrow> int \<times> int \<times> bool" where
  "FuzzyFindText nfkc content oldText =
     (let m = fuzzyFindText nfkc content oldText
      in if \<not> fm_found m then (0, 0, False) else (fm_index m, fm_index m + int (fm_matchLength m), True))"

text \<open>\<^verbatim>\<open>strings.Count\<close>; an empty text is counted before every rune and at the end.\<close>

definition count_text :: "string \<Rightarrow> string \<Rightarrow> nat" where
  "count_text s sub = (if sub = [] then length (runes s) + 1 else strings_count s sub)"

definition countOccurrences :: "(string \<Rightarrow> string) \<Rightarrow> string \<Rightarrow> string \<Rightarrow> nat" where
  "countOccurrences nfkc content oldText =
     count_text (NormalizeForFuzzyMatch nfkc content) (NormalizeForFuzzyMatch nfkc oldText)"

section \<open>Lines and their spans\<close>

definition splitLinesWithEndings :: "string \<Rightarrow> string list" where
  "splitLinesWithEndings content = line_split [] content"

fun spans_from :: "nat \<Rightarrow> string list \<Rightarrow> (nat \<times> nat) list" where
  "spans_from offset [] = []"
| "spans_from offset (line # lines) = (offset, offset + length line) # spans_from (offset + length line) lines"

definition getLineSpans :: "string \<Rightarrow> (nat \<times> nat) list" where
  "getLineSpans content = spans_from 0 (splitLinesWithEndings content)"

record matchedEdit =
  me_editIndex :: nat
  me_matchIndex :: nat
  me_matchLength :: nat
  me_newText :: string

fun find_start_line :: "(nat \<times> nat) list \<Rightarrow> nat \<Rightarrow> nat \<Rightarrow> nat option" where
  "find_start_line [] i p = None"
| "find_start_line ((s, e) # lines) i p = (if s \<le> p \<and> p < e then Some i else find_start_line lines (Suc i) p)"

fun skip_lines :: "(nat \<times> nat) list \<Rightarrow> nat \<Rightarrow> nat" where
  "skip_lines [] p = 0"
| "skip_lines ((s, e) # lines) p = (if e < p then Suc (skip_lines lines p) else 0)"

definition outside_base :: err where
  "outside_base = errors_new ''Replacement range is outside the base content.''"

definition getReplacementLineRange :: "(nat \<times> nat) list \<Rightarrow> matchedEdit \<Rightarrow> (nat \<times> nat) + err" where
  "getReplacementLineRange lines r =
     (let replacementStart = me_matchIndex r; replacementEnd = me_matchIndex r + me_matchLength r
      in case find_start_line lines 0 replacementStart of
           None \<Rightarrow> Inr outside_base
         | Some startLine \<Rightarrow>
             (let endLine = startLine + skip_lines (drop startLine lines) replacementEnd
              in if endLine \<ge> length lines then Inr outside_base else Inl (startLine, endLine + 1)))"

section \<open>Applying replacements\<close>

text \<open>One replacement; \<open>None\<close> when a bound of the slices is outside the text.\<close>

definition replace_at :: "nat \<Rightarrow> matchedEdit \<Rightarrow> string \<Rightarrow> string option" where
  "replace_at offset r result =
     (if me_matchIndex r < offset \<or> length result < me_matchIndex r - offset + me_matchLength r then None
      else Some (take (me_matchIndex r - offset) result @ me_newText r
                 @ drop (me_matchIndex r - offset + me_matchLength r) result))"

fun applyReplacements :: "string \<Rightarrow> matchedEdit list \<Rightarrow> nat \<Rightarrow> string option" where
  "applyReplacements content [] offset = Some content"
| "applyReplacements content (r # rs) offset =
     (case applyReplacements content rs offset of None \<Rightarrow> None | Some result \<Rightarrow> replace_at offset r result)"

record replacementGroup =
  g_startLine :: nat
  g_endLine :: nat
  g_replacements :: "matchedEdit list"

text \<open>The groups are built in order; \<open>rev_groups\<close> holds them last one first.\<close>

fun build_groups :: "(nat \<times> nat) list \<Rightarrow> matchedEdit list \<Rightarrow> replacementGroup list \<Rightarrow> replacementGroup list + err" where
  "build_groups baseLines [] rev_groups = Inl (rev rev_groups)"
| "build_groups baseLines (r # rs) rev_groups =
     (case getReplacementLineRange baseLines r of
        Inr e \<Rightarrow> Inr e
      | Inl (startLine, endLine) \<Rightarrow>
          (case rev_groups of
             g # gs \<Rightarrow>
               if startLine < g_endLine g
               then build_groups baseLines rs
                      (g\<lparr>g_endLine := (if endLine > g_endLine g then endLine else g_endLine g),
                         g_replacements := g_replacements g @ [r]\<rparr> # gs)
               else build_groups baseLines rs
                      (\<lparr>g_startLine = startLine, g_endLine = endLine, g_replacements = [r]\<rparr> # g # gs)
           | [] \<Rightarrow> build_groups baseLines rs
                      [\<lparr>g_startLine = startLine, g_endLine = endLine, g_replacements = [r]\<rparr>]))"

fun write_groups :: "string list \<Rightarrow> string \<Rightarrow> (nat \<times> nat) list \<Rightarrow> replacementGroup list \<Rightarrow> nat \<Rightarrow> string option" where
  "write_groups originalLines baseContent baseLines [] originalLineIndex =
     Some (concat (drop originalLineIndex originalLines))"
| "write_groups originalLines baseContent baseLines (g # gs) originalLineIndex =
     (if g_startLine g < originalLineIndex then None
      else let groupStartOffset = fst (baseLines ! g_startLine g); groupEndOffset = snd (baseLines ! (g_endLine g - 1))
           in case applyReplacements (take (groupEndOffset - groupStartOffset) (drop groupStartOffset baseContent))
                     (g_replacements g) groupStartOffset of
                None \<Rightarrow> None
              | Some txt \<Rightarrow>
                  map_option
                    (\<lambda>rest. concat (take (g_startLine g - originalLineIndex) (drop originalLineIndex originalLines)) @ txt @ rest)
                    (write_groups originalLines baseContent baseLines gs (g_endLine g)))"

definition different_line_count :: err where
  "different_line_count =
     errors_new ''Cannot preserve unchanged lines because the base content has a different line count.''"

definition applyReplacementsPreservingUnchangedLines :: "string \<Rightarrow> string \<Rightarrow> matchedEdit list \<Rightarrow> (string + err) option" where
  "applyReplacementsPreservingUnchangedLines originalContent baseContent replacements =
     (let originalLines = splitLinesWithEndings originalContent; baseLines = getLineSpans baseContent
      in if length originalLines \<noteq> length baseLines then Some (Inr different_line_count)
         else case build_groups baseLines (sort_key me_matchIndex replacements) [] of
                Inr e \<Rightarrow> Some (Inr e)
              | Inl groups \<Rightarrow> map_option Inl (write_groups originalLines baseContent baseLines groups 0))"

section \<open>Edits\<close>

record Edit =
  ed_OldText :: string
  ed_NewText :: string

definition getNotFoundError :: "string \<Rightarrow> nat \<Rightarrow> nat \<Rightarrow> err" where
  "getNotFoundError path editIndex totalEdits =
     errors_new
       (if totalEdits = 1
        then ''Could not find the exact text in '' @ path @
             ''. The old text must match exactly including all whitespace and newlines.''
        else ''Could not find edits['' @ itoa_nat editIndex @ ''] in '' @ path @
             ''. The oldText must match exactly including all whitespace and newlines.'')"

definition getDuplicateError :: "string \<Rightarrow> nat \<Rightarrow> nat \<Rightarrow> nat \<Rightarrow> err" where
  "getDuplicateError path editIndex totalEdits occurrences =
     errors_new
       (if totalEdits = 1
        then ''Found '' @ itoa_nat occurrences @ '' occurrences of the text in '' @ path @
             ''. The text must be unique. Please provide more context to make it unique.''
        else ''Found '' @ itoa_nat occurrences @ '' occurrences of edits['' @ itoa_nat editIndex @ ''] in '' @ path @
             ''. Each oldText must be unique. Please provide more context to make it unique.'')"

definition getEmptyOldTextError :: "string \<Rightarrow> nat \<Rightarrow> nat \<Rightarrow> err" where
  "getEmptyOldTextError path editIndex totalEdits =
     errors_new
       (if totalEdits = 1 then ''oldText must not be empty in '' @ path @ ''.''
        else ''edits['' @ itoa_nat editIndex @ ''].oldText must not be empty in '' @ path @ ''.'')"

definition getNoChangeError :: "string \<Rightarrow> nat \<Rightarrow> err" where
  "getNoChangeError path totalEdits =
     errors_new
       (if totalEdits = 1
        then ''No changes made to '' @ path @ ''. The replacement produced identical content. This might indicate an issue with special characters or the text not existing as expected.''
        else ''No changes made to '' @ path @ ''. The replacements produced identical content.'')"

definition overlap_error :: "string \<Rightarrow> nat \<Rightarrow> nat \<Rightarrow> err" where
  "overlap_error path i j =
     errors_new (''edits['' @ itoa_nat i @ ''] and edits['' @ itoa_nat j @ ''] overlap in '' @ path @
       ''. Merge them into one edit or target disjoint regions.'')"

definition edit_input_invalid :: string where
  "edit_input_invalid = ''Edit tool input is invalid. edits must contain at least one replacement.''"

fun first_empty :: "Edit list \<Rightarrow> nat \<Rightarrow> nat option" where
  "first_empty [] i = None"
| "first_empty (e # es) i = (if ed_OldText e = [] then Some i else first_empty es (Suc i))"

text \<open>Locating every edit in the base content; the first that is missing or repeated is the error.\<close>

fun locate_edits :: "(string \<Rightarrow> string) \<Rightarrow> string \<Rightarrow> string \<Rightarrow> nat \<Rightarrow> nat \<Rightarrow> Edit list \<Rightarrow> matchedEdit list + err" where
  "locate_edits nfkc path base totalEdits i [] = Inl []"
| "locate_edits nfkc path base totalEdits i (e # es) =
     (let m = fuzzyFindText nfkc base (ed_OldText e); occurrences = countOccurrences nfkc base (ed_OldText e)
      in if \<not> fm_found m then Inr (getNotFoundError path i totalEdits)
         else if occurrences > 1 then Inr (getDuplicateError path i totalEdits occurrences)
         else case locate_edits nfkc path base totalEdits (Suc i) es of
                Inr err \<Rightarrow> Inr err
              | Inl ms \<Rightarrow> Inl (\<lparr>me_editIndex = i, me_matchIndex = nat (fm_index m), me_matchLength = fm_matchLength m,
                               me_newText = ed_NewText e\<rparr> # ms))"

fun find_overlap :: "matchedEdit list \<Rightarrow> (nat \<times> nat) option" where
  "find_overlap (p # c # ms) =
     (if me_matchIndex p + me_matchLength p > me_matchIndex c then Some (me_editIndex p, me_editIndex c)
      else find_overlap (c # ms))"
| "find_overlap _ = None"

definition normalize_edit :: "Edit \<Rightarrow> Edit" where
  "normalize_edit e = \<lparr>ed_OldText = NormalizeToLF (ed_OldText e), ed_NewText = NormalizeToLF (ed_NewText e)\<rparr>"

definition uses_fuzzy :: "(string \<Rightarrow> string) \<Rightarrow> string \<Rightarrow> Edit list \<Rightarrow> bool" where
  "uses_fuzzy nfkc content es = list_ex (\<lambda>e. fm_usedFuzzyMatch (fuzzyFindText nfkc content (ed_OldText e))) es"

text \<open>\<open>None\<close> is a panic; \<open>Inl\<close> the base content and the new content.\<close>

definition ApplyEditsToNormalizedContent :: "(string \<Rightarrow> string) \<Rightarrow> string \<Rightarrow> Edit list \<Rightarrow> string \<Rightarrow>
    ((string \<times> string) + err) option" where
  "ApplyEditsToNormalizedContent nfkc content editList path =
     (if editList = [] then Some (Inr (errors_new edit_input_invalid))
      else let normalizedEdits = map normalize_edit editList; totalEdits = length normalizedEdits in
        case first_empty normalizedEdits 0 of
          Some i \<Rightarrow> Some (Inr (getEmptyOldTextError path i totalEdits))
        | None \<Rightarrow>
            (let usedFuzzyMatch = uses_fuzzy nfkc content normalizedEdits;
                 base = (if usedFuzzyMatch then NormalizeForFuzzyMatch nfkc content else content)
             in case locate_edits nfkc path base totalEdits 0 normalizedEdits of
                  Inr e \<Rightarrow> Some (Inr e)
                | Inl ms \<Rightarrow>
                    (let matchedEdits = sort_key me_matchIndex ms in
                     case find_overlap matchedEdits of
                       Some (i, j) \<Rightarrow> Some (Inr (overlap_error path i j))
                     | None \<Rightarrow>
                         (case (if usedFuzzyMatch
                                then applyReplacementsPreservingUnchangedLines content base matchedEdits
                                else map_option Inl (applyReplacements base matchedEdits 0)) of
                            None \<Rightarrow> None
                          | Some (Inr e) \<Rightarrow> Some (Inr e)
                          | Some (Inl newContent) \<Rightarrow>
                              if content = newContent then Some (Inr (getNoChangeError path totalEdits))
                              else Some (Inl (content, newContent))))))"

section \<open>Line endings round trip\<close>

definition expand_char :: "char \<Rightarrow> string \<Rightarrow> string \<Rightarrow> string" where
  "expand_char a r s = concat (map (\<lambda>c. if c = a then r else [c]) s)"

lemma replace_all_char: "replace_all s [a] r = expand_char a r s"
proof -
  have "replace_from 0 [a] r s = expand_char a r s"
    by (induction s) (auto simp: expand_char_def)
  then show ?thesis by (simp add: replace_all_def)
qed

lemma expand_char_simps [simp]:
  "expand_char a r [] = []" "expand_char a r (c # s) = (if c = a then r else [c]) @ expand_char a r s"
  by (simp_all add: expand_char_def)

lemma expand_char_id: "a \<notin> set s \<Longrightarrow> expand_char a r s = s"
  by (induction s) auto

text \<open>A text of one kind of line ending: bare newlines only, or every newline after a carriage return.\<close>

definition uniform_endings :: "string \<Rightarrow> bool" where
  "uniform_endings s \<longleftrightarrow> carriage \<notin> set s \<or> (\<exists>t. carriage \<notin> set t \<and> s = expand_char newline crlf t)"

lemma collapse_crlf: "carriage \<notin> set t \<Longrightarrow> replace_all (expand_char newline crlf t) crlf [newline] = t"
proof -
  have "carriage \<notin> set t \<Longrightarrow> replace_from 0 crlf [newline] (expand_char newline crlf t) = t"
    by (induction t) auto
  then show "carriage \<notin> set t \<Longrightarrow> ?thesis" by (simp add: replace_all_def)
qed

lemma no_crlf: "carriage \<notin> set s \<Longrightarrow> replace_all s crlf [newline] = s"
proof -
  have "carriage \<notin> set s \<Longrightarrow> replace_from 0 crlf [newline] s = s" by (induction s) auto
  then show "carriage \<notin> set s \<Longrightarrow> ?thesis" by (simp add: replace_all_def)
qed

lemma index_newline_None: "strings_index s [c] = None \<longleftrightarrow> c \<notin> set s"
  by (induction s) auto

lemma index_crlf_None: "carriage \<notin> set s \<Longrightarrow> strings_index s crlf = None"
  by (induction s) auto

lemma detect_crlf: "carriage \<notin> set t \<Longrightarrow> newline \<in> set t \<Longrightarrow> DetectLineEnding (expand_char newline crlf t) = crlf"
proof -
  have "carriage \<notin> set t \<Longrightarrow> newline \<in> set t \<Longrightarrow>
      \<exists>i. strings_index (expand_char newline crlf t) crlf = Some i \<and>
          strings_index (expand_char newline crlf t) [newline] = Some (Suc i)"
    by (induction t) auto
  then show "carriage \<notin> set t \<Longrightarrow> newline \<in> set t \<Longrightarrow> ?thesis" by (auto simp: DetectLineEnding_def)
qed

lemma detect_lf: "carriage \<notin> set s \<Longrightarrow> DetectLineEnding s = [newline]"
  by (simp add: DetectLineEnding_def index_crlf_None split: option.split)

lemma NormalizeToLF_id: "carriage \<notin> set s \<Longrightarrow> NormalizeToLF s = s"
  by (simp add: NormalizeToLF_def no_crlf replace_all_char expand_char_id)

lemma NormalizeToLF_no_carriage: "carriage \<notin> set (NormalizeToLF s)"
proof -
  have "carriage \<notin> set (expand_char carriage [newline] t)" for t by (induction t) auto
  then show ?thesis by (simp add: NormalizeToLF_def replace_all_char)
qed

text \<open>
  A text whose line endings are all of one kind, newlines or carriage return and newline, comes back
  unchanged when its endings are normalized and then restored to the kind detected.
\<close>

theorem line_endings_roundtrip:
  assumes "uniform_endings s"
  shows "RestoreLineEndings (NormalizeToLF s) (DetectLineEnding s) = s"
  using assms unfolding uniform_endings_def
proof (elim disjE exE conjE)
  assume "carriage \<notin> set s"
  then show ?thesis by (simp add: RestoreLineEndings_def detect_lf NormalizeToLF_id)
next
  fix t assume t: "carriage \<notin> set t" "s = expand_char newline crlf t"
  have n: "NormalizeToLF s = t"
    using t by (simp add: NormalizeToLF_def collapse_crlf replace_all_char expand_char_id)
  show ?thesis
  proof (cases "newline \<in> set t")
    case True
    then show ?thesis using t n by (simp add: RestoreLineEndings_def detect_crlf replace_all_char)
  next
    case False
    then show ?thesis using t n by (simp add: expand_char_id detect_lf RestoreLineEndings_def)
  qed
qed

lemma line_endings_roundtrip_witness:
  "RestoreLineEndings (NormalizeToLF (''a'' @ crlf @ ''b'')) (DetectLineEnding (''a'' @ crlf @ ''b'')) = ''a'' @ crlf @ ''b''"
  by (rule line_endings_roundtrip)
    (auto simp: uniform_endings_def intro!: exI [of _ "''a'' @ newline # ''b''"])

text \<open>A text that mixes the two endings is rewritten on every line, whatever the edit touches.\<close>

lemma mixed_endings_rewritten:
  "RestoreLineEndings (NormalizeToLF (''a'' @ crlf @ ''b'' @ newline # ''c'')) (DetectLineEnding (''a'' @ crlf @ ''b'' @ newline # ''c''))
     = ''a'' @ crlf @ ''b'' @ crlf @ ''c''"
  by (simp add: NormalizeToLF_def DetectLineEnding_def RestoreLineEndings_def replace_all_def)

section \<open>Replacing disjoint regions\<close>

text \<open>Gaps with texts between them: one more gap than texts.\<close>

fun weave :: "string list \<Rightarrow> string list \<Rightarrow> string" where
  "weave (u # us) (m # ms) = u @ m @ weave us ms"
| "weave us ms = concat us"

text \<open>The regions of the matches lie one after the other between two offsets.\<close>

fun disjoint_regions :: "nat \<Rightarrow> matchedEdit list \<Rightarrow> nat \<Rightarrow> bool" where
  "disjoint_regions lo [] hi \<longleftrightarrow> lo \<le> hi"
| "disjoint_regions lo (m # ms) hi \<longleftrightarrow> lo \<le> me_matchIndex m \<and> disjoint_regions (me_matchIndex m + me_matchLength m) ms hi"

definition region :: "string \<Rightarrow> nat \<Rightarrow> matchedEdit \<Rightarrow> string" where
  "region content offset m = take (me_matchLength m) (drop (me_matchIndex m - offset) content)"

lemma disjoint_regions_le: "disjoint_regions lo ms hi \<Longrightarrow> lo \<le> hi"
  by (induction lo ms hi rule: disjoint_regions.induct) auto

lemma drop_split: "a \<le> b \<Longrightarrow> drop a xs = take (b - a) (drop a xs) @ drop b xs"
  by (metis append_take_drop_id drop_drop le_add_diff_inverse2)

lemma applyReplacements_weave:
  assumes "disjoint_regions lo ms (offset + length content)" "offset \<le> lo"
  shows "\<exists>gaps. length gaps = Suc (length ms) \<and>
     drop (lo - offset) content = weave gaps (map (region content offset) ms) \<and>
     applyReplacements content ms offset = Some (take (lo - offset) content @ weave gaps (map me_newText ms))"
  using assms
proof (induction ms arbitrary: lo)
  case Nil
  then show ?case by (intro exI [of _ "[drop (lo - offset) content]"]) simp
next
  case (Cons m ms)
  let ?p = "me_matchIndex m - offset" and ?q = "me_matchIndex m + me_matchLength m - offset"
  have m: "lo \<le> me_matchIndex m" "disjoint_regions (me_matchIndex m + me_matchLength m) ms (offset + length content)"
    using Cons.prems(1) by auto
  obtain gaps where g: "length gaps = Suc (length ms)" "drop ?q content = weave gaps (map (region content offset) ms)"
    "applyReplacements content ms offset = Some (take ?q content @ weave gaps (map me_newText ms))"
    using Cons.IH [OF m(2)] m(1) Cons.prems(2) by auto
  have pq: "?q = ?p + me_matchLength m" "?q \<le> length content" "lo - offset \<le> ?p"
    using m(1) Cons.prems(2) disjoint_regions_le [OF m(2)] by auto
  let ?gap = "take (?p - (lo - offset)) (drop (lo - offset) content)"
  have "drop (lo - offset) content = ?gap @ drop ?p content" by (rule drop_split [OF pq(3)])
  moreover have "drop ?p content = region content offset m @ drop ?q content"
    unfolding region_def pq(1) by (metis append_take_drop_id drop_drop add.commute)
  moreover have "take ?p content = take (lo - offset) content @ ?gap"
    using pq(3) by (metis le_add_diff_inverse take_add)
  moreover have "replace_at offset m (take ?q content @ weave gaps (map me_newText ms)) =
      Some (take ?p content @ me_newText m @ weave gaps (map me_newText ms))"
  proof -
    obtain p where "me_matchIndex m = offset + p"
      using m(1) Cons.prems(2) le_Suc_ex order_trans by blast
    then show ?thesis using pq by (simp add: replace_at_def min_def)
  qed
  ultimately show ?case
    using g by (intro exI [of _ "?gap # gaps"]) simp
qed

lemma find_overlap_None:
  assumes "find_overlap ms = None" "\<forall>m \<in> set ms. me_matchIndex m + me_matchLength m \<le> hi"
    "ms \<noteq> [] \<Longrightarrow> lo \<le> me_matchIndex (hd ms)" "lo \<le> hi"
  shows "disjoint_regions lo ms hi"
  using assms
proof (induction ms arbitrary: lo rule: find_overlap.induct)
  case (1 p c ms)
  then show ?case by (auto split: if_splits)
qed auto

section \<open>Locating the edits\<close>

lemma fuzzyFindText_exact:
  assumes "fm_found (fuzzyFindText nfkc content old)" "\<not> fm_usedFuzzyMatch (fuzzyFindText nfkc content old)"
  shows "\<exists>i. fm_index (fuzzyFindText nfkc content old) = int i \<and>
     fm_matchLength (fuzzyFindText nfkc content old) = length old \<and> i + length old \<le> length content \<and>
     take (length old) (drop i content) = old"
  using assms strings_index_Some [of content old]
  by (auto simp: fuzzyFindText_def Let_def split: option.splits)

lemma fuzzyFindText_not_found:
  "\<not> fm_usedFuzzyMatch (fuzzyFindText nfkc content old) \<Longrightarrow> fm_found (fuzzyFindText nfkc content old) \<Longrightarrow>
     strings_index content old \<noteq> None"
  by (auto simp: fuzzyFindText_def Let_def split: option.splits)

text \<open>
  The matches of a run of edits: their numbers count up from \<open>i\<close>, each lies inside the base text, is
  the only occurrence in the fuzzy view, carries its edit's new text and, where the edit was found
  as it is, is its old text.
\<close>

lemma locate_edits_matches:
  assumes "locate_edits nfkc path base n i es = Inl ms"
  shows "map me_editIndex ms = [i ..< i + length es] \<and> map me_newText ms = map ed_NewText es \<and>
    list_all2 (\<lambda>m e. countOccurrences nfkc base (ed_OldText e) \<le> 1 \<and>
      (\<not> fm_usedFuzzyMatch (fuzzyFindText nfkc base (ed_OldText e)) \<longrightarrow>
        me_matchIndex m + me_matchLength m \<le> length base \<and> region base 0 m = ed_OldText e)) ms es"
  using assms
proof (induction es arbitrary: i ms)
  case (Cons e es)
  obtain m ms' where ms: "ms = m # ms'" "locate_edits nfkc path base n (Suc i) es = Inl ms'"
    "fm_found (fuzzyFindText nfkc base (ed_OldText e))" "countOccurrences nfkc base (ed_OldText e) \<le> 1"
    "m = \<lparr>me_editIndex = i, me_matchIndex = nat (fm_index (fuzzyFindText nfkc base (ed_OldText e))),
          me_matchLength = fm_matchLength (fuzzyFindText nfkc base (ed_OldText e)), me_newText = ed_NewText e\<rparr>"
    using Cons.prems by (auto simp: Let_def split: if_splits sum.splits)
  have "me_matchIndex m + me_matchLength m \<le> length base \<and> region base 0 m = ed_OldText e"
    if "\<not> fm_usedFuzzyMatch (fuzzyFindText nfkc base (ed_OldText e))"
    using fuzzyFindText_exact [OF ms(3) that] by (auto simp: ms(5) region_def)
  then show ?case using Cons.IH [OF ms(2)] ms(1,4,5) upt_conv_Cons [of i "i + length (e # es)"] by simp
qed simp

lemma located_edit:
  assumes "locate_edits nfkc path base n 0 es = Inl ms"
    and "\<And>e. e \<in> set es \<Longrightarrow> \<not> fm_usedFuzzyMatch (fuzzyFindText nfkc base (ed_OldText e))"
    and "m \<in> set ms"
  shows "me_matchIndex m + me_matchLength m \<le> length base \<and> region base 0 m = ed_OldText (es ! me_editIndex m) \<and>
      me_newText m = ed_NewText (es ! me_editIndex m)"
proof -
  note loc = locate_edits_matches [OF assms(1)]
  obtain j where j: "j < length ms" "m = ms ! j" using assms(3) by (metis in_set_conv_nth)
  have len: "length ms = length es" using loc by (metis length_map)
  have "map me_editIndex ms ! j = [0 ..< 0 + length es] ! j" using loc by simp
  then have "me_editIndex m = j" using j len by simp
  moreover have "map me_newText ms ! j = map ed_NewText es ! j" using loc by simp
  then have "me_newText m = ed_NewText (es ! j)" using j len by simp
  moreover have "\<not> fm_usedFuzzyMatch (fuzzyFindText nfkc base (ed_OldText (es ! j)))"
    using assms(2) j len by simp
  then have "me_matchIndex m + me_matchLength m \<le> length base \<and> region base 0 m = ed_OldText (es ! j)"
    using list_all2_nthD [OF conjunct2 [OF conjunct2 [OF loc]] j(1)] j(2) by blast
  ultimately show ?thesis by simp
qed

text \<open>
  In the exact mode the new content is the old one with every old text replaced, in one pass, by its
  new text: the regions are disjoint, so the order of the edits does not matter, and everything
  between them is unchanged.

  C12
\<close>

theorem exact_edits_replace_regions:
  assumes "ApplyEditsToNormalizedContent nfkc content es path = Some (Inl (base, new))"
    "\<not> uses_fuzzy nfkc content (map normalize_edit es)"
  shows "base = content \<and> new \<noteq> content \<and>
     (\<exists>gaps ms. mset ms = mset (map normalize_edit es) \<and> length gaps = Suc (length ms) \<and>
        content = weave gaps (map ed_OldText ms) \<and> new = weave gaps (map ed_NewText ms))"
proof -
  let ?es = "map normalize_edit es"
  obtain ms where ms: "locate_edits nfkc path content (length ?es) 0 ?es = Inl ms"
    "find_overlap (sort_key me_matchIndex ms) = None"
    "applyReplacements content (sort_key me_matchIndex ms) 0 = Some new" "base = content" "new \<noteq> content"
    using assms by (auto simp: ApplyEditsToNormalizedContent_def Let_def split: if_splits option.splits sum.splits prod.splits)
  note loc = locate_edits_matches [OF ms(1)]
  have exact: "\<not> fm_usedFuzzyMatch (fuzzyFindText nfkc content (ed_OldText e))" if "e \<in> set ?es" for e
    using assms(2) that by (auto simp: uses_fuzzy_def list_ex_iff)
  have edit_of: "me_matchIndex m + me_matchLength m \<le> length content \<and> region content 0 m = ed_OldText (?es ! me_editIndex m) \<and>
      me_newText m = ed_NewText (?es ! me_editIndex m)" if "m \<in> set ms" for m
    by (rule located_edit [OF ms(1) exact that])
  let ?sorted = "sort_key me_matchIndex ms"
  have "disjoint_regions 0 ?sorted (length content)"
    by (rule find_overlap_None [OF ms(2)]) (use edit_of in auto)
  then obtain gaps where g: "length gaps = Suc (length ?sorted)"
    "content = weave gaps (map (region content 0) ?sorted)"
    "applyReplacements content ?sorted 0 = Some (weave gaps (map me_newText ?sorted))"
    using applyReplacements_weave [of 0 ?sorted 0 content] by auto
  let ?ms = "map (\<lambda>m. ?es ! me_editIndex m) ?sorted"
  have "mset ?ms = mset (map ((!) ?es) (map me_editIndex ms))" by (simp add: comp_def)
  also have "map ((!) ?es) (map me_editIndex ms) = map ((!) ?es) [0 ..< length ?es]" using loc by (simp only: add_0)
  also have "\<dots> = ?es" by (rule map_nth)
  finally have perm: "mset ?ms = mset ?es" .
  have texts: "map (region content 0) ?sorted = map ed_OldText ?ms" "map me_newText ?sorted = map ed_NewText ?ms"
    using edit_of by auto
  have "content = weave gaps (map ed_OldText ?ms)" using g(2) by (simp only: texts)
  moreover have "new = weave gaps (map ed_NewText ?ms)" using g(3) ms(3) by (simp only: texts option.inject)
  moreover have "length gaps = Suc (length ?ms)" using g(1) by simp
  ultimately show ?thesis using ms(4,5) perm by blast
qed

section \<open>Keeping untouched lines\<close>

text \<open>Where the lines of a text begin.\<close>

definition line_offset :: "string \<Rightarrow> nat \<Rightarrow> nat" where
  "line_offset base i = length (concat (take i (splitLinesWithEndings base)))"

lemma spans_from_nth:
  "i < length lines \<Longrightarrow> spans_from offset lines ! i =
     (offset + length (concat (take i lines)), offset + length (concat (take (Suc i) lines)))"
proof (induction lines arbitrary: offset i)
  case (Cons line lines)
  then show ?case by (cases i) auto
qed simp

lemma length_spans_from [simp]: "length (spans_from offset lines) = length lines"
  by (induction lines arbitrary: offset) auto

lemma span_nth: "i < length (splitLinesWithEndings base) \<Longrightarrow>
    getLineSpans base ! i = (line_offset base i, line_offset base (Suc i))"
  by (simp add: getLineSpans_def spans_from_nth line_offset_def)

lemma length_spans [simp]: "length (getLineSpans base) = length (splitLinesWithEndings base)"
  by (simp add: getLineSpans_def)

lemma line_offset_mono: "i \<le> j \<Longrightarrow> line_offset base i \<le> line_offset base j"
  unfolding line_offset_def by (metis concat_append le_add1 le_add_diff_inverse length_append take_add)

lemma line_offset_le: "line_offset base i \<le> length base"
proof -
  have "concat (splitLinesWithEndings base) = base"
    using line_split_concat [of "[]" base] by (simp add: splitLinesWithEndings_def)
  then show ?thesis
    unfolding line_offset_def by (metis append_take_drop_id concat_append le_add1 length_append)
qed

lemma find_start_line_Some:
  "find_start_line lines i p = Some k \<Longrightarrow>
     i \<le> k \<and> k < i + length lines \<and> fst (lines ! (k - i)) \<le> p \<and> p < snd (lines ! (k - i))"
proof (induction lines i p rule: find_start_line.induct)
  case (2 s e lines i p)
  then show ?case by (auto split: if_splits simp: nth_Cons' Suc_diff_le dest: Suc_leD)
qed simp

lemma skip_lines_spec:
  "skip_lines lines p \<le> length lines \<and> (\<forall>j < skip_lines lines p. snd (lines ! j) < p) \<and>
     (skip_lines lines p < length lines \<longrightarrow> p \<le> snd (lines ! skip_lines lines p))"
  by (induction lines p rule: skip_lines.induct) (auto simp: less_Suc_eq_0_disj)

lemma line_range:
  assumes "getReplacementLineRange (getLineSpans base) r = Inl (s, e)"
  shows "s < e" "e \<le> length (splitLinesWithEndings base)"
    "line_offset base s \<le> me_matchIndex r" "me_matchIndex r < line_offset base (Suc s)"
    "me_matchIndex r + me_matchLength r \<le> line_offset base e"
    "s \<le> j \<Longrightarrow> Suc j < e \<Longrightarrow> line_offset base (Suc j) < me_matchIndex r + me_matchLength r"
proof -
  let ?lines = "getLineSpans base" and ?n = "length (splitLinesWithEndings base)"
    and ?p = "me_matchIndex r + me_matchLength r"
  have s: "find_start_line ?lines 0 (me_matchIndex r) = Some s"
    and e: "e = Suc (s + skip_lines (drop s ?lines) ?p)" "s + skip_lines (drop s ?lines) ?p < ?n"
    using assms by (auto simp: getReplacementLineRange_def Let_def split: option.splits if_splits)
  have sn: "s < ?n" using e by simp
  show "s < e" "e \<le> ?n" using e by auto
  show "line_offset base s \<le> me_matchIndex r" "me_matchIndex r < line_offset base (Suc s)"
    using find_start_line_Some [OF s] span_nth [OF sn] by simp_all
  show "?p \<le> line_offset base e"
    using skip_lines_spec [of "drop s ?lines" ?p] e by (simp add: span_nth)
  show "line_offset base (Suc j) < ?p" if "s \<le> j" "Suc j < e"
  proof -
    have "j - s < skip_lines (drop s ?lines) ?p" using that e by simp
    then have "snd (drop s ?lines ! (j - s)) < ?p" using skip_lines_spec [of "drop s ?lines" ?p] by blast
    then show ?thesis using that e by (simp add: span_nth)
  qed
qed

lemma disjoint_regions_snoc:
  "disjoint_regions lo (ms @ [r]) hi \<longleftrightarrow>
     disjoint_regions lo ms (me_matchIndex r) \<and> me_matchIndex r + me_matchLength r \<le> hi"
  by (induction lo ms hi rule: disjoint_regions.induct) auto

lemma disjoint_regions_mono: "disjoint_regions lo ms hi \<Longrightarrow> hi \<le> hi' \<Longrightarrow> disjoint_regions lo ms hi'"
  by (induction lo ms hi rule: disjoint_regions.induct) auto

text \<open>Groups in order, each with its matches inside its lines.\<close>

definition group_ok :: "string \<Rightarrow> replacementGroup \<Rightarrow> bool" where
  "group_ok base g \<longleftrightarrow> g_startLine g < g_endLine g \<and> g_endLine g \<le> length (splitLinesWithEndings base) \<and>
     disjoint_regions (line_offset base (g_startLine g)) (g_replacements g) (line_offset base (g_endLine g))"

fun groups_from :: "string \<Rightarrow> nat \<Rightarrow> replacementGroup list \<Rightarrow> bool" where
  "groups_from base i [] \<longleftrightarrow> True"
| "groups_from base i (g # gs) \<longleftrightarrow> i \<le> g_startLine g \<and> group_ok base g \<and> groups_from base (g_endLine g) gs"

lemma groups_from_snoc:
  "groups_from base i (gs @ [g]) \<longleftrightarrow> groups_from base i gs \<and> group_ok base g \<and>
     (if gs = [] then i else g_endLine (last gs)) \<le> g_startLine g"
  by (induction base i gs rule: groups_from.induct) auto

lemma build_groups_ok:
  assumes "build_groups (getLineSpans base) rs acc = Inl groups"
    "disjoint_regions lo rs hi" "groups_from base 0 (rev acc)"
    "acc \<noteq> [] \<Longrightarrow> disjoint_regions (line_offset base (g_startLine (hd acc))) (g_replacements (hd acc)) lo"
  shows "groups_from base 0 groups"
  using assms
proof (induction "getLineSpans base" rs acc arbitrary: lo rule: build_groups.induct)
  case (2 r rs acc)
  let ?hi = "me_matchIndex r + me_matchLength r"
  obtain s e where rg: "getReplacementLineRange (getLineSpans base) r = Inl (s, e)"
    using "2.prems"(1) by (auto split: sum.splits)
  note lr = line_range [OF rg]
  have r: "lo \<le> me_matchIndex r" "disjoint_regions ?hi rs hi" using "2.prems"(2) by auto
  let ?new = "\<lparr>g_startLine = s, g_endLine = e, g_replacements = [r]\<rparr>"
  have new_ok: "group_ok base ?new" "disjoint_regions (line_offset base s) [r] ?hi"
    using lr by (auto simp: group_ok_def)
  show ?case
  proof (cases acc)
    case Nil
    have "build_groups (getLineSpans base) rs [?new] = Inl groups" using "2.prems"(1) rg Nil by simp
    then show ?thesis
      by (rule "2.hyps"(1) [OF rg refl Nil _ r(2)]) (use new_ok Nil in auto)
  next
    case (Cons g gs)
    show ?thesis
    proof (cases "s < g_endLine g")
      case True
      let ?g = "g\<lparr>g_endLine := (if e > g_endLine g then e else g_endLine g), g_replacements := g_replacements g @ [r]\<rparr>"
      have g: "disjoint_regions (line_offset base (g_startLine g)) (g_replacements g) lo" "group_ok base g"
        using "2.prems"(3,4) Cons by (auto simp: groups_from_snoc)
      have hi: "?hi \<le> line_offset base (g_endLine ?g)"
        using lr(5) line_offset_mono [of e "g_endLine g" base] by auto
      have dis: "disjoint_regions (line_offset base (g_startLine g)) (g_replacements g @ [r]) ?hi"
        using g(1) r(1) by (simp add: disjoint_regions_snoc disjoint_regions_mono)
      have "group_ok base ?g"
        using g(2) lr(2) disjoint_regions_mono [OF dis hi] by (auto simp: group_ok_def)
      then have "groups_from base 0 (rev (?g # gs))" using "2.prems"(3) Cons by (auto simp: groups_from_snoc)
      moreover have "build_groups (getLineSpans base) rs (?g # gs) = Inl groups" using "2.prems"(1) rg Cons True by simp
      ultimately show ?thesis
        by (intro "2.hyps"(2) [OF rg refl Cons True _ r(2)]) (use dis in auto)
    next
      case False
      have "groups_from base 0 (rev acc @ [?new])"
        using "2.prems"(3) Cons False new_ok by (subst groups_from_snoc) (simp add: last_rev)
      then have "groups_from base 0 (rev (?new # acc))" by simp
      moreover have "build_groups (getLineSpans base) rs (?new # acc) = Inl groups" using "2.prems"(1) rg Cons False by simp
      ultimately show ?thesis
        unfolding Cons by (intro "2.hyps"(3) [OF rg refl Cons False _ r(2)]) (use new_ok in auto)
    qed
  qed
qed simp

text \<open>Writing the groups never leaves the text, and the result keeps every line outside of them.\<close>

fun splice :: "string list \<Rightarrow> nat \<Rightarrow> (nat \<times> nat \<times> string) list \<Rightarrow> string" where
  "splice lines i [] = concat (drop i lines)"
| "splice lines i ((s, e, txt) # gs) = concat (take (s - i) (drop i lines)) @ txt @ splice lines e gs"

lemma write_groups_splice:
  assumes "groups_from base i gs"
  shows "\<exists>txts. length txts = length gs \<and>
     write_groups lines base (getLineSpans base) gs i =
       Some (splice lines i (zip (map g_startLine gs) (zip (map g_endLine gs) txts)))"
  using assms
proof (induction gs arbitrary: i)
  case (Cons g gs)
  let ?s = "line_offset base (g_startLine g)" and ?e = "line_offset base (g_endLine g)"
  have g: "i \<le> g_startLine g" "g_startLine g < g_endLine g" "g_endLine g \<le> length (splitLinesWithEndings base)"
    "disjoint_regions ?s (g_replacements g) ?e" "groups_from base (g_endLine g) gs"
    using Cons.prems by (auto simp: group_ok_def)
  have spans: "fst (getLineSpans base ! g_startLine g) = ?s" "snd (getLineSpans base ! (g_endLine g - Suc 0)) = ?e"
    using g by (simp_all add: span_nth)
  let ?part = "take (?e - ?s) (drop ?s base)"
  have "?s \<le> ?e" using line_offset_mono g(2) by simp
  then have "?s + length ?part = ?e" using line_offset_le [of base "g_endLine g"] by simp
  then obtain part where part: "applyReplacements ?part (g_replacements g) ?s = Some part"
    using applyReplacements_weave [of ?s "g_replacements g" ?s ?part] g(4) by auto
  obtain txts where r: "length txts = length gs" "write_groups lines base (getLineSpans base) gs (g_endLine g) =
      Some (splice lines (g_endLine g) (zip (map g_startLine gs) (zip (map g_endLine gs) txts)))"
    using Cons.IH [OF g(5)] by blast
  show ?case
    using g(1) part r by (intro exI [of _ "part # txts"]) (simp add: spans Let_def)
qed simp

lemma preserving_not_None:
  assumes "disjoint_regions 0 (sort_key me_matchIndex ms) hi"
  shows "applyReplacementsPreservingUnchangedLines original base ms \<noteq> None"
proof (cases "build_groups (getLineSpans base) (sort_key me_matchIndex ms) []")
  case (Inl groups)
  have "groups_from base 0 groups" by (rule build_groups_ok [OF Inl assms]) simp_all
  then show ?thesis
    using write_groups_splice [of base 0 groups "splitLinesWithEndings original"] Inl
    by (auto simp: applyReplacementsPreservingUnchangedLines_def Let_def)
next
  case (Inr e)
  then show ?thesis by (simp add: applyReplacementsPreservingUnchangedLines_def Let_def)
qed

lemma locate_edits_inside:
  assumes "locate_edits nfkc path base n i es = Inl ms" "m \<in> set ms"
    and "\<And>e. e \<in> set es \<Longrightarrow> fm_usedFuzzyMatch (fuzzyFindText nfkc base (ed_OldText e)) \<Longrightarrow>
      NormalizeForFuzzyMatch nfkc base = base"
  shows "me_matchIndex m + me_matchLength m \<le> length base"
  using assms
proof (induction es arbitrary: i ms)
  case (Cons e es)
  let ?f = "fuzzyFindText nfkc base (ed_OldText e)"
  obtain m' ms' where ms: "ms = m' # ms'" "locate_edits nfkc path base n (Suc i) es = Inl ms'" "fm_found ?f"
    "m' = \<lparr>me_editIndex = i, me_matchIndex = nat (fm_index ?f), me_matchLength = fm_matchLength ?f, me_newText = ed_NewText e\<rparr>"
    using Cons.prems(1) by (auto simp: Let_def split: if_splits sum.splits)
  show ?case
  proof (cases "m \<in> set ms'")
    case True
    then show ?thesis using Cons.IH [OF ms(2)] Cons.prems(3) by (meson list.set_intros(2))
  next
    case False
    then have m: "m = m'" using Cons.prems(2) ms(1) by simp
    have "nat (fm_index ?f) + fm_matchLength ?f \<le> length base"
    proof (cases "fm_usedFuzzyMatch ?f")
      case True
      then have "NormalizeForFuzzyMatch nfkc base = base" using Cons.prems(3) by (meson list.set_intros(1))
      then show ?thesis
        using True ms(3) strings_index_Some [of base "NormalizeForFuzzyMatch nfkc (ed_OldText e)"]
        by (auto simp: fuzzyFindText_def Let_def split: option.splits)
    next
      case False
      then show ?thesis using fuzzyFindText_exact [OF ms(3)] by auto
    qed
    then show ?thesis by (simp add: m ms(4))
  qed
qed simp


text \<open>
  The lines a match reaches, and the ranges of lines a result replaces: in order, disjoint, not empty.
\<close>

definition touched :: "string \<Rightarrow> matchedEdit list \<Rightarrow> nat \<Rightarrow> bool" where
  "touched base ms l \<longleftrightarrow>
     (\<exists>r \<in> set ms. \<exists>s e. getReplacementLineRange (getLineSpans base) r = Inl (s, e) \<and> s \<le> l \<and> l < e)"

fun ranges_from :: "nat \<Rightarrow> (nat \<times> nat \<times> string) list \<Rightarrow> nat \<Rightarrow> bool" where
  "ranges_from i [] n \<longleftrightarrow> i \<le> n"
| "ranges_from i ((s, e, t) # gs) n \<longleftrightarrow> i \<le> s \<and> s < e \<and> ranges_from e gs n"

definition group_touched :: "string \<Rightarrow> matchedEdit list \<Rightarrow> replacementGroup \<Rightarrow> bool" where
  "group_touched base ms g \<longleftrightarrow> g_startLine g < g_endLine g \<and> g_endLine g \<le> length (splitLinesWithEndings base) \<and>
     (\<forall>l. g_startLine g \<le> l \<longrightarrow> l < g_endLine g \<longrightarrow> touched base ms l)"

lemma build_groups_touched:
  assumes "build_groups (getLineSpans base) rs acc = Inl groups" "set rs \<subseteq> set ms"
    "\<forall>g \<in> set acc. group_touched base ms g"
  shows "\<forall>g \<in> set groups. group_touched base ms g"
  using assms
proof (induction "getLineSpans base" rs acc rule: build_groups.induct)
  case (2 r rs acc)
  obtain s e where rg: "getReplacementLineRange (getLineSpans base) r = Inl (s, e)"
    using "2.prems"(1) by (auto split: sum.splits)
  have reach: "touched base ms l" if "s \<le> l" "l < e" for l
    using rg that "2.prems"(2) by (auto simp: touched_def)
  have new: "group_touched base ms \<lparr>g_startLine = s, g_endLine = e, g_replacements = [r]\<rparr>"
    using line_range(1,2) [OF rg] reach by (simp add: group_touched_def)
  show ?case
  proof (cases acc)
    case Nil
    show ?thesis
      by (rule "2.hyps"(1) [OF rg refl Nil]) (use "2.prems" rg Nil new in auto)
  next
    case (Cons g gs)
    show ?thesis
    proof (cases "s < g_endLine g")
      case True
      let ?g = "g\<lparr>g_endLine := (if e > g_endLine g then e else g_endLine g), g_replacements := g_replacements g @ [r]\<rparr>"
      have "group_touched base ms g" using "2.prems"(3) Cons by simp
      then have "group_touched base ms ?g"
        using line_range(1,2) [OF rg] reach True by (auto simp: group_touched_def)
      then show ?thesis
        by (intro "2.hyps"(2) [OF rg refl Cons True]) (use "2.prems" rg Cons True in auto)
    next
      case False
      show ?thesis
        by (rule "2.hyps"(3) [OF rg refl Cons False]) (use "2.prems" rg Cons False new in auto)
    qed
  qed
qed auto

lemma write_groups_Some:
  assumes "write_groups lines base (getLineSpans base) gs i = Some new" "i \<le> n"
    "\<forall>g \<in> set gs. g_startLine g < g_endLine g \<and> g_endLine g \<le> n"
  shows "\<exists>txts. length txts = length gs \<and> new = splice lines i (zip (map g_startLine gs) (zip (map g_endLine gs) txts)) \<and>
     ranges_from i (zip (map g_startLine gs) (zip (map g_endLine gs) txts)) n"
  using assms
proof (induction gs arbitrary: i new)
  case (Cons g gs)
  obtain part rest where p: "i \<le> g_startLine g" "write_groups lines base (getLineSpans base) gs (g_endLine g) = Some rest"
    "new = concat (take (g_startLine g - i) (drop i lines)) @ part @ rest"
    using Cons.prems(1) by (auto simp: Let_def split: if_splits option.splits)
  obtain txts where "length txts = length gs" "rest = splice lines (g_endLine g) (zip (map g_startLine gs) (zip (map g_endLine gs) txts))"
    "ranges_from (g_endLine g) (zip (map g_startLine gs) (zip (map g_endLine gs) txts)) n"
    using Cons.IH [OF p(2)] Cons.prems(3) by auto
  then show ?case using p Cons.prems(3) by (intro exI [of _ "part # txts"]) simp
qed simp


section \<open>Witnesses and boundary cases\<close>

lemmas fuzzy_eval = NormalizeForFuzzyMatch_def replace_runes_def trim_right_def runes_Cons_ascii is_space_def
  fuzzySmartSingleQuotes_def fuzzySmartDoubleQuotes_def fuzzyDashes_def fuzzySpaces_def bad_chunk_def rune_error_def Let_def

lemmas edit_eval = ApplyEditsToNormalizedContent_def normalize_edit_def NormalizeToLF_def replace_all_def uses_fuzzy_def
  fuzzyFindText_def countOccurrences_def count_text_def strings_count_def replace_at_def Let_def

lemma demo_normal:
  "NormalizeForFuzzyMatch id ''ab cd'' = ''ab cd''" "NormalizeForFuzzyMatch id ''ab'' = ''ab''"
  "NormalizeForFuzzyMatch id ''cd'' = ''cd''" "NormalizeForFuzzyMatch id '' '' = []"
  by (simp_all add: fuzzy_eval)

definition demo_edits :: "Edit list" where
  "demo_edits = [\<lparr>ed_OldText = ''cd'', ed_NewText = ''y''\<rparr>, \<lparr>ed_OldText = ''ab'', ed_NewText = ''x''\<rparr>]"

lemma demo_edits_applied:
  "ApplyEditsToNormalizedContent id ''ab cd'' demo_edits ''f'' = Some (Inl (''ab cd'', ''x y''))"
  by (simp add: edit_eval demo_edits_def demo_normal)

lemma exact_edits_replace_regions_witness:
  "\<exists>gaps ms. mset ms = mset (map normalize_edit demo_edits) \<and> length gaps = Suc (length ms) \<and>
     ''ab cd'' = weave gaps (map ed_OldText ms) \<and> ''x y'' = weave gaps (map ed_NewText ms)"
  using exact_edits_replace_regions [OF demo_edits_applied]
  by (simp add: uses_fuzzy_def demo_edits_def edit_eval)


definition demo_spaced :: string where
  "demo_spaced = ''a '' @ newline # ''b '' @ [newline]"

lemma demo_overlay:
  "applyReplacementsPreservingUnchangedLines demo_spaced (''a'' @ newline # ''b'' @ [newline])
     [\<lparr>me_editIndex = 0, me_matchIndex = 0, me_matchLength = 1, me_newText = ''x''\<rparr>]
   = Some (Inl (''x'' @ newline # ''b '' @ [newline]))"
  by (simp add: applyReplacementsPreservingUnchangedLines_def demo_spaced_def splitLinesWithEndings_def getLineSpans_def
      getReplacementLineRange_def replace_at_def Let_def)


text \<open>
  A text of spaces is normalised to the empty text, which is counted before every rune: such an edit
  is refused as repeated even where the text occurs once.
\<close>

lemma blank_text_refused:
  "ApplyEditsToNormalizedContent id ''ab cd'' [\<lparr>ed_OldText = '' '', ed_NewText = ''-''\<rparr>] ''f''
     = Some (Inr (getDuplicateError ''f'' 0 1 6))"
  by (simp add: edit_eval demo_normal runes_Cons_ascii eval_nat_numeral)

text \<open>Occurrences that overlap are counted once, so an ambiguous text passes as unique.\<close>

lemma overlapping_text_accepted:
  "ApplyEditsToNormalizedContent id ''aaa'' [\<lparr>ed_OldText = ''aa'', ed_NewText = ''b''\<rparr>] ''f''
     = Some (Inl (''aaa'', ''ba''))"
  by (simp add: edit_eval) (simp add: fuzzy_eval)

end
