(* ===== verification/Diff_Render.thy ===== *)
theory Diff_Render
  imports Line_Diff Truncate
begin

text \<open>
  The two renderings of a line diff in tools/editdiff.go: the unified patch and the numbered listing
  shown to the user. Line numbers are those of the code, counted from one.
\<close>

section \<open>Lines of a component\<close>

definition splitLinesKeepEnds :: "string \<Rightarrow> string list" where
  "splitLinesKeepEnds txt =
     (let parts = map (\<lambda>p. p @ [newline]) (split_on newline txt)
      in if has_suffix txt [newline] then butlast parts
         else butlast parts @ [butlast (last parts)])"

definition prefixLines :: "string list \<Rightarrow> string \<Rightarrow> string list" where
  "prefixLines lines pre = map (\<lambda>l. pre @ l) lines"

section \<open>Unified hunks\<close>

record unifiedHunk =
  uh_oldStart :: int
  uh_oldLines :: int
  uh_newStart :: int
  uh_newLines :: int
  uh_lines :: "string list"

record diffEntry =
  de_added :: bool
  de_removed :: bool
  de_lines :: "string list"

definition diff_entry :: "diffComponent \<Rightarrow> diffEntry" where
  "diff_entry c = \<lparr>de_added = dc_added c, de_removed = dc_removed c, de_lines = splitLinesKeepEnds (dc_value c)\<rparr>"

definition diff_entries :: "diffComponent list \<Rightarrow> diffEntry list" where
  "diff_entries parts = map diff_entry parts @ [\<lparr>de_added = False, de_removed = False, de_lines = []\<rparr>]"

text \<open>What the hunk loop carries: the start of the open hunk (0 when there is none), its lines, the line numbers and the hunks closed.\<close>

record hunkState =
  hs_oldRangeStart :: int
  hs_newRangeStart :: int
  hs_curRange :: "string list"
  hs_oldLine :: int
  hs_newLine :: int
  hs_hunks :: "unifiedHunk list"

definition open_hunk :: "nat \<Rightarrow> diffEntry option \<Rightarrow> hunkState \<Rightarrow> hunkState" where
  "open_hunk ctx prev st =
     (if hs_oldRangeStart st \<noteq> 0 then st
      else let curRange = (case prev of
                   None \<Rightarrow> hs_curRange st
                 | Some p \<Rightarrow> if ctx > 0 then prefixLines (drop (length (de_lines p) - ctx) (de_lines p)) '' '' else []);
               back = (case prev of None \<Rightarrow> 0 | Some p \<Rightarrow> int (length curRange))
           in st\<lparr>hs_oldRangeStart := hs_oldLine st - back, hs_newRangeStart := hs_newLine st - back,
                 hs_curRange := curRange\<rparr>)"

definition hunk_change :: "nat \<Rightarrow> diffEntry option \<Rightarrow> diffEntry \<Rightarrow> hunkState \<Rightarrow> hunkState" where
  "hunk_change ctx prev current st =
     (let st = open_hunk ctx prev st; lines = de_lines current;
          st = st\<lparr>hs_curRange := hs_curRange st @ prefixLines lines (if de_added current then ''+'' else ''-'')\<rparr>
      in if de_added current then st\<lparr>hs_newLine := hs_newLine st + int (length lines)\<rparr>
         else st\<lparr>hs_oldLine := hs_oldLine st + int (length lines)\<rparr>)"

definition hunk_unchanged :: "nat \<Rightarrow> bool \<Rightarrow> diffEntry \<Rightarrow> hunkState \<Rightarrow> hunkState" where
  "hunk_unchanged ctx moreFollow current st =
     (let lines = de_lines current;
          st = (if hs_oldRangeStart st = 0 then st
                else if length lines \<le> ctx * 2 \<and> moreFollow
                then st\<lparr>hs_curRange := hs_curRange st @ prefixLines lines '' ''\<rparr>
                else let contextSize = min ctx (length lines)
                     in st\<lparr>hs_hunks := hs_hunks st @
                             [\<lparr>uh_oldStart = hs_oldRangeStart st,
                               uh_oldLines = hs_oldLine st - hs_oldRangeStart st + int contextSize,
                               uh_newStart = hs_newRangeStart st,
                               uh_newLines = hs_newLine st - hs_newRangeStart st + int contextSize,
                               uh_lines = hs_curRange st @ prefixLines (take contextSize lines) '' ''\<rparr>],
                           hs_oldRangeStart := 0, hs_newRangeStart := 0, hs_curRange := []\<rparr>)
      in st\<lparr>hs_oldLine := hs_oldLine st + int (length lines), hs_newLine := hs_newLine st + int (length lines)\<rparr>)"

text \<open>The loop over the entries; \<open>moreFollow\<close> is \<^verbatim>\<open>i < len(entries)-2\<close>: two entries at least still follow.\<close>

fun hunk_loop :: "nat \<Rightarrow> diffEntry option \<Rightarrow> diffEntry list \<Rightarrow> hunkState \<Rightarrow> hunkState" where
  "hunk_loop ctx prev [] st = st"
| "hunk_loop ctx prev (current # rest) st =
     hunk_loop ctx (Some current) rest
       (if de_added current \<or> de_removed current then hunk_change ctx prev current st
        else hunk_unchanged ctx (2 \<le> length rest) current st)"

definition no_newline_marker :: string where
  "no_newline_marker = CHR 0x5C # '' No newline at end of file''"

fun strip_line_ends :: "string list \<Rightarrow> string list" where
  "strip_line_ends [] = []"
| "strip_line_ends (l # ls) =
     (if has_suffix l [newline] then butlast l # strip_line_ends ls
      else l # no_newline_marker # strip_line_ends ls)"

definition buildUnifiedHunks :: "diffComponent list \<Rightarrow> nat \<Rightarrow> unifiedHunk list" where
  "buildUnifiedHunks parts ctx =
     map (\<lambda>h. h\<lparr>uh_lines := strip_line_ends (uh_lines h)\<rparr>)
       (hs_hunks (hunk_loop ctx None (diff_entries parts)
          \<lparr>hs_oldRangeStart = 0, hs_newRangeStart = 0, hs_curRange = [], hs_oldLine = 1, hs_newLine = 1, hs_hunks = []\<rparr>))"

definition hunk_header :: "unifiedHunk \<Rightarrow> string" where
  "hunk_header h =
     (let oldStart = (if uh_oldLines h = 0 then uh_oldStart h - 1 else uh_oldStart h);
          newStart = (if uh_newLines h = 0 then uh_newStart h - 1 else uh_newStart h)
      in ''@@ -'' @ itoa oldStart @ '','' @ itoa (uh_oldLines h) @ '' +'' @ itoa newStart @ '','' @ itoa (uh_newLines h) @ '' @@'')"

text \<open>\<open>None\<close> is the panic of the line diff.\<close>

definition GenerateUnifiedPatch :: "string \<Rightarrow> string \<Rightarrow> string \<Rightarrow> int \<Rightarrow> string option" where
  "GenerateUnifiedPatch path oldContent newContent contextLines =
     (let ctx = (if contextLines = 0 then 4 else if contextLines < 0 then 0 else nat contextLines)
      in map_option
           (\<lambda>parts. strings_join
              ([''--- '' @ path, ''+++ '' @ path]
                @ concat (map (\<lambda>h. hunk_header h # uh_lines h) (buildUnifiedHunks parts ctx))) [newline] @ [newline])
           (computeLineDiff oldContent newContent))"

section \<open>The numbered listing\<close>

definition diff_context :: nat where
  "diff_context = 4"

definition pad_left :: "nat \<Rightarrow> string \<Rightarrow> string" where
  "pad_left width s = replicate (width - length s) CHR '' '' @ s"

record listingState =
  ls_output :: "string list"
  ls_oldLineNum :: nat
  ls_newLineNum :: nat
  ls_lastWasChange :: bool
  ls_firstChangedLine :: nat

definition numbered :: "string \<Rightarrow> nat \<Rightarrow> nat \<Rightarrow> string \<Rightarrow> string" where
  "numbered sign width n line = sign @ pad_left width (itoa_nat n) @ '' '' @ line"

definition show_lines :: "string \<Rightarrow> nat \<Rightarrow> nat \<Rightarrow> string list \<Rightarrow> string list" where
  "show_lines sign width n lines = map (\<lambda>(i, line). numbered sign width i line) (zip [n ..< n + length lines] lines)"

definition elision :: "nat \<Rightarrow> string" where
  "elision width = '' '' @ replicate width CHR '' '' @ '' ...''"

text \<open>The unchanged lines shown, with the elision in its place.\<close>

definition show_context :: "nat \<Rightarrow> bool \<Rightarrow> bool \<Rightarrow> nat \<Rightarrow> string list \<Rightarrow> string list" where
  "show_context width leading trailing n raw =
     (if leading \<and> trailing then
        (if length raw \<le> diff_context * 2 then show_lines '' '' width n raw
         else show_lines '' '' width n (take diff_context raw) @ [elision width]
              @ show_lines '' '' width (n + (length raw - diff_context)) (drop (length raw - diff_context) raw))
      else if leading then
        show_lines '' '' width n (take diff_context raw) @ (if diff_context < length raw then [elision width] else [])
      else if trailing then
        (let skipped = length raw - diff_context
         in (if 0 < skipped then [elision width] else []) @ show_lines '' '' width (n + skipped) (drop skipped raw))
      else [])"

definition part_lines :: "diffComponent \<Rightarrow> string list" where
  "part_lines c = (let raw = split_on newline (dc_value c) in if last raw = [] then butlast raw else raw)"

definition is_change :: "diffComponent \<Rightarrow> bool" where
  "is_change c \<longleftrightarrow> dc_added c \<or> dc_removed c"

definition listing_step :: "nat \<Rightarrow> diffComponent \<Rightarrow> bool \<Rightarrow> listingState \<Rightarrow> listingState" where
  "listing_step width part nextIsChange st =
     (let raw = part_lines part in
      if is_change part
      then st\<lparr>ls_firstChangedLine := (if ls_firstChangedLine st = 0 then ls_newLineNum st else ls_firstChangedLine st),
              ls_output := ls_output st @
                (if dc_added part then show_lines ''+'' width (ls_newLineNum st) raw
                 else show_lines ''-'' width (ls_oldLineNum st) raw),
              ls_newLineNum := (if dc_added part then ls_newLineNum st + length raw else ls_newLineNum st),
              ls_oldLineNum := (if dc_added part then ls_oldLineNum st else ls_oldLineNum st + length raw),
              ls_lastWasChange := True\<rparr>
      else st\<lparr>ls_output := ls_output st @ show_context width (ls_lastWasChange st) nextIsChange (ls_oldLineNum st) raw,
              ls_oldLineNum := ls_oldLineNum st + length raw,
              ls_newLineNum := ls_newLineNum st + length raw,
              ls_lastWasChange := False\<rparr>)"

fun listing_loop :: "nat \<Rightarrow> diffComponent list \<Rightarrow> listingState \<Rightarrow> listingState" where
  "listing_loop width [] st = st"
| "listing_loop width (part # rest) st =
     listing_loop width rest (listing_step width part (case rest of [] \<Rightarrow> False | p # _ \<Rightarrow> is_change p) st)"

definition GenerateDiffString :: "string \<Rightarrow> string \<Rightarrow> (string \<times> nat) option" where
  "GenerateDiffString oldContent newContent =
     (let maxLineNum = max (length (split_on newline oldContent)) (length (split_on newline newContent));
          width = length (itoa_nat maxLineNum)
      in map_option
           (\<lambda>parts. let st = listing_loop width parts
                            \<lparr>ls_output = [], ls_oldLineNum = 1, ls_newLineNum = 1, ls_lastWasChange = False, ls_firstChangedLine = 0\<rparr>
                    in (strings_join (ls_output st) [newline], ls_firstChangedLine st))
           (computeLineDiff oldContent newContent))"

section \<open>The patch describes the change\<close>

lemma split_on_line_split:
  "(if last (split_on newline s) = [] then butlast (map (\<lambda>p. p @ [newline]) (split_on newline s))
    else butlast (map (\<lambda>p. p @ [newline]) (split_on newline s)) @ [last (split_on newline s)]) = line_split [] s"
proof -
  have gen: "seg @ s \<noteq> [] \<Longrightarrow> newline \<notin> set seg \<Longrightarrow>
      (let ps = (seg @ hd (split_on newline s)) # tl (split_on newline s) in
       map (\<lambda>p. p @ [newline]) (butlast ps) @ (if last ps = [] then [] else [last ps])) = line_split seg s" for seg
  proof (induction s arbitrary: seg)
    case (Cons c s)
    obtain p ps where ps: "split_on newline s = p # ps" by (cases "split_on newline s") auto
    show ?case
    proof (cases "c = newline")
      case True
      show ?thesis
      proof (cases "s = []")
        case False
        then have "line_split [] s =
            map (\<lambda>p. p @ [newline]) (butlast (p # ps)) @ (if last (p # ps) = [] then [] else [last (p # ps)])"
          using Cons.IH [of "[]"] ps by (simp add: Let_def)
        then show ?thesis using True ps by (cases "ps = []"; cases "last (p # ps) = []") simp_all
      qed (use True in simp)
    next
      case False
      then show ?thesis using Cons.IH [of "seg @ [c]"] Cons.prems(2) ps by (simp add: Let_def)
    qed
  qed simp
  show ?thesis
  proof (cases "s = []")
    case False
    obtain p ps where ps: "split_on newline s = p # ps" by (cases "split_on newline s") auto
    then have "line_split [] s =
        map (\<lambda>p. p @ [newline]) (butlast (p # ps)) @ (if last (p # ps) = [] then [] else [last (p # ps)])"
      using gen [of "[]"] False by (simp add: Let_def)
    then show ?thesis using ps by (cases "ps = []"; cases "last (p # ps) = []") (simp_all add: map_butlast)
  qed simp
qed

lemma splitLinesKeepEnds_tokens: "s \<noteq> [] \<Longrightarrow> splitLinesKeepEnds s = tokenizeLines s"
proof -
  assume "s \<noteq> []"
  have "last (split_on newline s) = [] \<longleftrightarrow> has_suffix s [newline]" if "s \<noteq> []" for s
    using that
  proof (induction s)
    case (Cons c s)
    obtain p ps where ps: "split_on newline s = p # ps" by (cases "split_on newline s") auto
    show ?case
      using Cons ps join_split_on [of newline s]
      by (cases "s = []") (auto simp: has_suffix_newline split: if_splits)
  qed simp
  then show ?thesis
    using split_on_line_split [of s] \<open>s \<noteq> []\<close>
    by (simp add: splitLinesKeepEnds_def tokenizeLines_split Let_def last_map butlast_append map_butlast split: if_splits)
qed

text \<open>What a hunk says of the old and of the new file, and the effect of applying hunks in order.\<close>

definition old_side :: "string list \<Rightarrow> string list" where
  "old_side ls = map tl (filter (\<lambda>l. hd l \<noteq> CHR ''+'') ls)"

definition new_side :: "string list \<Rightarrow> string list" where
  "new_side ls = map tl (filter (\<lambda>l. hd l \<noteq> CHR ''-'') ls)"

text \<open>Reading the lines of a hunk back: a line has its newline again unless the marker follows it.\<close>

fun read_lines :: "string list \<Rightarrow> string list" where
  "read_lines (l # m # ls) = (if m = no_newline_marker then l # read_lines ls else (l @ [newline]) # read_lines (m # ls))"
| "read_lines [l] = [l @ [newline]]"
| "read_lines [] = []"

fun apply_hunks :: "string list \<Rightarrow> nat \<Rightarrow> unifiedHunk list \<Rightarrow> string list option" where
  "apply_hunks old i [] = Some (drop i old)"
| "apply_hunks old i (h # hs) =
     (let ls = read_lines (uh_lines h); s = nat (uh_oldStart h - 1); os = old_side ls; ns = new_side ls
      in if 1 \<le> uh_oldStart h \<and> i \<le> s \<and> int (length os) = uh_oldLines h \<and> int (length ns) = uh_newLines h \<and>
            take (length os) (drop s old) = os
         then map_option (\<lambda>rest. take (s - i) (drop i old) @ ns @ rest) (apply_hunks old (s + length os) hs)
         else None)"

definition slice :: "'a list \<Rightarrow> nat \<Rightarrow> nat \<Rightarrow> 'a list" where
  "slice xs i j = take (j - i) (drop i xs)"

lemma slice_append: "j \<le> length xs \<Longrightarrow> slice (xs @ ys) i j = slice xs i j"
  by (cases "i \<le> j") (auto simp: slice_def)

lemma slice_join: "i \<le> j \<Longrightarrow> j \<le> k \<Longrightarrow> slice xs i j @ slice xs j k = slice xs i k"
proof -
  assume "i \<le> j" "j \<le> k"
  then obtain a b where "j = i + a" "k = i + a + b" by (metis le_Suc_ex)
  then show ?thesis by (simp add: slice_def take_add add.commute)
qed

lemma slice_all: "i \<le> length xs \<Longrightarrow> slice xs i (length xs) = drop i xs"
  by (simp add: slice_def)

lemma length_slice: "j \<le> length xs \<Longrightarrow> length (slice xs i j) = j - i"
  by (simp add: slice_def)

lemma read_strip:
  assumes "\<forall>l \<in> set ls. l \<noteq> no_newline_marker @ [newline]" "no_newline_marker \<notin> set ls"
  shows "read_lines (strip_line_ends ls) = ls"
  using assms
proof (induction ls)
  case (Cons l ls)
  have IH: "read_lines (strip_line_ends ls) = ls" using Cons by simp
  show ?case
  proof (cases "has_suffix l [newline]")
    case True
    then have l: "l = butlast l @ [newline]"
      by (cases l rule: rev_cases) (auto simp: has_suffix_def)
    show ?thesis
    proof (cases ls)
      case Nil
      then show ?thesis using True l by simp
    next
      case (Cons m ms)
      have "hd (strip_line_ends ls) \<noteq> no_newline_marker"
      proof (cases "has_suffix m [newline]")
        case True
        then have "m = butlast m @ [newline]" by (cases m rule: rev_cases) (auto simp: has_suffix_def)
        then show ?thesis using Cons Cons.prems(1) True by (metis list.sel(1) list.set_intros strip_line_ends.simps(2))
      next
        case False
        then show ?thesis using Cons Cons.prems(2) by auto
      qed
      moreover obtain q qs where "strip_line_ends ls = q # qs" by (cases "has_suffix m [newline]") (auto simp: Cons)
      ultimately show ?thesis using True l IH by simp
    qed
  next
    case False
    then show ?thesis using IH by simp
  qed
qed simp

section \<open>The invariant of the hunk loop\<close>

text \<open>
  \<open>hunks_ok old new p q hs p' q'\<close>: from offset \<open>p\<close> of the old lines and \<open>q\<close> of the new ones, the hunks lead to \<open>p'\<close> and \<open>q'\<close>;
  the lines before each of them agree, and each shows what it stands for on both sides.
\<close>

definition hunk_at :: "string list \<Rightarrow> string list \<Rightarrow> unifiedHunk \<Rightarrow> nat \<Rightarrow> nat \<Rightarrow> nat \<Rightarrow> nat \<Rightarrow> bool" where
  "hunk_at old new h s s' t t' \<longleftrightarrow> s \<le> s' \<and> t \<le> t' \<and> s' \<le> length old \<and> t' \<le> length new \<and>
     uh_oldStart h = int s + 1 \<and> uh_oldLines h = int (s' - s) \<and> uh_newStart h = int t + 1 \<and> uh_newLines h = int (t' - t) \<and>
     old_side (uh_lines h) = slice old s s' \<and> new_side (uh_lines h) = slice new t t'"

definition same_gap :: "string list \<Rightarrow> string list \<Rightarrow> nat \<Rightarrow> nat \<Rightarrow> nat \<Rightarrow> nat \<Rightarrow> bool" where
  "same_gap old new p s q t \<longleftrightarrow> p \<le> s \<and> q \<le> t \<and> s \<le> length old \<and> t \<le> length new \<and> slice old p s = slice new q t"

fun hunks_ok :: "string list \<Rightarrow> string list \<Rightarrow> nat \<Rightarrow> nat \<Rightarrow> unifiedHunk list \<Rightarrow> nat \<Rightarrow> nat \<Rightarrow> bool" where
  "hunks_ok old new p q [] p' q' \<longleftrightarrow> p' = p \<and> q' = q"
| "hunks_ok old new p q (h # hs) p' q' \<longleftrightarrow>
     (\<exists>s s' t t'. same_gap old new p s q t \<and> hunk_at old new h s s' t t' \<and> hunks_ok old new s' t' hs p' q')"

lemma hunks_ok_snoc:
  "hunks_ok old new p q (hs @ [h]) p' q' \<longleftrightarrow>
     (\<exists>a b s t. hunks_ok old new p q hs a b \<and> same_gap old new a s b t \<and> hunk_at old new h s p' t q')"
proof (induction old new p q hs p' q' rule: hunks_ok.induct)
  case (2 old new p q g hs p' q')
  show ?case unfolding append_Cons hunks_ok.simps "2.IH" by blast
qed auto

lemma same_gap_extend: "same_gap old new p s q t \<Longrightarrow> same_gap (old @ xs) (new @ ys) p s q t"
  by (auto simp: same_gap_def slice_append)

lemma hunk_at_extend: "hunk_at old new h s s' t t' \<Longrightarrow> hunk_at (old @ xs) (new @ ys) h s s' t t'"
  by (auto simp: hunk_at_def slice_append)

lemma hunks_ok_extend: "hunks_ok old new p q hs p' q' \<Longrightarrow> hunks_ok (old @ xs) (new @ ys) p q hs p' q'"
proof (induction old new p q hs p' q' rule: hunks_ok.induct)
  case (2 old new p q h hs p' q')
  then show ?case using same_gap_extend hunk_at_extend by (meson hunks_ok.simps(2))
qed simp

text \<open>
  The state after a prefix of the entries whose old lines are \<open>old\<close> and whose new lines are \<open>new\<close>. With no
  hunk open, what follows the last hunk is unchanged, and enough of it is there to serve as the context
  of the next one; with one open, it shows everything since its start.
\<close>

definition hunk_lines_ok :: "string list \<Rightarrow> bool" where
  "hunk_lines_ok ls \<longleftrightarrow> (\<forall>l \<in> set ls. l \<noteq> [] \<and> hd l \<in> {CHR '' '', CHR ''+'', CHR ''-''})"

definition closed_state :: "nat \<Rightarrow> diffEntry option \<Rightarrow> bool \<Rightarrow> string list \<Rightarrow> string list \<Rightarrow> hunkState \<Rightarrow> bool" where
  "closed_state ctx prev changes old new st \<longleftrightarrow> hs_oldRangeStart st = 0 \<and> hs_curRange st = [] \<and>
     (\<exists>p q. hunks_ok old new 0 0 (hs_hunks st) p q \<and> p \<le> length old \<and> q \<le> length new \<and> drop p old = drop q new \<and>
        (changes \<longrightarrow> (case prev of None \<Rightarrow> True
           | Some e \<Rightarrow> (let back = min ctx (length (de_lines e)) in
               back \<le> length old - p \<and> drop (length old - back) old = drop (length (de_lines e) - back) (de_lines e)))))"

definition open_state :: "string list \<Rightarrow> string list \<Rightarrow> hunkState \<Rightarrow> bool" where
  "open_state old new st \<longleftrightarrow> hunk_lines_ok (hs_curRange st) \<and>
     (\<exists>p q s t. hunks_ok old new 0 0 (hs_hunks st) p q \<and> same_gap old new p s q t \<and>
        hs_oldRangeStart st = int s + 1 \<and> hs_newRangeStart st = int t + 1 \<and>
        old_side (hs_curRange st) = drop s old \<and> new_side (hs_curRange st) = drop t new)"

definition hunk_inv :: "nat \<Rightarrow> diffEntry option \<Rightarrow> bool \<Rightarrow> string list \<Rightarrow> string list \<Rightarrow> hunkState \<Rightarrow> bool" where
  "hunk_inv ctx prev changes old new st \<longleftrightarrow>
     hs_oldLine st = int (length old) + 1 \<and> hs_newLine st = int (length new) + 1 \<and>
     (\<forall>h \<in> set (hs_hunks st). hunk_lines_ok (uh_lines h)) \<and>
     (closed_state ctx prev changes old new st \<or> open_state old new st)"

lemma side_prefix [simp]:
  "old_side (prefixLines ls '' '') = ls" "new_side (prefixLines ls '' '') = ls"
  "old_side (prefixLines ls ''+'') = []" "new_side (prefixLines ls ''+'') = ls"
  "old_side (prefixLines ls ''-'') = ls" "new_side (prefixLines ls ''-'') = []"
  by (induction ls) (auto simp: old_side_def new_side_def prefixLines_def)

lemma side_append [simp]:
  "old_side (xs @ ys) = old_side xs @ old_side ys" "new_side (xs @ ys) = new_side xs @ new_side ys"
  by (simp_all add: old_side_def new_side_def)

lemma side_Nil [simp]: "old_side [] = []" "new_side [] = []"
  by (simp_all add: old_side_def new_side_def)

lemma hunk_lines_prefix [simp]:
  "hunk_lines_ok (prefixLines ls '' '')" "hunk_lines_ok (prefixLines ls ''+'')" "hunk_lines_ok (prefixLines ls ''-'')"
  by (auto simp: hunk_lines_ok_def prefixLines_def)

lemma hunk_lines_append [simp]: "hunk_lines_ok (xs @ ys) \<longleftrightarrow> hunk_lines_ok xs \<and> hunk_lines_ok ys"
  by (auto simp: hunk_lines_ok_def)

lemma hunk_lines_Nil [simp]: "hunk_lines_ok []"
  by (simp add: hunk_lines_ok_def)

lemma open_hunk_opens:
  assumes "hunk_inv ctx prev True old new st"
  shows "open_state old new (open_hunk ctx prev st) \<and> hs_oldLine (open_hunk ctx prev st) = hs_oldLine st \<and>
     hs_newLine (open_hunk ctx prev st) = hs_newLine st \<and> hs_hunks (open_hunk ctx prev st) = hs_hunks st"
proof (cases "open_state old new st")
  case True
  then have "hs_oldRangeStart st \<noteq> 0" by (auto simp: open_state_def)
  then show ?thesis using True by (simp add: open_hunk_def)
next
  case False
  then have cl: "closed_state ctx prev True old new st" using assms by (simp add: hunk_inv_def)
  then obtain p q where pq: "hunks_ok old new 0 0 (hs_hunks st) p q" "p \<le> length old" "q \<le> length new"
      "drop p old = drop q new"
    and bk: "case prev of None \<Rightarrow> True
           | Some e \<Rightarrow> (let back = min ctx (length (de_lines e)) in
               back \<le> length old - p \<and> drop (length old - back) old = drop (length (de_lines e) - back) (de_lines e))"
    and st: "hs_oldRangeStart st = 0" "hs_curRange st = []"
    by (auto simp: closed_state_def)
  have len: "length old - p = length new - q" using arg_cong [OF pq(4), of length] by simp
  have ln: "hs_oldLine st = int (length old) + 1" "hs_newLine st = int (length new) + 1"
    using assms by (simp_all add: hunk_inv_def)
  have result: "open_state old new (open_hunk ctx prev st)"
    if n: "n \<le> length old - p" and ls: "ls = drop (length old - n) old"
      and cur: "hs_curRange (open_hunk ctx prev st) = prefixLines ls '' ''"
      and starts: "hs_oldRangeStart (open_hunk ctx prev st) = int (length old) + 1 - int n"
        "hs_newRangeStart (open_hunk ctx prev st) = int (length new) + 1 - int n"
      and hs: "hs_hunks (open_hunk ctx prev st) = hs_hunks st" for n ls
  proof -
    have k: "length new - n - q + q = length new - n" "length old - n - p + p = length old - n"
      "length new - n - q = length old - n - p"
      using n len pq(2,3) by arith+
    have "drop (length new - n) new = drop (length new - n - q) (drop q new)" by (simp only: drop_drop k(1))
    moreover have "drop (length old - n - p) (drop p old) = ls" using ls by (simp only: drop_drop k(2))
    ultimately have nls: "drop (length new - n) new = ls" by (simp only: pq(4) k(3))
    have "slice old p (length old - n) = slice new q (length new - n)"
      by (simp only: slice_def pq(4) k)
    then have gap: "same_gap old new p (length old - n) q (length new - n)"
      using n len pq(2,3) by (auto simp: same_gap_def)
    have le: "n \<le> length old" "n \<le> length new" using n len by auto
    have "hs_oldRangeStart (open_hunk ctx prev st) = int (length old - n) + 1"
      "hs_newRangeStart (open_hunk ctx prev st) = int (length new - n) + 1"
      using le starts by (simp_all add: of_nat_diff)
    moreover have "old_side (hs_curRange (open_hunk ctx prev st)) = drop (length old - n) old"
      "new_side (hs_curRange (open_hunk ctx prev st)) = drop (length new - n) new"
      "hunk_lines_ok (hs_curRange (open_hunk ctx prev st))"
      by (simp_all only: cur side_prefix nls ls [symmetric] hunk_lines_prefix)
    ultimately show ?thesis
      unfolding open_state_def hs using pq(1) gap by blast
  qed
  have "open_state old new (open_hunk ctx prev st)"
  proof (cases prev)
    case None
    show ?thesis
      by (rule result [of 0 "[]"]) (auto simp: open_hunk_def st ln None prefixLines_def Let_def)
  next
    case (Some e)
    let ?n = "min ctx (length (de_lines e))"
    have b: "?n \<le> length old - p" "drop (length old - ?n) old = drop (length (de_lines e) - ?n) (de_lines e)"
      using bk Some by (auto simp: Let_def)
    have d: "length (de_lines e) - ctx = length (de_lines e) - ?n" by simp
    show ?thesis
      by (rule result [OF b(1) b(2) [symmetric]]) (auto simp: open_hunk_def st ln Some prefixLines_def Let_def d)
  qed
  then show ?thesis by (auto simp: open_hunk_def Let_def)
qed

definition entry_old :: "diffEntry \<Rightarrow> string list" where
  "entry_old e = (if de_added e then [] else de_lines e)"

definition entry_new :: "diffEntry \<Rightarrow> string list" where
  "entry_new e = (if de_removed e then [] else de_lines e)"

lemma hunk_change_inv:
  assumes inv: "hunk_inv ctx prev True old new st" and e: "de_added e \<or> de_removed e" "\<not> (de_added e \<and> de_removed e)"
  shows "hunk_inv ctx (Some e) ch (old @ entry_old e) (new @ entry_new e) (hunk_change ctx prev e st)"
proof -
  let ?st = "open_hunk ctx prev st"
  note op = open_hunk_opens [OF inv]
  obtain p q s t where o: "hunk_lines_ok (hs_curRange ?st)" "hunks_ok old new 0 0 (hs_hunks ?st) p q" "same_gap old new p s q t"
    "hs_oldRangeStart ?st = int s + 1" "hs_newRangeStart ?st = int t + 1"
    "old_side (hs_curRange ?st) = drop s old" "new_side (hs_curRange ?st) = drop t new"
    using op unfolding open_state_def by blast
  have b: "s \<le> length old" "t \<le> length new" using o(3) by (auto simp: same_gap_def)
  have fields: "hs_hunks (hunk_change ctx prev e st) = hs_hunks ?st"
    "hs_oldRangeStart (hunk_change ctx prev e st) = hs_oldRangeStart ?st"
    "hs_newRangeStart (hunk_change ctx prev e st) = hs_newRangeStart ?st"
    "hs_curRange (hunk_change ctx prev e st) = hs_curRange ?st @ prefixLines (de_lines e) (if de_added e then ''+'' else ''-'')"
    "hs_oldLine (hunk_change ctx prev e st) = hs_oldLine ?st + int (length (entry_old e))"
    "hs_newLine (hunk_change ctx prev e st) = hs_newLine ?st + int (length (entry_new e))"
    using e by (auto simp: hunk_change_def Let_def entry_old_def entry_new_def)
  have "old_side (hs_curRange (hunk_change ctx prev e st)) = drop s (old @ entry_old e)"
    "new_side (hs_curRange (hunk_change ctx prev e st)) = drop t (new @ entry_new e)"
    "hunk_lines_ok (hs_curRange (hunk_change ctx prev e st))"
    using o(1,6,7) b e by (cases "de_added e"; simp add: fields(4) entry_old_def entry_new_def)+
  then have "open_state (old @ entry_old e) (new @ entry_new e) (hunk_change ctx prev e st)"
    unfolding open_state_def fields(1-3)
    using o(4,5) hunks_ok_extend [OF o(2)] same_gap_extend [OF o(3)] by blast
  then show ?thesis
    using inv op unfolding hunk_inv_def fields by simp
qed

lemma hunk_unchanged_inv:
  assumes inv: "hunk_inv ctx prev ch old new st" and mf: "ch' \<Longrightarrow> moreFollow"
  shows "hunk_inv ctx (Some e) ch' (old @ de_lines e) (new @ de_lines e) (hunk_unchanged ctx moreFollow e st)"
    "\<not> moreFollow \<Longrightarrow> closed_state ctx (Some e) ch' (old @ de_lines e) (new @ de_lines e) (hunk_unchanged ctx moreFollow e st)"
proof -
  let ?L = "de_lines e" and ?st = "hunk_unchanged ctx moreFollow e st"
  have ln: "hs_oldLine ?st = int (length (old @ ?L)) + 1" "hs_newLine ?st = int (length (new @ ?L)) + 1"
    using inv by (auto simp: hunk_inv_def hunk_unchanged_def Let_def)
  have state: "hunk_inv ctx prev ch old new st" by (fact inv)
  have *: "(closed_state ctx (Some e) ch' (old @ ?L) (new @ ?L) ?st \<or> moreFollow \<and> open_state (old @ ?L) (new @ ?L) ?st) \<and>
      (\<forall>h \<in> set (hs_hunks ?st). hunk_lines_ok (uh_lines h))"
  proof (cases "open_state old new st")
    case False
    then have "closed_state ctx prev ch old new st" using inv by (simp add: hunk_inv_def)
    then obtain p q where pq: "hunks_ok old new 0 0 (hs_hunks st) p q" "p \<le> length old" "q \<le> length new"
      "drop p old = drop q new" "hs_oldRangeStart st = 0" "hs_curRange st = []"
      by (auto simp: closed_state_def)
    have f: "hs_oldRangeStart ?st = 0" "hs_curRange ?st = []" "hs_hunks ?st = hs_hunks st"
      using pq(5,6) by (simp_all add: hunk_unchanged_def Let_def)
    have "closed_state ctx (Some e) ch' (old @ ?L) (new @ ?L) ?st"
      unfolding closed_state_def f
      using hunks_ok_extend [OF pq(1), of ?L ?L] pq(2-4)
      by (intro conjI refl exI [of _ p] exI [of _ q]) (auto simp: Let_def)
    then show ?thesis using inv f(3) by (simp add: hunk_inv_def)
  next
    case True
    then obtain p q s t where o: "hunk_lines_ok (hs_curRange st)" "hunks_ok old new 0 0 (hs_hunks st) p q" "same_gap old new p s q t"
      "hs_oldRangeStart st = int s + 1" "hs_newRangeStart st = int t + 1"
      "old_side (hs_curRange st) = drop s old" "new_side (hs_curRange st) = drop t new"
      unfolding open_state_def by blast
    have b: "s \<le> length old" "t \<le> length new" using o(3) by (auto simp: same_gap_def)
    show ?thesis
    proof (cases "length ?L \<le> ctx * 2 \<and> moreFollow")
      case True
      have f: "hs_oldRangeStart ?st = hs_oldRangeStart st" "hs_newRangeStart ?st = hs_newRangeStart st"
        "hs_curRange ?st = hs_curRange st @ prefixLines ?L '' ''" "hs_hunks ?st = hs_hunks st"
        using True o(4) by (simp_all add: hunk_unchanged_def Let_def)
      have "old_side (hs_curRange ?st) = drop s (old @ ?L)" "new_side (hs_curRange ?st) = drop t (new @ ?L)"
        "hunk_lines_ok (hs_curRange ?st)"
        using o(1,6,7) b by (simp_all add: f(3))
      then have "open_state (old @ ?L) (new @ ?L) ?st"
        unfolding open_state_def f(1,2,4)
        using o(4,5) hunks_ok_extend [OF o(2)] same_gap_extend [OF o(3)] by blast
      then show ?thesis using True inv f(4) by (simp add: hunk_inv_def)
    next
      case False
      let ?c = "min ctx (length ?L)"
      let ?h = "\<lparr>uh_oldStart = hs_oldRangeStart st, uh_oldLines = hs_oldLine st - hs_oldRangeStart st + int ?c,
          uh_newStart = hs_newRangeStart st, uh_newLines = hs_newLine st - hs_newRangeStart st + int ?c,
          uh_lines = hs_curRange st @ prefixLines (take ?c ?L) '' ''\<rparr>"
      have f: "hs_oldRangeStart ?st = 0" "hs_curRange ?st = []" "hs_hunks ?st = hs_hunks st @ [?h]"
        using False o(4) by (auto simp: hunk_unchanged_def Let_def)
      have at: "hunk_at (old @ ?L) (new @ ?L) ?h s (length old + ?c) t (length new + ?c)"
        using inv o b by (auto simp: hunk_at_def slice_def hunk_inv_def of_nat_diff)
      have ok: "hunks_ok (old @ ?L) (new @ ?L) 0 0 (hs_hunks st @ [?h]) (length old + ?c) (length new + ?c)"
        unfolding hunks_ok_snoc
        using hunks_ok_extend [OF o(2)] same_gap_extend [OF o(3)] at by blast
      have "closed_state ctx (Some e) ch' (old @ ?L) (new @ ?L) ?st"
        unfolding closed_state_def f
      proof (rule conjI [OF refl], rule conjI [OF refl], rule exI [of _ "length old + ?c"], rule exI [of _ "length new + ?c"],
          intro conjI ok impI)
        assume ch'
        then have "2 * ctx < length ?L" using mf False by auto
        then have "ctx \<le> length ?L - ctx" "length old \<le> length old + length ?L - ctx" by arith+
        with \<open>2 * ctx < length ?L\<close> show "case Some e of None \<Rightarrow> True
           | Some e \<Rightarrow> (let back = min ctx (length (de_lines e)) in
               back \<le> length (old @ ?L) - (length old + ?c) \<and>
               drop (length (old @ ?L) - back) (old @ ?L) = drop (length (de_lines e) - back) (de_lines e))"
          by (simp add: Let_def)
      qed auto
      moreover have "hunk_lines_ok (uh_lines ?h)" using o(1) by simp
      ultimately show ?thesis using inv f(3) by (auto simp: hunk_inv_def)
    qed
  qed
  then show "hunk_inv ctx (Some e) ch' (old @ ?L) (new @ ?L) ?st"
    using ln unfolding hunk_inv_def by blast
  show "\<not> moreFollow \<Longrightarrow> closed_state ctx (Some e) ch' (old @ ?L) (new @ ?L) ?st" using * by blast
qed

text \<open>The entries end with one that is no change, so no hunk is open at the end.\<close>

lemma hunk_loop_inv:
  assumes "hunk_inv ctx prev (\<exists>e \<in> set es. de_added e \<or> de_removed e) old new st"
    "es \<noteq> []" "\<not> (de_added (last es) \<or> de_removed (last es))" "\<forall>e \<in> set es. \<not> (de_added e \<and> de_removed e)"
  shows "\<exists>prev'. closed_state ctx prev' False (old @ concat (map entry_old es)) (new @ concat (map entry_new es)) (hunk_loop ctx prev es st) \<and>
     (\<forall>h \<in> set (hs_hunks (hunk_loop ctx prev es st)). hunk_lines_ok (uh_lines h))"
  using assms
proof (induction es arbitrary: prev old new st)
  case (Cons e es)
  let ?ch = "\<exists>e \<in> set es. de_added e \<or> de_removed e"
  let ?st = "if de_added e \<or> de_removed e then hunk_change ctx prev e st else hunk_unchanged ctx (2 \<le> length es) e st"
  have two: "2 \<le> length es" if ?ch
  proof -
    have "es \<noteq> []" using that by auto
    then obtain x xs where es: "es = x # xs" by (cases es) auto
    have "xs \<noteq> []" using \<open>?ch\<close> Cons.prems(3) es by auto
    then show ?thesis using es by (cases xs) simp_all
  qed
  have inv: "hunk_inv ctx (Some e) ?ch (old @ entry_old e) (new @ entry_new e) ?st"
  proof (cases "de_added e \<or> de_removed e")
    case True
    have "hunk_inv ctx prev True old new st" using Cons.prems(1) True by simp
    then show ?thesis using hunk_change_inv [of ctx prev old new st e ?ch] True Cons.prems(4) by simp
  next
    case False
    then show ?thesis
      using hunk_unchanged_inv(1) [OF Cons.prems(1), of ?ch "2 \<le> length es" e] two by (simp add: entry_old_def entry_new_def)
  qed
  show ?case
  proof (cases "es = []")
    case True
    have nc: "\<not> (de_added e \<or> de_removed e)" using Cons.prems(3) True by simp
    have "closed_state ctx (Some e) False (old @ de_lines e) (new @ de_lines e) (hunk_unchanged ctx False e st)"
      by (rule hunk_unchanged_inv(2) [OF Cons.prems(1)]) simp_all
    then show ?thesis
      using True nc inv by (auto simp: entry_old_def entry_new_def hunk_inv_def)
  next
    case False
    then show ?thesis
      using Cons.IH [OF inv False] Cons.prems(3,4) by simp
  qed
qed simp


section \<open>The patch applies\<close>

lemma entry_sides:
  assumes "list_all component_ok cs"
  shows "concat (map entry_old (diff_entries cs)) = old_lines cs" "concat (map entry_new (diff_entries cs)) = new_lines cs"
    "\<forall>e \<in> set (diff_entries cs). \<not> (de_added e \<and> de_removed e)"
  using assms unfolding diff_entries_def
  by (induction cs) (auto simp: diff_entry_def entry_old_def entry_new_def old_lines_def new_lines_def component_ok_def
      splitLinesKeepEnds_tokens)

lemma apply_hunks_ok:
  assumes "hunks_ok old new p q hs p' q'" "p \<le> length old" "q \<le> length new" "drop p' old = drop q' new"
    "p' \<le> length old" "q' \<le> length new"
    "\<forall>h \<in> set hs. hunk_lines_ok (uh_lines h)"
  shows "apply_hunks old p (map (\<lambda>h. h\<lparr>uh_lines := strip_line_ends (uh_lines h)\<rparr>) hs) = Some (drop q new)"
  using assms
proof (induction old new p q hs p' q' rule: hunks_ok.induct)
  case (2 old new p q h hs p' q')
  obtain s s' t t' where gap: "same_gap old new p s q t" and h: "hunk_at old new h s s' t t'" and rest: "hunks_ok old new s' t' hs p' q'"
    using "2.prems"(1) by auto
  have b: "p \<le> s" "q \<le> t" "s \<le> s'" "t \<le> t'" "s' \<le> length old" "t' \<le> length new" "slice old p s = slice new q t"
    and side: "old_side (uh_lines h) = slice old s s'" "new_side (uh_lines h) = slice new t t'"
    and nums: "uh_oldStart h = int s + 1" "uh_oldLines h = int (s' - s)" "uh_newLines h = int (t' - t)"
    using gap h by (simp_all add: same_gap_def hunk_at_def)
  have read: "read_lines (strip_line_ends (uh_lines h)) = uh_lines h"
    using "2.prems"(7) by (intro read_strip) (auto simp: hunk_lines_ok_def no_newline_marker_def)
  have IH: "apply_hunks old s' (map (\<lambda>h. h\<lparr>uh_lines := strip_line_ends (uh_lines h)\<rparr>) hs) = Some (drop t' new)"
    using "2.IH" rest b "2.prems" by simp
  have len: "length (slice old s s') = s' - s" "length (slice new t t') = t' - t" using b by (simp_all add: length_slice)
  have new: "slice new q t @ slice new t t' @ drop t' new = drop q new"
    using b by (simp add: slice_join slice_all [symmetric] append_assoc [symmetric] del: append_assoc)
  have "take (s' - s) (drop s old) = slice old s s'" "take (s - p) (drop p old) = slice new q t" "s + (s' - s) = s'"
    using b by (simp_all add: slice_def)
  then show ?case
    using b by (simp add: Let_def read side nums len IH new)
qed simp

text \<open>
  C9
  The hunks of the unified patch turn the old file into the new one: applying them in order to the lines of
  the old content, each at the line its header names, with the counts of its header and with the context and
  removed lines it shows found there, succeeds and gives exactly the lines of the new content, including
  whether the last line has its newline. The size bound is where the diff's diagonal range meets its sentinel.
\<close>

theorem patch_applies:
  assumes "length (tokenizeLines a) + length (tokenizeLines b) \<le> 2 ^ 30" "computeLineDiff a b = Some cs"
  shows "apply_hunks (tokenizeLines a) 0 (buildUnifiedHunks cs ctx) = Some (tokenizeLines b)"
proof -
  note lines = diff_lines [OF assms]
  let ?st = "\<lparr>hs_oldRangeStart = 0, hs_newRangeStart = 0, hs_curRange = [], hs_oldLine = 1, hs_newLine = 1, hs_hunks = []\<rparr>"
  have start: "hunk_inv ctx None ch [] [] ?st" for ch
    by (simp add: hunk_inv_def closed_state_def)
  obtain prev' where cl: "closed_state ctx prev' False (old_lines cs) (new_lines cs) (hunk_loop ctx None (diff_entries cs) ?st)"
    and ok: "\<forall>h \<in> set (hs_hunks (hunk_loop ctx None (diff_entries cs) ?st)). hunk_lines_ok (uh_lines h)"
    using hunk_loop_inv [OF start, of "diff_entries cs"] entry_sides [of cs] lines
    by (auto simp: diff_entries_def)
  then show ?thesis
    using apply_hunks_ok [OF _ _ _ _ _ _ ok] lines
    unfolding closed_state_def buildUnifiedHunks_def by fastforce
qed

theorem patch_applies_witness:
  "apply_hunks (tokenizeLines demo_old) 0 (buildUnifiedHunks demo_diff 1) = Some (tokenizeLines demo_new)"
  by (rule patch_applies) (simp_all add: demo_tokens demo_computed)

end
