(* ===== verification/Exec_Env.thy ===== *)
theory Exec_Env
  imports Go_Path Go_Fmt
begin

text \<open>
  The seam between the built-in tools and the machine (tools/env.go, tools/env_unix.go): the interface
  \<^verbatim>\<open>ExecutionEnv\<close> as a record of its methods, and \<^verbatim>\<open>OSEnv\<close>, its implementation over the operating
  system. A method is an action on a world of type \<open>'w\<close>; it returns a value or an error and the world
  after it. A context is its \<^verbatim>\<open>ctx.Err()\<close>, which may change with the world. The system calls of the
  packages \<^verbatim>\<open>os\<close>, \<^verbatim>\<open>os/exec\<close> and \<^verbatim>\<open>filepath.EvalSymlinks\<close> are the record \<open>os_calls\<close>; the laws the tools need of a
  store of files are the locales \<open>os_files\<close> and \<open>file_env\<close>, the first for system calls and the second for an
  environment, and \<open>OSEnv\<close> is shown to give the second from the first.
\<close>

section \<open>Actions\<close>

type_synonym ('w, 'a) act = "'w \<Rightarrow> ('a + err) \<times> 'w"
type_synonym 'w go_context = "'w \<Rightarrow> err option"

definition bind_act :: "('w, 'a) act \<Rightarrow> ('a \<Rightarrow> ('w, 'b) act) \<Rightarrow> ('w, 'b) act" where
  "bind_act m f w = (case m w of (Inl a, w') \<Rightarrow> f a w' | (Inr e, w') \<Rightarrow> (Inr e, w'))"

definition wrap_act :: "string \<Rightarrow> ('w, 'a) act \<Rightarrow> ('w, 'a) act" where
  "wrap_act pre m w = (case m w of (Inl a, w') \<Rightarrow> (Inl a, w') | (Inr e, w') \<Rightarrow> (Inr (wrap_err pre e), w'))"

text \<open>The check every file operation starts with.\<close>

definition check_ctx :: "'w go_context \<Rightarrow> ('w, 'a) act \<Rightarrow> ('w, 'a) act" where
  "check_ctx ctx m w = (case ctx w of Some e \<Rightarrow> (Inr e, w) | None \<Rightarrow> m w)"

lemma bind_act_Inl [simp]: "bind_act m f w = (Inl b, w') \<longleftrightarrow> (\<exists>a v. m w = (Inl a, v) \<and> f a v = (Inl b, w'))"
  by (auto simp: bind_act_def split: prod.splits sum.splits)

lemma bind_act_InrE:
  assumes "bind_act m f w = (Inr e, w')"
  obtains "m w = (Inr e, w')" | a v where "m w = (Inl a, v)" "f a v = (Inr e, w')"
  using assms by (auto simp: bind_act_def split: prod.splits sum.splits)

lemma wrap_act_Inl [simp]: "wrap_act pre m w = (Inl a, w') \<longleftrightarrow> m w = (Inl a, w')"
  by (auto simp: wrap_act_def split: prod.splits sum.splits)

lemma wrap_act_Inr [simp]: "wrap_act pre m w = (Inr e, w') \<longleftrightarrow> (\<exists>e'. m w = (Inr e', w') \<and> e = wrap_err pre e')"
  by (auto simp: wrap_act_def split: prod.splits sum.splits)

lemma check_ctx_Inl [simp]: "check_ctx ctx m w = (Inl a, w') \<longleftrightarrow> ctx w = None \<and> m w = (Inl a, w')"
  by (auto simp: check_ctx_def split: option.splits)

lemma check_ctx_None [simp]: "ctx w = None \<Longrightarrow> check_ctx ctx m w = m w"
  by (simp add: check_ctx_def)

lemma check_ctx_Some [simp]: "ctx w = Some e \<Longrightarrow> check_ctx ctx m w = (Inr e, w)"
  by (simp add: check_ctx_def)

section \<open>The interface\<close>

datatype FileKind = FileKindFile | FileKindDir | FileKindSymlink

record FileInfo =
  fi_Kind :: FileKind
  fi_Size :: int

text \<open>The callback \<^verbatim>\<open>OnChunk\<close> of the specification is what its caller does with the events of the run. Durations are in nanoseconds.\<close>

record ExecSpec =
  xs_Command :: string
  xs_Dir :: string
  xs_Env :: "(string \<times> string) list"
  xs_InheritEnv :: bool
  xs_Timeout :: int

record ExecResult =
  xr_ExitCode :: int
  xr_Cancelled :: bool
  xr_TimedOut :: bool

text \<open>
  What happens while a command runs, in order: a chunk of its output arrives at a time, or the runtime
  runs the callback of a timer that is due.
\<close>

datatype exec_event = Output int string | Timer int

fun event_time :: "exec_event \<Rightarrow> int" where
  "event_time (Output now chunk) = now"
| "event_time (Timer now) = now"

fun output_chunks :: "exec_event list \<Rightarrow> string list" where
  "output_chunks [] = []"
| "output_chunks (Output now chunk # evs) = chunk # output_chunks evs"
| "output_chunks (Timer now # evs) = output_chunks evs"

record 'w ExecutionEnv =
  ee_Cwd :: string
  ee_AbsolutePath :: "'w go_context \<Rightarrow> string \<Rightarrow> ('w, string) act"
  ee_CanonicalPath :: "'w go_context \<Rightarrow> string \<Rightarrow> ('w, string) act"
  ee_Exists :: "'w go_context \<Rightarrow> string \<Rightarrow> ('w, bool) act"
  ee_FileInfo :: "'w go_context \<Rightarrow> string \<Rightarrow> ('w, FileInfo) act"
  ee_ReadFile :: "'w go_context \<Rightarrow> string \<Rightarrow> ('w, string) act"
  ee_WriteFile :: "'w go_context \<Rightarrow> string \<Rightarrow> string \<Rightarrow> ('w, unit) act"
  ee_AppendFile :: "'w go_context \<Rightarrow> string \<Rightarrow> string \<Rightarrow> ('w, unit) act"
  ee_CreateTemp :: "'w go_context \<Rightarrow> string \<Rightarrow> string \<Rightarrow> ('w, string) act"
  ee_Exec :: "'w go_context \<Rightarrow> ExecSpec \<Rightarrow> ('w, exec_event list \<times> ExecResult) act"

section \<open>System calls\<close>

text \<open>
  \<open>os_Wait\<close> runs a started process, with a timer when one is given, until something is ready: the channels that
  are, in the order the runtime's \<^verbatim>\<open>select\<close> would take them. \<open>os_Kill\<close> kills the group of the process, \<open>os_Reap\<close> waits
  for its end and gives the rest of its output and the exit code.
\<close>

datatype wake = WakeExited | WakeTimeout | WakeDone

record stat =
  st_symlink :: bool
  st_dir :: bool
  st_size :: int

record 'w os_calls =
  os_Getwd :: "('w, string) act"
  os_Stat :: "string \<Rightarrow> ('w, stat) act"
  os_Lstat :: "string \<Rightarrow> ('w, stat) act"
  os_EvalSymlinks :: "string \<Rightarrow> ('w, string) act"
  os_ReadFile :: "string \<Rightarrow> ('w, string) act"
  os_MkdirAll :: "string \<Rightarrow> ('w, unit) act"
  os_WriteFile :: "string \<Rightarrow> string \<Rightarrow> ('w, unit) act"
  os_OpenAppend :: "string \<Rightarrow> ('w, unit) act"
  os_Write :: "string \<Rightarrow> string \<Rightarrow> ('w, unit) act"
  os_Close :: "string \<Rightarrow> ('w, unit) act"
  os_CreateTemp :: "string \<Rightarrow> ('w, string) act"
  os_Environ :: "'w \<Rightarrow> string list"
  os_Start :: "string \<Rightarrow> string list \<Rightarrow> string list \<Rightarrow> ('w, nat) act"
  os_Wait :: "nat \<Rightarrow> int option \<Rightarrow> 'w \<Rightarrow> (exec_event list \<times> wake list) \<times> 'w"
  os_Kill :: "nat \<Rightarrow> 'w \<Rightarrow> 'w"
  os_Reap :: "nat \<Rightarrow> 'w \<Rightarrow> (exec_event list \<times> int) \<times> 'w"

section \<open>The local environment\<close>

definition filepath_Abs :: "'w os_calls \<Rightarrow> string \<Rightarrow> ('w, string) act" where
  "filepath_Abs os path =
     (if is_abs path then (\<lambda>w. (Inl (filepath_Clean path), w))
      else bind_act (os_Getwd os) (\<lambda>wd w. (Inl (filepath_Join [wd, path]), w)))"

text \<open>The environment made is its directory.\<close>

definition NewOSEnv :: "'w os_calls \<Rightarrow> string \<Rightarrow> ('w, string) act" where
  "NewOSEnv os cwd =
     bind_act (wrap_act (''resolving cwd '' @ go_quote cwd @ '': '') (filepath_Abs os cwd))
       (\<lambda>abs. bind_act (wrap_act (''stat cwd '' @ go_quote abs @ '': '') (os_Stat os abs))
         (\<lambda>info w. if \<not> st_dir info then (Inr (errors_new (''cwd '' @ go_quote abs @ '' is not a directory'')), w)
                   else (Inl abs, w)))"

definition absolute :: "string \<Rightarrow> string \<Rightarrow> string" where
  "absolute cwd path = (if is_abs path then filepath_Clean path else filepath_Clean (filepath_Join [cwd, path]))"

definition AbsolutePath :: "string \<Rightarrow> 'w go_context \<Rightarrow> string \<Rightarrow> ('w, string) act" where
  "AbsolutePath cwd ctx path = check_ctx ctx (\<lambda>w. (Inl (absolute cwd path), w))"

definition CanonicalPath :: "'w os_calls \<Rightarrow> string \<Rightarrow> 'w go_context \<Rightarrow> string \<Rightarrow> ('w, string) act" where
  "CanonicalPath os cwd ctx path =
     check_ctx ctx (bind_act (AbsolutePath cwd ctx path)
       (\<lambda>abs. wrap_act (''canonicalizing '' @ go_quote abs @ '': '') (os_EvalSymlinks os abs)))"

definition Exists :: "'w os_calls \<Rightarrow> string \<Rightarrow> 'w go_context \<Rightarrow> string \<Rightarrow> ('w, bool) act" where
  "Exists os cwd ctx path =
     check_ctx ctx (bind_act (AbsolutePath cwd ctx path)
       (\<lambda>abs w. case os_Lstat os abs w of
          (Inl info, w') \<Rightarrow> (Inl True, w')
        | (Inr e, w') \<Rightarrow> if errors_is e FsNotExist then (Inl False, w')
                        else (Inr (wrap_err (''checking existence of '' @ go_quote abs @ '': '') e), w')))"

definition stat_kind :: "stat \<Rightarrow> FileKind" where
  "stat_kind info = (if st_symlink info then FileKindSymlink else if st_dir info then FileKindDir else FileKindFile)"

definition env_FileInfo :: "'w os_calls \<Rightarrow> string \<Rightarrow> 'w go_context \<Rightarrow> string \<Rightarrow> ('w, FileInfo) act" where
  "env_FileInfo os cwd ctx path =
     check_ctx ctx (bind_act (AbsolutePath cwd ctx path)
       (\<lambda>abs. bind_act (wrap_act (''stat '' @ go_quote abs @ '': '') (os_Lstat os abs))
         (\<lambda>info w. (Inl \<lparr>fi_Kind = stat_kind info, fi_Size = st_size info\<rparr>, w))))"

definition ReadFile :: "'w os_calls \<Rightarrow> string \<Rightarrow> 'w go_context \<Rightarrow> string \<Rightarrow> ('w, string) act" where
  "ReadFile os cwd ctx path =
     check_ctx ctx (bind_act (AbsolutePath cwd ctx path)
       (\<lambda>abs. wrap_act (''reading '' @ go_quote abs @ '': '') (os_ReadFile os abs)))"

definition make_parents :: "'w os_calls \<Rightarrow> string \<Rightarrow> ('w, unit) act" where
  "make_parents os file =
     wrap_act (''creating parent directories for '' @ go_quote file @ '': '') (os_MkdirAll os (filepath_Dir file))"

definition WriteFile :: "'w os_calls \<Rightarrow> string \<Rightarrow> 'w go_context \<Rightarrow> string \<Rightarrow> string \<Rightarrow> ('w, unit) act" where
  "WriteFile os cwd ctx path data =
     check_ctx ctx (bind_act (AbsolutePath cwd ctx path)
       (\<lambda>abs. bind_act (make_parents os abs)
         (\<lambda>_. wrap_act (''writing '' @ go_quote abs @ '': '') (os_WriteFile os abs data))))"

text \<open>After a failed write the file is closed and the error of the close is dropped.\<close>

definition append_data :: "'w os_calls \<Rightarrow> string \<Rightarrow> string \<Rightarrow> ('w, unit) act" where
  "append_data os file data w =
     (case os_Write os file data w of
        (Inr e, w') \<Rightarrow> (Inr (wrap_err (''appending to '' @ go_quote file @ '': '') e), snd (os_Close os file w'))
      | (Inl _, w') \<Rightarrow> wrap_act (''closing '' @ go_quote file @ '' after append: '') (os_Close os file) w')"

definition AppendFile :: "'w os_calls \<Rightarrow> string \<Rightarrow> 'w go_context \<Rightarrow> string \<Rightarrow> string \<Rightarrow> ('w, unit) act" where
  "AppendFile os cwd ctx path data =
     check_ctx ctx (bind_act (AbsolutePath cwd ctx path)
       (\<lambda>abs. bind_act (make_parents os abs)
         (\<lambda>_. bind_act (wrap_act (''opening '' @ go_quote abs @ '' for append: '') (os_OpenAppend os abs))
           (\<lambda>_. append_data os abs data))))"

definition CreateTemp :: "'w os_calls \<Rightarrow> 'w go_context \<Rightarrow> string \<Rightarrow> string \<Rightarrow> ('w, string) act" where
  "CreateTemp os ctx pre suf =
     check_ctx ctx (bind_act
       (wrap_act (''creating temp file (prefix '' @ go_quote pre @ '', suffix '' @ go_quote suf @ ''): '')
          (os_CreateTemp os (pre @ ''*'' @ suf)))
       (\<lambda>name. bind_act (wrap_act (''closing temp file '' @ go_quote name @ '': '') (os_Close os name))
         (\<lambda>_ w. (Inl name, w))))"

subsection \<open>Running a command\<close>

definition flattenEnv :: "(string \<times> string) list \<Rightarrow> string list" where
  "flattenEnv env = map (\<lambda>(k, v). k @ ''='' @ v) env"

definition exec_environment :: "'w os_calls \<Rightarrow> ExecSpec \<Rightarrow> 'w \<Rightarrow> string list" where
  "exec_environment os spec w =
     (if xs_InheritEnv spec then os_Environ os w @ flattenEnv (xs_Env spec) else flattenEnv (xs_Env spec))"

text \<open>The \<^verbatim>\<open>select\<close>: without a timeout its channel is nil and never ready.\<close>

definition select_wake :: "int \<Rightarrow> wake list \<Rightarrow> wake" where
  "select_wake timeout ready =
     (case filter (\<lambda>k. k \<noteq> WakeTimeout \<or> timeout > 0) ready of k # _ \<Rightarrow> k | [] \<Rightarrow> WakeExited)"

definition Exec :: "'w os_calls \<Rightarrow> string \<Rightarrow> 'w go_context \<Rightarrow> ExecSpec \<Rightarrow> ('w, exec_event list \<times> ExecResult) act" where
  "Exec os cwd ctx spec w =
     (let dir = (if xs_Dir spec = [] then cwd else xs_Dir spec)
      in case os_Start os dir [''bash'', ''-c'', xs_Command spec] (exec_environment os spec w) w of
           (Inr e, w1) \<Rightarrow> (Inr (wrap_err ''starting command: '' e), w1)
         | (Inl p, w1) \<Rightarrow>
             (let ((evs, ready), w2) = os_Wait os p (if xs_Timeout spec > 0 then Some (xs_Timeout spec) else None) w1;
                  woke = select_wake (xs_Timeout spec) ready;
                  w3 = (if woke = WakeExited then w2 else os_Kill os p w2);
                  ((rest, code), w4) = os_Reap os p w3
              in (Inl (evs @ rest, \<lparr>xr_ExitCode = code, xr_Cancelled = (woke = WakeDone), xr_TimedOut = (woke = WakeTimeout)\<rparr>), w4)))"

definition OSEnv :: "'w os_calls \<Rightarrow> string \<Rightarrow> 'w ExecutionEnv" where
  "OSEnv os cwd =
     \<lparr>ee_Cwd = cwd, ee_AbsolutePath = AbsolutePath cwd, ee_CanonicalPath = CanonicalPath os cwd, ee_Exists = Exists os cwd,
      ee_FileInfo = env_FileInfo os cwd, ee_ReadFile = ReadFile os cwd, ee_WriteFile = WriteFile os cwd,
      ee_AppendFile = AppendFile os cwd, ee_CreateTemp = CreateTemp os, ee_Exec = Exec os cwd\<rparr>"

section \<open>Cancellation and commands\<close>

lemmas env_methods = OSEnv_def AbsolutePath_def CanonicalPath_def Exists_def env_FileInfo_def ReadFile_def WriteFile_def
  AppendFile_def CreateTemp_def

text \<open>
  Once the context is cancelled no file operation of the local environment makes a system call: each returns
  the context's error as it is, so that \<^verbatim>\<open>errors.Is\<close> still finds the cancellation, and leaves the world unchanged.
\<close>

theorem cancelled_env:
  assumes "ctx w = Some e"
  shows "ee_AbsolutePath (OSEnv os cwd) ctx p w = (Inr e, w) \<and> ee_CanonicalPath (OSEnv os cwd) ctx p w = (Inr e, w) \<and>
    ee_Exists (OSEnv os cwd) ctx p w = (Inr e, w) \<and> ee_FileInfo (OSEnv os cwd) ctx p w = (Inr e, w) \<and>
    ee_ReadFile (OSEnv os cwd) ctx p w = (Inr e, w) \<and> ee_WriteFile (OSEnv os cwd) ctx p d w = (Inr e, w) \<and>
    ee_AppendFile (OSEnv os cwd) ctx p d w = (Inr e, w) \<and> ee_CreateTemp (OSEnv os cwd) ctx p s w = (Inr e, w)"
  using assms by (simp add: env_methods)

text \<open>A command is killed exactly when its timeout or its context ended it, and then the group is killed before the process is waited for.\<close>

lemma select_timeout: "select_wake timeout ready = WakeTimeout \<Longrightarrow> 0 < timeout"
proof -
  assume s: "select_wake timeout ready = WakeTimeout"
  then obtain ks where "filter (\<lambda>k. k \<noteq> WakeTimeout \<or> timeout > 0) ready = WakeTimeout # ks"
    by (auto simp: select_wake_def split: list.splits)
  then have "WakeTimeout \<in> set (filter (\<lambda>k. k \<noteq> WakeTimeout \<or> timeout > 0) ready)" by simp
  then show ?thesis by simp
qed

lemma exec_outcome:
  assumes "Exec os cwd ctx spec w = (Inl (evs, r), w')"
  shows "xr_TimedOut r \<Longrightarrow> 0 < xs_Timeout spec" "\<not> (xr_TimedOut r \<and> xr_Cancelled r)"
    "\<exists>p w1 out ready w2 rest. os_Wait os p (if xs_Timeout spec > 0 then Some (xs_Timeout spec) else None) w1 = ((out, ready), w2) \<and>
       os_Reap os p (if xr_TimedOut r \<or> xr_Cancelled r then os_Kill os p w2 else w2) = ((rest, xr_ExitCode r), w') \<and> evs = out @ rest"
proof -
  obtain p w1 where s: "os_Start os (if xs_Dir spec = [] then cwd else xs_Dir spec) [''bash'', ''-c'', xs_Command spec]
      (exec_environment os spec w) w = (Inl p, w1)"
    using assms by (auto simp: Exec_def Let_def split: sum.splits prod.splits)
  obtain out ready w2 where w: "os_Wait os p (if xs_Timeout spec > 0 then Some (xs_Timeout spec) else None) w1 = ((out, ready), w2)"
    by (metis surj_pair)
  define woke where "woke = select_wake (xs_Timeout spec) ready"
  obtain rest code w4 where r: "os_Reap os p (if woke = WakeExited then w2 else os_Kill os p w2) = ((rest, code), w4)"
    by (metis surj_pair)
  have result: "evs = out @ rest" "w' = w4"
    "r = \<lparr>xr_ExitCode = code, xr_Cancelled = (woke = WakeDone), xr_TimedOut = (woke = WakeTimeout)\<rparr>"
    using assms unfolding Exec_def Let_def s w sum.case prod.case woke_def [symmetric] r by simp_all
  show "xr_TimedOut r \<Longrightarrow> 0 < xs_Timeout spec" "\<not> (xr_TimedOut r \<and> xr_Cancelled r)"
    using select_timeout [of "xs_Timeout spec" ready] by (auto simp: result(3) woke_def)
  have "(if xr_TimedOut r \<or> xr_Cancelled r then os_Kill os p w2 else w2) = (if woke = WakeExited then w2 else os_Kill os p w2)"
    by (cases woke) (simp_all add: result(3))
  then show "\<exists>p w1 out ready w2 rest. os_Wait os p (if xs_Timeout spec > 0 then Some (xs_Timeout spec) else None) w1 = ((out, ready), w2) \<and>
       os_Reap os p (if xr_TimedOut r \<or> xr_Cancelled r then os_Kill os p w2 else w2) = ((rest, xr_ExitCode r), w') \<and> evs = out @ rest"
    using w r result by (intro exI [of _ p] exI [of _ w1] exI [of _ out] exI [of _ ready] exI [of _ w2] exI [of _ rest]) simp
qed

section \<open>Stores of files\<close>

text \<open>
  What a client relies on: reading gives the content, writing replaces it, appending extends it, and a new
  temporary file is empty. Nothing is said of failed operations.
\<close>

locale file_env =
  fixes env :: "'w ExecutionEnv" and ctx :: "'w go_context" and content :: "'w \<Rightarrow> string \<Rightarrow> string option"
  assumes read_content: "ee_ReadFile env ctx p w = (Inl d, w') \<Longrightarrow> content w p = Some d"
    and read_keeps: "content (snd (ee_ReadFile env ctx p w)) = content w"
    and write_content: "ee_WriteFile env ctx p d w = (Inl u, w') \<Longrightarrow> content w' p = Some d"
    and append_content: "ee_AppendFile env ctx p d w = (Inl u, w') \<Longrightarrow>
      content w' p = Some ((case content w p of None \<Rightarrow> [] | Some old \<Rightarrow> old) @ d)"
    and temp_content: "ee_CreateTemp env ctx pre suf w = (Inl p, w') \<Longrightarrow> content w' p = Some []"
    and info_keeps: "content (snd (ee_FileInfo env ctx p w)) = content w"
    and absolute_keeps: "content (snd (ee_AbsolutePath env ctx p w)) = content w"
    and canonical_keeps: "content (snd (ee_CanonicalPath env ctx p w)) = content w"
    and exists_keeps: "content (snd (ee_Exists env ctx p w)) = content w"
begin

lemma append_known: "ee_AppendFile env ctx p d w = (Inl u, w') \<Longrightarrow> content w p = Some old \<Longrightarrow> content w' p = Some (old @ d)"
  using append_content by fastforce

lemma keeps:
  "ee_ReadFile env ctx p w = (x, w') \<Longrightarrow> content w' = content w"
  "ee_FileInfo env ctx p w = (i, w') \<Longrightarrow> content w' = content w"
  "ee_AbsolutePath env ctx p w = (y, w') \<Longrightarrow> content w' = content w"
  "ee_CanonicalPath env ctx p w = (y, w') \<Longrightarrow> content w' = content w"
  "ee_Exists env ctx p w = (z, w') \<Longrightarrow> content w' = content w"
  using read_keeps [of p w] info_keeps [of p w] absolute_keeps [of p w] canonical_keeps [of p w] exists_keeps [of p w] by simp_all

lemma write_read: "ee_WriteFile env ctx p d w = (Inl u, w') \<Longrightarrow> ee_ReadFile env ctx p w' = (Inl d', w'') \<Longrightarrow> d' = d"
  using write_content read_content by fastforce

end

text \<open>The same of the system calls, for absolute paths.\<close>

locale os_files =
  fixes os :: "'w os_calls" and store :: "'w \<Rightarrow> string \<Rightarrow> string option"
  assumes os_read: "os_ReadFile os p w = (Inl d, w') \<Longrightarrow> store w p = Some d"
    and os_read_keeps: "store (snd (os_ReadFile os p w)) = store w"
    and os_lstat_keeps: "store (snd (os_Lstat os p w)) = store w"
    and os_eval_keeps: "store (snd (os_EvalSymlinks os p w)) = store w"
    and os_mkdir: "os_MkdirAll os p w = (Inl u, w') \<Longrightarrow> store w' = store w"
    and os_write: "os_WriteFile os p d w = (Inl u, w') \<Longrightarrow> store w' p = Some d"
    and os_open: "os_OpenAppend os p w = (Inl u, w') \<Longrightarrow> store w' p = Some (case store w p of None \<Rightarrow> [] | Some old \<Rightarrow> old)"
    and os_append: "os_Write os p d w = (Inl u, w') \<Longrightarrow> store w p = Some old \<Longrightarrow> store w' p = Some (old @ d)"
    and os_close: "store (snd (os_Close os p w)) = store w"
    and os_temp: "os_CreateTemp os pat w = (Inl p, w') \<Longrightarrow> store w' p = Some [] \<and> is_abs p \<and> filepath_Clean p = p"

text \<open>The local environment keeps the laws when the system does.\<close>

sublocale os_files \<subseteq> osenv: file_env "OSEnv os cwd" ctx "\<lambda>w p. store w (absolute cwd p)" for cwd ctx
proof
  fix p d w w'
  assume "ee_ReadFile (OSEnv os cwd) ctx p w = (Inl d, w')"
  then show "store w (absolute cwd p) = Some d"
    using os_read by (auto simp: env_methods)
next
  fix p d w w' and u :: unit
  assume "ee_WriteFile (OSEnv os cwd) ctx p d w = (Inl u, w')"
  then show "store w' (absolute cwd p) = Some d"
    using os_write by (auto simp: env_methods)
next
  fix p d w w' and u :: unit
  let ?p = "absolute cwd p"
  assume "ee_AppendFile (OSEnv os cwd) ctx p d w = (Inl u, w')"
  then obtain v1 v2 where m: "os_MkdirAll os (filepath_Dir ?p) w = (Inl (), v1)" "os_OpenAppend os ?p v1 = (Inl (), v2)"
    and a: "append_data os ?p d v2 = (Inl u, w')"
    by (auto simp: env_methods make_parents_def)
  from a obtain v3 where w: "os_Write os ?p d v2 = (Inl (), v3)" "os_Close os ?p v3 = (Inl u, w')"
    by (auto simp: append_data_def split: sum.splits prod.splits)
  have "store w' = store v3" using os_close [of ?p v3] w(2) by simp
  moreover have "store v2 ?p = Some (case store w ?p of None \<Rightarrow> [] | Some old \<Rightarrow> old)"
    using os_open [OF m(2)] os_mkdir [OF m(1)] by simp
  ultimately show "store w' ?p = Some ((case store w ?p of None \<Rightarrow> [] | Some old \<Rightarrow> old) @ d)"
    using os_append [OF w(1)] by simp
next
  fix pre suf p w w'
  assume "ee_CreateTemp (OSEnv os cwd) ctx pre suf w = (Inl p, w')"
  then obtain v where "os_CreateTemp os (pre @ ''*'' @ suf) w = (Inl p, v)" "os_Close os p v = (Inl (), w')"
    by (auto simp: env_methods)
  then show "store w' (absolute cwd p) = Some []"
    using os_temp os_close [of p v] by (auto simp: absolute_def)
next
  fix p w
  let ?p = "absolute cwd p"
  have r: "store (snd (os_ReadFile os ?p w)) = store w" "store (snd (os_Lstat os ?p w)) = store w"
    "store (snd (os_EvalSymlinks os ?p w)) = store w"
    by (fact os_read_keeps os_lstat_keeps os_eval_keeps)+
  show "(\<lambda>q. store (snd (ee_ReadFile (OSEnv os cwd) ctx p w)) (absolute cwd q)) = (\<lambda>q. store w (absolute cwd q))"
    using r(1) by (auto simp: env_methods check_ctx_def bind_act_def wrap_act_def split: option.splits sum.splits prod.splits)
  show "(\<lambda>q. store (snd (ee_FileInfo (OSEnv os cwd) ctx p w)) (absolute cwd q)) = (\<lambda>q. store w (absolute cwd q))"
    using r(2) by (auto simp: env_methods check_ctx_def bind_act_def wrap_act_def split: option.splits sum.splits prod.splits)
  show "(\<lambda>q. store (snd (ee_AbsolutePath (OSEnv os cwd) ctx p w)) (absolute cwd q)) = (\<lambda>q. store w (absolute cwd q))"
    by (auto simp: env_methods check_ctx_def split: option.splits)
  show "(\<lambda>q. store (snd (ee_CanonicalPath (OSEnv os cwd) ctx p w)) (absolute cwd q)) = (\<lambda>q. store w (absolute cwd q))"
    using r(3) by (auto simp: env_methods check_ctx_def bind_act_def wrap_act_def split: option.splits sum.splits prod.splits)
  show "(\<lambda>q. store (snd (ee_Exists (OSEnv os cwd) ctx p w)) (absolute cwd q)) = (\<lambda>q. store w (absolute cwd q))"
    using r(2) by (auto simp: env_methods check_ctx_def bind_act_def split: option.splits sum.splits prod.splits)
qed

section \<open>A disk in memory\<close>

text \<open>
  A machine to run the tools on: files and directories by absolute path, without symbolic links, the
  programs' behaviour by command, and whether the context is cancelled.
\<close>

datatype node = FileNode string | DirNode

record disk =
  dk_nodes :: "string \<Rightarrow> node option"
  dk_cancelled :: bool
  dk_temps :: nat
  dk_running :: "string list"
  dk_programs :: "string \<Rightarrow> exec_event list \<times> wake list \<times> exec_event list \<times> int"

definition disk_file :: "disk \<Rightarrow> string \<Rightarrow> string option" where
  "disk_file w p = (case dk_nodes w p of Some (FileNode d) \<Rightarrow> Some d | _ \<Rightarrow> None)"

definition disk_ctx :: "disk go_context" where
  "disk_ctx w = (if dk_cancelled w then Some (sentinel_err CtxCanceled) else None)"

definition disk_put :: "string \<Rightarrow> node \<Rightarrow> disk \<Rightarrow> disk" where
  "disk_put p n w = w\<lparr>dk_nodes := (dk_nodes w)(p \<mapsto> n)\<rparr>"

definition disk_stat :: "string \<Rightarrow> (disk, stat) act" where
  "disk_stat p w =
     (case dk_nodes w p of
        None \<Rightarrow> (Inr (sentinel_err FsNotExist), w)
      | Some DirNode \<Rightarrow> (Inl \<lparr>st_symlink = False, st_dir = True, st_size = 0\<rparr>, w)
      | Some (FileNode d) \<Rightarrow> (Inl \<lparr>st_symlink = False, st_dir = False, st_size = int (length d)\<rparr>, w))"

definition disk_read :: "string \<Rightarrow> (disk, string) act" where
  "disk_read p w =
     (case dk_nodes w p of
        None \<Rightarrow> (Inr (sentinel_err FsNotExist), w)
      | Some DirNode \<Rightarrow> (Inr (sentinel_err SysEISDIR), w)
      | Some (FileNode d) \<Rightarrow> (Inl d, w))"

definition disk_mkdir :: "string \<Rightarrow> (disk, unit) act" where
  "disk_mkdir p w =
     (case dk_nodes w p of
        None \<Rightarrow> (Inl (), disk_put p DirNode w)
      | Some DirNode \<Rightarrow> (Inl (), w)
      | Some (FileNode d) \<Rightarrow> (Inr (sentinel_err SysENOTDIR), w))"

definition disk_write :: "string \<Rightarrow> string \<Rightarrow> (disk, unit) act" where
  "disk_write p d w =
     (if dk_nodes w p = Some DirNode then (Inr (sentinel_err SysEISDIR), w) else (Inl (), disk_put p (FileNode d) w))"

definition disk_open :: "string \<Rightarrow> (disk, unit) act" where
  "disk_open p w = disk_write p (case disk_file w p of None \<Rightarrow> [] | Some old \<Rightarrow> old) w"

definition disk_append :: "string \<Rightarrow> string \<Rightarrow> (disk, unit) act" where
  "disk_append p d w = disk_write p ((case disk_file w p of None \<Rightarrow> [] | Some old \<Rightarrow> old) @ d) w"

definition disk_temp :: "string \<Rightarrow> (disk, string) act" where
  "disk_temp pat w =
     (let p = ''/tmp/'' @ concat (map (\<lambda>c. if c = CHR ''*'' then itoa_nat (dk_temps w) else [c]) pat)
      in if filepath_Clean p = p \<and> dk_nodes w p = None
         then (Inl p, disk_put p (FileNode []) (w\<lparr>dk_temps := dk_temps w + 1\<rparr>))
         else (Inr (errors_new ''pattern contains path separator''), w))"

definition disk_os :: "disk os_calls" where
  "disk_os =
     \<lparr>os_Getwd = (\<lambda>w. (Inl ''/'', w)), os_Stat = disk_stat, os_Lstat = disk_stat,
      os_EvalSymlinks = (\<lambda>p w. case dk_nodes w p of None \<Rightarrow> (Inr (sentinel_err FsNotExist), w) | Some n \<Rightarrow> (Inl p, w)),
      os_ReadFile = disk_read, os_MkdirAll = disk_mkdir, os_WriteFile = disk_write, os_OpenAppend = disk_open,
      os_Write = disk_append, os_Close = (\<lambda>p w. (Inl (), w)), os_CreateTemp = disk_temp, os_Environ = (\<lambda>w. []),
      os_Start = (\<lambda>dir args env w. (Inl (length (dk_running w)), w\<lparr>dk_running := dk_running w @ [last args]\<rparr>)),
      os_Wait = (\<lambda>p t w. let (evs, ready, rest, code) = dk_programs w (dk_running w ! p) in ((evs, ready), w)),
      os_Kill = (\<lambda>p w. w),
      os_Reap = (\<lambda>p w. let (evs, ready, rest, code) = dk_programs w (dk_running w ! p) in ((rest, code), w))\<rparr>"

interpretation disk: os_files disk_os disk_file
proof
  fix p d w w' u old pat
  show "os_ReadFile disk_os p w = (Inl d, w') \<Longrightarrow> disk_file w p = Some d"
    by (auto simp: disk_os_def disk_read_def disk_file_def split: option.splits node.splits)
  show "disk_file (snd (os_ReadFile disk_os p w)) = disk_file w" "disk_file (snd (os_Lstat disk_os p w)) = disk_file w"
    "disk_file (snd (os_EvalSymlinks disk_os p w)) = disk_file w"
    by (auto simp: disk_os_def disk_read_def disk_stat_def split: option.splits node.splits)
  show "os_MkdirAll disk_os p w = (Inl u, w') \<Longrightarrow> disk_file w' = disk_file w"
    by (auto simp: disk_os_def disk_mkdir_def disk_put_def disk_file_def split: option.splits node.splits)
  show "os_WriteFile disk_os p d w = (Inl u, w') \<Longrightarrow> disk_file w' p = Some d"
    by (auto simp: disk_os_def disk_write_def disk_put_def disk_file_def split: if_splits)
  show "os_OpenAppend disk_os p w = (Inl u, w') \<Longrightarrow> disk_file w' p = Some (case disk_file w p of None \<Rightarrow> [] | Some old \<Rightarrow> old)"
    by (auto simp: disk_os_def disk_open_def disk_write_def disk_put_def disk_file_def split: if_splits)
  show "os_Write disk_os p d w = (Inl u, w') \<Longrightarrow> disk_file w p = Some old \<Longrightarrow> disk_file w' p = Some (old @ d)"
    by (auto simp: disk_os_def disk_append_def disk_write_def disk_put_def disk_file_def split: if_splits)
  show "disk_file (snd (os_Close disk_os p w)) = disk_file w"
    by (simp add: disk_os_def)
  show "os_CreateTemp disk_os pat w = (Inl p, w') \<Longrightarrow> disk_file w' p = Some [] \<and> is_abs p \<and> filepath_Clean p = p"
    by (auto simp: disk_os_def disk_temp_def disk_put_def disk_file_def is_abs_def has_prefix_def Let_def split: if_splits)
qed

definition demo_disk :: disk where
  "demo_disk = \<lparr>dk_nodes = [''/w'' \<mapsto> DirNode, ''/w/a.txt'' \<mapsto> FileNode (''one'' @ newline # ''two'')], dk_cancelled = False,
     dk_temps = 0, dk_running = [], dk_programs = (\<lambda>c. ([], [WakeExited], [], 0))\<rparr>"

lemma cancelled_env_witness:
  "ee_ReadFile (OSEnv disk_os ''/w'') disk_ctx ''a.txt'' (demo_disk\<lparr>dk_cancelled := True\<rparr>) =
     (Inr (sentinel_err CtxCanceled), demo_disk\<lparr>dk_cancelled := True\<rparr>)"
  using cancelled_env [of disk_ctx "demo_disk\<lparr>dk_cancelled := True\<rparr>"] by (simp add: disk_ctx_def)

end
