(* ===== verification/Shell_Capture.thy ===== *)
theory Shell_Capture
  imports Exec_Env Truncate
begin

text \<open>
  Capturing the output of a command (tools/shell_output.go): each chunk is cleaned, counted, added to a
  tail buffer of bounded size and, once the stream is over a limit, written to a spill file. What is
  reported at any moment is shown to be the truncation of the whole cleaned stream, though only its tail is kept,
  and the spill file to hold the whole of it.
\<close>

section \<open>State\<close>

definition maxTailBytes :: int where
  "maxTailBytes = 2 * DefaultMaxBytes"

record ShellProgress =
  sp_Output :: string
  sp_Truncation :: TruncationResult
  sp_FullOutputPath :: string

record ShellCapture =
  sh_Output :: string
  sh_Truncation :: TruncationResult
  sh_FullOutputPath :: string
  sh_LastLineBytes :: nat
  sh_ExitCode :: int
  sh_Cancelled :: bool
  sh_TimedOut :: bool

record ShellCaptureOptions =
  sho_Dir :: string
  sho_Env :: "(string \<times> string) list"
  sho_InheritEnv :: bool
  sho_Timeout :: int

record shellCaptureState =
  sc_tail :: string
  sc_totalBytes :: nat
  sc_completedLines :: nat
  sc_hasOpenLine :: bool
  sc_currentLineBytes :: nat
  sc_fullOutputPath :: string
  sc_fullOutputStarted :: bool
  sc_spillErr :: "err option"

definition zero_capture :: shellCaptureState where
  "zero_capture = \<lparr>sc_tail = [], sc_totalBytes = 0, sc_completedLines = 0, sc_hasOpenLine = False,
     sc_currentLineBytes = 0, sc_fullOutputPath = [], sc_fullOutputStarted = False, sc_spillErr = None\<rparr>"

section \<open>Observing a chunk\<close>

text \<open>The order of the cases is that of the code: a carriage return passes here and is removed after.\<close>

definition binary_rune :: "nat \<Rightarrow> nat option" where
  "binary_rune r =
     (if r = 0x09 \<or> r = 0x0A \<or> r = 0x0D then Some r
      else if r \<le> 0x1F then None
      else if 0xFFF9 \<le> r \<and> r \<le> 0xFFFB then None
      else Some r)"

definition sanitizeBinaryOutput :: "string \<Rightarrow> string" where
  "sanitizeBinaryOutput s = strings_map binary_rune s"

definition clean_chunk :: "string \<Rightarrow> string" where
  "clean_chunk chunk = replace_all (sanitizeBinaryOutput chunk) [CHR 0x0D] []"

definition after_last_newline :: "string \<Rightarrow> string" where
  "after_last_newline s = rev (takeWhile (\<lambda>c. c \<noteq> newline) (rev s))"

definition count_chunk :: "string \<Rightarrow> shellCaptureState \<Rightarrow> shellCaptureState" where
  "count_chunk txt st =
     (let st = st\<lparr>sc_totalBytes := sc_totalBytes st + length txt,
                  sc_completedLines := sc_completedLines st + strings_count txt [newline],
                  sc_tail := sc_tail st @ txt\<rparr>
      in if newline \<in> set txt
         then st\<lparr>sc_currentLineBytes := length (after_last_newline txt), sc_hasOpenLine := (after_last_newline txt \<noteq> [])\<rparr>
         else if txt \<noteq> [] then st\<lparr>sc_currentLineBytes := sc_currentLineBytes st + length txt, sc_hasOpenLine := True\<rparr>
         else st)"

definition total_lines :: "shellCaptureState \<Rightarrow> nat" where
  "total_lines st = sc_completedLines st + (if sc_hasOpenLine st then 1 else 0)"

definition overflowing :: "shellCaptureState \<Rightarrow> bool" where
  "overflowing st \<longleftrightarrow> int (sc_totalBytes st) > DefaultMaxBytes \<or> int (total_lines st) > DefaultMaxLines"

definition spill :: "'w ExecutionEnv \<Rightarrow> 'w go_context \<Rightarrow> string \<Rightarrow> shellCaptureState \<Rightarrow> 'w \<Rightarrow> shellCaptureState \<times> 'w" where
  "spill env ctx txt st w =
     (if sc_spillErr st \<noteq> None then (st, w)
      else if overflowing st \<and> \<not> sc_fullOutputStarted st
      then let st = st\<lparr>sc_fullOutputStarted := True\<rparr>
           in case ee_CreateTemp env ctx ''bash-'' ''.log'' w of
                (Inr e, w1) \<Rightarrow> (st\<lparr>sc_spillErr := Some (wrap_err ''creating full-output spill file: '' e)\<rparr>, w1)
              | (Inl path, w1) \<Rightarrow>
                  (let st = st\<lparr>sc_fullOutputPath := path\<rparr>
                   in case ee_AppendFile env ctx path (sc_tail st) w1 of
                        (Inr e, w2) \<Rightarrow>
                          (st\<lparr>sc_spillErr := Some (wrap_err (''writing full-output spill file '' @ go_quote path @ '': '') e)\<rparr>, w2)
                      | (Inl _, w2) \<Rightarrow> (st, w2))
      else if sc_fullOutputStarted st
      then case ee_AppendFile env ctx (sc_fullOutputPath st) txt w of
             (Inr e, w1) \<Rightarrow>
               (st\<lparr>sc_spillErr := Some (wrap_err (''appending to full-output spill file '' @ go_quote (sc_fullOutputPath st) @ '': '') e)\<rparr>, w1)
           | (Inl _, w1) \<Rightarrow> (st, w1)
      else (st, w))"

definition observeChunk :: "'w ExecutionEnv \<Rightarrow> 'w go_context \<Rightarrow> string \<Rightarrow> shellCaptureState \<Rightarrow> 'w \<Rightarrow>
    string \<times> shellCaptureState \<times> 'w" where
  "observeChunk env ctx chunk st w =
     (let txt = clean_chunk chunk;
          (st, w) = spill env ctx txt (count_chunk txt st) w
      in (txt, st\<lparr>sc_tail := truncateStringToBytesFromEnd (sc_tail st) maxTailBytes\<rparr>, w))"

section \<open>Reporting\<close>

definition snapshotLocked :: "shellCaptureState \<Rightarrow> ShellProgress" where
  "snapshotLocked st =
     (let tailTruncation = TruncateTail (sc_tail st) no_options;
          totalLines = total_lines st;
          truncated = int totalLines > DefaultMaxLines \<or> int (sc_totalBytes st) > DefaultMaxBytes;
          truncation = tailTruncation\<lparr>tn_Truncated := truncated, tn_TotalLines := totalLines,
            tn_TotalBytes := sc_totalBytes st,
            tn_TruncatedBy :=
              (if \<not> truncated then []
               else if tn_TruncatedBy tailTruncation \<noteq> [] then tn_TruncatedBy tailTruncation
               else if int (sc_totalBytes st) > DefaultMaxBytes then ''bytes'' else ''lines'')\<rparr>
      in \<lparr>sp_Output = (if truncated then tn_Content truncation else sc_tail st),
          sp_Truncation = truncation, sp_FullOutputPath = sc_fullOutputPath st\<rparr>)"

section \<open>Running the command\<close>

text \<open>
  The caller's callbacks act on a state of its own: \<open>on_chunk\<close> at each chunk with the progress then, \<open>on_timer\<close> when a timer
  of the caller's goes off, with the progress its snapshot function gives at that moment.
\<close>

fun capture_events :: "'w ExecutionEnv \<Rightarrow> 'w go_context \<Rightarrow> (int \<Rightarrow> ShellProgress \<Rightarrow> 's \<Rightarrow> 's) \<Rightarrow> (int \<Rightarrow> ShellProgress \<Rightarrow> 's \<Rightarrow> 's) \<Rightarrow>
    exec_event list \<Rightarrow> shellCaptureState \<times> 's \<times> 'w \<Rightarrow> shellCaptureState \<times> 's \<times> 'w" where
  "capture_events env ctx on_chunk on_timer [] x = x"
| "capture_events env ctx on_chunk on_timer (Output now chunk # evs) (st, s, w) =
     (let (txt, st, w) = observeChunk env ctx chunk st w
      in capture_events env ctx on_chunk on_timer evs (st, on_chunk now (snapshotLocked st) s, w))"
| "capture_events env ctx on_chunk on_timer (Timer now # evs) (st, s, w) =
     capture_events env ctx on_chunk on_timer evs (st, on_timer now (snapshotLocked st) s, w)"

definition shell_spec :: "string \<Rightarrow> ShellCaptureOptions \<Rightarrow> ExecSpec" where
  "shell_spec command opts =
     \<lparr>xs_Command = command, xs_Dir = sho_Dir opts, xs_Env = sho_Env opts, xs_InheritEnv = sho_InheritEnv opts,
      xs_Timeout = sho_Timeout opts\<rparr>"

definition capture_result :: "shellCaptureState \<Rightarrow> ExecResult \<Rightarrow> ShellCapture" where
  "capture_result st result =
     (let progress = snapshotLocked st
      in \<lparr>sh_Output = sp_Output progress, sh_Truncation = sp_Truncation progress,
          sh_FullOutputPath = sp_FullOutputPath progress, sh_LastLineBytes = sc_currentLineBytes st,
          sh_ExitCode = xr_ExitCode result, sh_Cancelled = xr_Cancelled result, sh_TimedOut = xr_TimedOut result\<rparr>)"

definition ExecuteShellWithCapture :: "'w ExecutionEnv \<Rightarrow> 'w go_context \<Rightarrow> string \<Rightarrow> ShellCaptureOptions \<Rightarrow>
    (int \<Rightarrow> ShellProgress \<Rightarrow> 's \<Rightarrow> 's) \<Rightarrow> (int \<Rightarrow> ShellProgress \<Rightarrow> 's \<Rightarrow> 's) \<Rightarrow> 's \<Rightarrow> 'w \<Rightarrow> (ShellCapture + err) \<times> 's \<times> 'w" where
  "ExecuteShellWithCapture env ctx command opts on_chunk on_timer s w =
     (case ee_Exec env ctx (shell_spec command opts) w of
        (Inr e, w1) \<Rightarrow> (Inr (wrap_err ''executing shell command with capture: '' e), s, w1)
      | (Inl (evs, result), w1) \<Rightarrow>
          (let (st, s, w2) = capture_events env ctx on_chunk on_timer evs (zero_capture, s, w1)
           in case sc_spillErr st of
                Some e \<Rightarrow> (Inr e, s, w2)
              | None \<Rightarrow> (Inl (capture_result st result), s, w2)))"

section \<open>Cleaned text is well-formed\<close>

lemma runes_append: "valid_utf8 s \<Longrightarrow> runes (s @ t) = runes s @ runes t"
proof (induction "length s" arbitrary: s rule: less_induct)
  case less
  show ?case
  proof (cases "s = []")
    case False
    obtain r n where d: "decode_rune s = (r, n)" by (cases "decode_rune s") auto
    note step = valid_utf8_step [OF less.prems False d]
    have "decode_rune (take n s @ drop n s @ t) = (r, n)"
      by (rule decode_rune_append [OF d False step(1)])
    then have "decode_rune (s @ t) = (r, n)" by (metis append_assoc append_take_drop_id)
    then have "runes (s @ t) = (r, take n s) # runes (drop n s @ t)"
      using False step(5) by (simp add: runes_step)
    moreover have "runes (drop n s @ t) = runes (drop n s) @ runes t"
      using less.hyps [of "drop n s"] step False by simp
    ultimately show ?thesis using False d by (simp add: runes_step)
  qed simp
qed

lemma valid_utf8_append: "valid_utf8 s \<Longrightarrow> valid_utf8 t \<Longrightarrow> valid_utf8 (s @ t)"
  by (auto simp: valid_utf8_def runes_append)

lemma valid_utf8_concat: "\<forall>s \<in> set ss. valid_utf8 s \<Longrightarrow> valid_utf8 (concat ss)"
  by (induction ss) (auto intro: valid_utf8_append)

lemma one_rune_valid:
  assumes "decode_rune s = (r, length s)" "s \<noteq> []" "\<not> (r = rune_error \<and> length s = 1)"
  shows "valid_utf8 s"
  using assms by (simp add: valid_utf8_def runes_step bad_chunk_def)

lemma decode_three:
  assumes "a \<le> 15" "b < 64" "c < 64" "a = 0 \<Longrightarrow> 32 \<le> b" "a = 13 \<Longrightarrow> b < 32"
  shows "decode_rune [chr (0xE0 + a), chr (0x80 + b), chr (0x80 + c)] = (a * 4096 + b * 64 + c, 3)"
  using assms by (auto simp: decode_rune.simps ok_second_def second_lo_def second_hi_def is_cont_def)

lemma decode_four:
  assumes "a \<le> 4" "b < 64" "c < 64" "d < 64" "a = 0 \<Longrightarrow> 16 \<le> b" "a = 4 \<Longrightarrow> b < 16"
  shows "decode_rune [chr (0xF0 + a), chr (0x80 + b), chr (0x80 + c), chr (0x80 + d)] =
     (a * 262144 + b * 4096 + c * 64 + d, 4)"
  using assms by (auto simp: decode_rune.simps ok_second_def second_lo_def second_hi_def is_cont_def)

lemma decode_two:
  assumes "2 \<le> a" "a < 32" "b < 64"
  shows "decode_rune [chr (0xC0 + a), chr (0x80 + b)] = (a * 64 + b, 2)"
  using assms by (auto simp: decode_rune.simps ok_second_def second_lo_def second_hi_def)

lemma encode_rune_valid: "valid_utf8 (encode_rune r)"
proof -
  consider "r \<le> 0x7F" | "0x7F < r" "r \<le> 0x7FF" | "0x10FFFF < r \<or> (0xD800 \<le> r \<and> r \<le> 0xDFFF)"
    | "0x7FF < r" "r \<le> 0xFFFF" "r < 0xD800 \<or> 0xDFFF < r" | "0xFFFF < r" "r \<le> 0x10FFFF"
    by linarith
  then show ?thesis
  proof cases
    case 1
    then show ?thesis by (auto simp: encode_rune_def intro!: valid_utf8_ascii)
  next
    case 2
    then have "2 \<le> r div 64" "r div 64 < 32" by auto
    from decode_two [OF this, of "r mod 64"] show ?thesis
      using 2 by (auto simp: encode_rune_def intro!: one_rune_valid)
  next
    case 3
    have "decode_rune [chr (0xE0 + 15), chr (0x80 + 63), chr (0x80 + 61)] = (0xFFFD, 3)"
      by (subst decode_three) simp_all
    moreover have "encode_rune r = [chr (0xE0 + 15), chr (0x80 + 63), chr (0x80 + 61)]"
      using 3 by (auto simp: encode_rune_def)
    ultimately show ?thesis by (auto intro!: one_rune_valid)
  next
    case 4
    define k where "k = r div 64"
    have ab: "r div 4096 = k div 64" "r div 64 mod 64 = k mod 64" "k = k div 64 * 64 + k mod 64" "k mod 64 < 64"
      by (simp_all add: k_def div_4096)
    have lo: "32 \<le> k" "k \<le> 1023" unfolding k_def using 4(1,2) by simp_all
    have gap: "k < 864 \<or> 896 \<le> k" unfolding k_def using 4(3) by auto
    have "r div 4096 \<le> 15" using lo ab by linarith
    moreover have "32 \<le> r div 64 mod 64" if "r div 4096 = 0" using that lo ab by linarith
    moreover have "r div 64 mod 64 < 32" if "r div 4096 = 13" using that gap ab by linarith
    ultimately have "decode_rune [chr (0xE0 + r div 4096), chr (0x80 + r div 64 mod 64), chr (0x80 + r mod 64)] =
        (r div 4096 * 4096 + r div 64 mod 64 * 64 + r mod 64, 3)"
      by (intro decode_three) simp_all
    moreover have "encode_rune r = [chr (0xE0 + r div 4096), chr (0x80 + r div 64 mod 64), chr (0x80 + r mod 64)]"
      using 4 by (auto simp: encode_rune_def)
    ultimately show ?thesis by (auto intro!: one_rune_valid)
  next
    case 5
    define k where "k = r div 4096"
    have ab: "r div 262144 = k div 64" "r div 4096 mod 64 = k mod 64" "k = k div 64 * 64 + k mod 64" "k mod 64 < 64"
      by (simp_all add: k_def div_4096 div_262144)
    have lo: "16 \<le> k" "k \<le> 271" unfolding k_def using 5 by simp_all
    have "r div 262144 \<le> 4" using lo ab by linarith
    moreover have "16 \<le> r div 4096 mod 64" if "r div 262144 = 0" using that lo ab by linarith
    moreover have "r div 4096 mod 64 < 16" if "r div 262144 = 4" using that lo ab by linarith
    ultimately have "decode_rune [chr (0xF0 + r div 262144), chr (0x80 + r div 4096 mod 64), chr (0x80 + r div 64 mod 64), chr (0x80 + r mod 64)] =
        (r div 262144 * 262144 + r div 4096 mod 64 * 4096 + r div 64 mod 64 * 64 + r mod 64, 4)"
      by (intro decode_four) simp_all
    moreover have "encode_rune r = [chr (0xF0 + r div 262144), chr (0x80 + r div 4096 mod 64), chr (0x80 + r div 64 mod 64), chr (0x80 + r mod 64)]"
      using 5 by (simp add: encode_rune_def)
    ultimately show ?thesis by (auto intro!: one_rune_valid)
  qed
qed

lemma strings_map_valid: "valid_utf8 (strings_map f s)"
  by (auto simp: strings_map_def map_chunk_def encode_rune_valid intro!: valid_utf8_concat split: option.splits)

section \<open>A chunk, cleaned\<close>

lemma replace_char: "replace_all s [c] [] = filter (\<lambda>x. x \<noteq> c) s"
proof -
  have "replace_from 0 [c] [] s = filter (\<lambda>x. x \<noteq> c) s"
    by (induction s) (auto simp: has_prefix_def)
  then show ?thesis by (simp add: replace_all_def)
qed

lemma count_char: "strings_count s [c] = length (filter (\<lambda>x. x = c) s)"
proof -
  have "count_from 0 [c] s = length (filter (\<lambda>x. x = c) s)"
    by (induction s) (auto simp: has_prefix_def)
  then show ?thesis by (simp add: strings_count_def)
qed

lemma filter_valid:
  assumes "valid_utf8 s" "byte c < 0x80"
  shows "valid_utf8 (filter (\<lambda>x. x \<noteq> c) s)"
  using assms(1)
proof (induction "length s" arbitrary: s rule: less_induct)
  case less
  show ?case
  proof (cases "s = []")
    case False
    obtain r n where d: "decode_rune s = (r, n)" by (cases "decode_rune s") auto
    note step = valid_utf8_step [OF less.prems False d]
    have rest: "valid_utf8 (filter (\<lambda>x. x \<noteq> c) (drop n s))"
      using less.hyps [of "drop n s"] step False by simp
    have first: "valid_utf8 (take n s)" using encode_rune_valid [of r] step(3) by simp
    have "filter (\<lambda>x. x \<noteq> c) (take n s) = take n s \<or> filter (\<lambda>x. x \<noteq> c) (take n s) = []"
    proof (cases "r \<le> 0x7F")
      case True
      then show ?thesis using step(3) [symmetric] by (simp add: encode_rune_def)
    next
      case False
      have "0x80 \<le> byte x" if "x \<in> set (encode_rune r)" for x
        using that False unfolding encode_rune_def
        by (auto split: if_splits simp: add.commute)
      then have "c \<notin> set (take n s)" using assms(2) step(3) by (metis not_le)
      then show ?thesis by (metis (mono_tags, lifting) filter_True)
    qed
    then have "valid_utf8 (filter (\<lambda>x. x \<noteq> c) (take n s) @ filter (\<lambda>x. x \<noteq> c) (drop n s))"
      using first rest by (auto intro: valid_utf8_append)
    then show ?thesis by (metis append_take_drop_id filter_append)
  qed simp
qed

lemma clean_valid: "valid_utf8 (clean_chunk chunk)"
  by (simp add: clean_chunk_def replace_char sanitizeBinaryOutput_def filter_valid strings_map_valid)


section \<open>What is kept of the stream\<close>

text \<open>The state after the cleaned text \<open>txt\<close>, whatever the chunks it came in.\<close>

definition observed :: "string \<Rightarrow> shellCaptureState \<Rightarrow> bool" where
  "observed txt st \<longleftrightarrow> valid_utf8 txt \<and> sc_totalBytes st = length txt \<and>
     sc_completedLines st = length (filter (\<lambda>c. c = newline) txt) \<and>
     sc_hasOpenLine st = (after_last_newline txt \<noteq> []) \<and> sc_currentLineBytes st = length (after_last_newline txt) \<and>
     sc_tail st = truncateStringToBytesFromEnd txt maxTailBytes"

lemma after_newline_append:
  "after_last_newline (s @ t) = (if newline \<in> set t then after_last_newline t else after_last_newline s @ t)"
proof (cases "newline \<in> set t")
  case True
  then have "takeWhile (\<lambda>c. c \<noteq> newline) (rev t @ rev s) = takeWhile (\<lambda>c. c \<noteq> newline) (rev t)"
    by (intro takeWhile_append1 [of newline]) auto
  then show ?thesis using True by (simp add: after_last_newline_def)
next
  case False
  then have "takeWhile (\<lambda>c. c \<noteq> newline) (rev t @ rev s) = rev t @ takeWhile (\<lambda>c. c \<noteq> newline) (rev s)"
    by (intro takeWhile_append2) auto
  then show ?thesis using False by (simp add: after_last_newline_def)
qed

lemma spill_fields:
  assumes "spill env ctx txt st w = (st', w')"
  shows "sc_tail st' = sc_tail st" "sc_totalBytes st' = sc_totalBytes st" "sc_completedLines st' = sc_completedLines st"
    "sc_hasOpenLine st' = sc_hasOpenLine st" "sc_currentLineBytes st' = sc_currentLineBytes st"
  using assms by (auto simp: spill_def Let_def split: if_splits sum.splits prod.splits)

lemma observe_chunk:
  assumes "observed txt st" "observeChunk env ctx chunk st w = (t, st', w')"
  shows "t = clean_chunk chunk" "observed (txt @ clean_chunk chunk) st'"
proof -
  let ?t = "clean_chunk chunk" and ?st = "count_chunk (clean_chunk chunk) st"
  obtain st1 where sp: "spill env ctx ?t ?st w = (st1, w')" and st': "t = ?t"
    "st' = st1\<lparr>sc_tail := truncateStringToBytesFromEnd (sc_tail st1) maxTailBytes\<rparr>"
    using assms(2) by (auto simp: observeChunk_def Let_def split: prod.splits)
  show "t = ?t" by (fact st'(1))
  have "sc_tail ?st = sc_tail st @ ?t" by (simp add: count_chunk_def Let_def)
  then have "sc_tail st' = truncateStringToBytesFromEnd (txt @ ?t) maxTailBytes"
    using assms(1) cut_append [of "txt" maxTailBytes ?t]
    by (simp add: st' spill_fields [OF sp] observed_def maxTailBytes_def DefaultMaxBytes_def)
  moreover have "valid_utf8 (txt @ ?t)"
    using assms(1) clean_valid by (simp add: observed_def valid_utf8_append)
  ultimately show "observed (txt @ ?t) st'"
    using assms(1) unfolding observed_def st'
    by (auto simp: spill_fields [OF sp] count_chunk_def Let_def count_char after_newline_append)
qed

lemma observed_zero: "observed [] zero_capture"
  by (simp add: observed_def zero_capture_def after_last_newline_def truncateStringToBytesFromEnd_def)

definition cleaned :: "exec_event list \<Rightarrow> string" where
  "cleaned evs = concat (map clean_chunk (output_chunks evs))"

lemma cleaned_simps [simp]:
  "cleaned [] = []" "cleaned (Output now chunk # evs) = clean_chunk chunk @ cleaned evs" "cleaned (Timer now # evs) = cleaned evs"
  by (simp_all add: cleaned_def)

lemma observed_events:
  assumes "capture_events env ctx on_chunk on_timer evs (st, s, w) = (st', s', w')" "observed txt st"
  shows "observed (txt @ cleaned evs) st'"
  using assms
proof (induction evs arbitrary: st s w "txt")
  case (Cons e evs)
  show ?case
  proof (cases e)
    case (Output now chunk)
    obtain t st1 w1 where o: "observeChunk env ctx chunk st w = (t, st1, w1)" by (cases "observeChunk env ctx chunk st w") auto
    show ?thesis
      using Cons.IH [OF _ observe_chunk(2) [OF Cons.prems(2) o]] Cons.prems(1) Output o by simp
  next
    case (Timer now)
    then show ?thesis using Cons by simp
  qed
qed simp

section \<open>The tail is enough\<close>

fun cost_from :: "string list \<Rightarrow> nat \<Rightarrow> string list \<Rightarrow> nat" where
  "cost_from rv n [] = n"
| "cost_from rv n (l # ls) = cost_from (rv @ [l]) (n + line_cost rv l) ls"

lemma cost_from_joined: "n = length (joined rv) \<Longrightarrow> cost_from rv n ls = length (joined (rv @ ls))"
proof (induction ls arbitrary: rv n)
  case (Cons l ls)
  then show ?case using length_joined_snoc [of rv l] Cons.IH [of "length (joined (rv @ [l]))" "rv @ [l]"] by simp
qed simp

lemma cut_longer: "maxB < int (length b) \<Longrightarrow> truncateStringToBytesFromEnd (a @ b) maxB = truncateStringToBytesFromEnd b maxB"
  by (auto simp: truncateStringToBytesFromEnd_def)

lemma tail_loop_enough:
  assumes "maxB < int (cost_from rv n (xs @ [b]))" "rv = [] \<Longrightarrow> n = 0"
  shows "tail_loop maxL maxB (xs @ (a @ b) # ys) rv n = tail_loop maxL maxB (xs @ [b]) rv n"
  using assms
proof (induction xs arbitrary: rv n)
  case Nil
  then have "maxB < int (n + line_cost rv b)" by simp
  moreover from this have "maxB < int (n + line_cost rv (a @ b))" by (simp add: line_cost_def split: if_splits)
  moreover have "truncateStringToBytesFromEnd (a @ b) maxB = truncateStringToBytesFromEnd b maxB" if "rv = []"
    using that Nil calculation(1) by (intro cut_longer) (simp add: line_cost_def)
  ultimately show ?case by (simp add: Let_def)
next
  case (Cons x xs)
  then show ?case using Cons.IH [of "rv @ [x]" "n + line_cost rv x"] by simp
qed

lemma split_on_cat:
  "split_on c (s @ t) = butlast (split_on c s) @ (last (split_on c s) @ hd (split_on c t)) # tl (split_on c t)"
proof (induction s)
  case Nil
  then show ?case by (cases "split_on c t") auto
next
  case (Cons d s)
  then show ?case by (cases "split_on c s") auto
qed

lemma lines_append:
  assumes "t \<noteq> []"
  shows "\<exists>pre a. splitLinesForCounting (s @ t) = pre @ (a @ hd (splitLinesForCounting t)) # tl (splitLinesForCounting t)"
    "splitLinesForCounting t \<noteq> []"
proof -
  have ne: "split_on newline t \<noteq> []" by simp
  have last: "has_suffix (s @ t) [newline] = has_suffix t [newline]" using assms by (simp add: has_suffix_newline)
  have two: "1 < length (split_on newline t)" if suf: "has_suffix t [newline]"
  proof -
    obtain u where "t = u @ [newline]" using suf by (metis append_butlast_last_id has_suffix_newline)
    then show ?thesis by (cases "split_on newline u") (simp_all add: split_on_snoc)
  qed
  show "splitLinesForCounting t \<noteq> []"
    using assms two ne by (cases "split_on newline t") (auto simp: splitLinesForCounting_def Let_def)
  show "\<exists>pre a. splitLinesForCounting (s @ t) = pre @ (a @ hd (splitLinesForCounting t)) # tl (splitLinesForCounting t)"
  proof (cases "has_suffix t [newline]")
    case False
    then show ?thesis using assms last by (auto simp: splitLinesForCounting_def Let_def split_on_cat)
  next
    case True
    obtain x y zs where s: "split_on newline t = x # y # zs"
      using two [OF True] by (metis One_nat_def Suc_less_eq length_Cons less_nat_zero_code list.exhaust list.size(3))
    have "splitLinesForCounting (s @ t) = butlast (split_on newline s) @ (last (split_on newline s) @ x) # butlast (y # zs)"
      using assms last True by (simp add: splitLinesForCounting_def split_on_cat s butlast_append)
    moreover have "splitLinesForCounting t = x # butlast (y # zs)"
      using assms True by (simp add: splitLinesForCounting_def s)
    ultimately show ?thesis by (metis list.sel(1,3))
  qed
qed


lemma boundary_before:
  "valid_utf8 s \<Longrightarrow> j < length s \<Longrightarrow> \<exists>i \<le> j. j < i + 4 \<and> \<not> is_cont (s ! i)"
proof (induction "length s" arbitrary: s j rule: less_induct)
  case less
  then have ne: "s \<noteq> []" by auto
  obtain r n where d: "decode_rune s = (r, n)" by (cases "decode_rune s") auto
  note step = valid_utf8_step [OF less.prems(1) ne d] and first = rune_bytes [OF less.prems(1) ne d]
  show ?case
  proof (cases "j < n")
    case True
    then show ?thesis using first by (intro exI [of _ 0]) simp
  next
    case False
    then have "length (drop n s) < length s" "j - n < length (drop n s)" using less.prems(2) step(4,5) by auto
    then obtain i where "i \<le> j - n" "j - n < i + 4" "\<not> is_cont (drop n s ! i)"
      using less.hyps [OF _ step(2)] by blast
    then show ?thesis using False step(5) less.prems(2) by (intro exI [of _ "n + i"]) (auto simp: nth_drop)
  qed
qed

lemma cut_at_least:
  assumes "valid_utf8 s" "4 \<le> m" "m \<le> int (length s)"
  shows "m - 3 \<le> int (length (truncateStringToBytesFromEnd s m))"
proof -
  let ?j = "length s - nat m + 3"
  have "?j < length s" using assms(2,3) by arith
  then obtain i where i: "i \<le> ?j" "?j < i + 4" "\<not> is_cont (s ! i)"
    using boundary_before [OF assms(1)] by blast
  have "i \<le> length s" "int (length s - i) \<le> m" using i assms(2,3) \<open>?j < length s\<close> by arith+
  then obtain t where "truncateStringToBytesFromEnd s m = t @ drop i s"
    using cut_longest [of i s m] i(3) by blast
  moreover have "m - 3 \<le> int (length s - i)" using i assms(2,3) by arith
  ultimately show ?thesis by simp
qed

lemma length_split_on: "length (split_on c s) = length (filter (\<lambda>x. x = c) s) + 1"
  by (induction s) (auto split: list.splits)

lemma last_line_open: "after_last_newline s \<noteq> [] \<longleftrightarrow> s \<noteq> [] \<and> \<not> has_suffix s [newline]"
  by (cases s rule: rev_cases) (auto simp: after_last_newline_def has_suffix_newline)

lemma length_lines:
  "length (splitLinesForCounting s) = length (filter (\<lambda>x. x = newline) s) + (if after_last_newline s \<noteq> [] then 1 else 0)"
  by (auto simp: splitLinesForCounting_def length_split_on last_line_open Let_def has_suffix_newline)

lemma observed_lines: "observed txt st \<Longrightarrow> total_lines st = length (splitLinesForCounting txt)"
  by (simp add: observed_def total_lines_def length_lines)

lemma limits [simp]: "resolveLimits no_options = (DefaultMaxLines, DefaultMaxBytes)"
  by (simp add: resolveLimits_def no_options_def)

lemma tail_loop_why: "tail_loop maxL maxB ls rv n = (rv', n', why, p) \<Longrightarrow> why \<noteq> []"
  by (induction ls arbitrary: rv n) (auto simp: Let_def split: if_splits)

text \<open>A truncated tail of well-formed text says of the text what the text itself would.\<close>

lemma truncate_suffix:
  assumes "s = drop k txt" "s \<noteq> txt" "DefaultMaxBytes + 1 < int (length s)"
  shows "TruncateTail txt no_options = (TruncateTail s no_options)\<lparr>tn_TotalLines := length (splitLinesForCounting txt), tn_TotalBytes := length txt\<rparr>"
proof -
  let ?ls = "splitLinesForCounting s"
  have ne: "s \<noteq> []" using assms(3) by (auto simp: DefaultMaxBytes_def)
  have "txt = take k txt @ s" using assms(1) by simp
  then obtain pre a where pre: "splitLinesForCounting txt = pre @ (a @ hd ?ls) # tl ?ls" and ls: "?ls \<noteq> []"
    using lines_append(1) [OF ne, of "take k txt"] lines_append(2) [OF ne] by metis
  have long: "int (length txt) > DefaultMaxBytes"
    using assms by (simp add: DefaultMaxBytes_def)
  have "length s \<le> length (joined ?ls) + 1" using arg_cong [OF split_lines_joined [of s], of length] by (simp split: if_splits)
  moreover have "cost_from [] 0 (rev (tl ?ls) @ [hd ?ls]) = length (joined ?ls)"
    using ls cost_from_joined [where n = 0 and rv = "[]" and ls = "rev ?ls"] length_joined_rev [of ?ls]
    by (metis append_Nil list.collapse list.size(3) rev.simps(2) strings_join.simps(1))
  ultimately have "DefaultMaxBytes < int (cost_from [] 0 (rev (tl ?ls) @ [hd ?ls]))"
    using assms(3) by linarith
  then have "tail_loop DefaultMaxLines DefaultMaxBytes (rev (tl ?ls) @ (a @ hd ?ls) # rev pre) [] 0 =
      tail_loop DefaultMaxLines DefaultMaxBytes (rev (tl ?ls) @ [hd ?ls]) [] 0"
    by (rule tail_loop_enough) simp
  then have "tail_loop DefaultMaxLines DefaultMaxBytes (rev (splitLinesForCounting txt)) [] 0 =
      tail_loop DefaultMaxLines DefaultMaxBytes (rev ?ls) [] 0"
    using ls by (simp add: pre) (metis list.collapse rev.simps(2))
  then show ?thesis
    using long assms(3) by (simp add: TruncateTail_def Let_def split: prod.splits)
qed

lemma snapshot_whole:
  assumes "observed txt st"
  shows "snapshotLocked st = \<lparr>sp_Output = tn_Content (TruncateTail txt no_options), sp_Truncation = TruncateTail txt no_options,
     sp_FullOutputPath = sc_fullOutputPath st\<rparr>"
proof -
  have o: "valid_utf8 txt" "sc_totalBytes st = length txt" "sc_tail st = truncateStringToBytesFromEnd txt maxTailBytes"
    using assms by (simp_all add: observed_def)
  have m: "0 < maxTailBytes" "maxTailBytes = 2 * DefaultMaxBytes" "DefaultMaxBytes = 51200"
    by (simp_all add: maxTailBytes_def DefaultMaxBytes_def)
  show ?thesis
  proof (cases "sc_tail st = txt")
    case True
    then show ?thesis
      unfolding snapshotLocked_def Let_def observed_lines [OF assms] o(2)
      by (auto simp: TruncateTail_def noTruncationResult_def Let_def dest: tail_loop_why split: prod.splits)
  next
    case False
    then have big: "maxTailBytes < int (length txt)" using o(3) m by (auto simp: truncateStringToBytesFromEnd_def split: if_splits)
    obtain k where k: "sc_tail st = drop k txt" using cut_suffix [of "txt" maxTailBytes] o(3) by auto
    have "maxTailBytes - 3 \<le> int (length (sc_tail st))" using cut_at_least [OF o(1), of maxTailBytes] big m o(3) by simp
    then have len: "DefaultMaxBytes + 1 < int (length (sc_tail st))" using m by simp
    note whole = truncate_suffix [OF k False len]
    have "DefaultMaxBytes < int (length txt)" "tn_Truncated (TruncateTail (sc_tail st) no_options)"
      "tn_TruncatedBy (TruncateTail (sc_tail st) no_options) \<noteq> []"
      using big m len by (auto simp: TruncateTail_def Let_def dest: tail_loop_why split: prod.splits)
    then show ?thesis
      unfolding snapshotLocked_def Let_def observed_lines [OF assms] o(2) whole by simp
  qed
qed


section \<open>What is reported\<close>

lemma ExecuteShellWithCaptureD:
  assumes "ExecuteShellWithCapture env ctx command opts on_chunk on_timer s w = (Inl cap, s', w')"
    "ee_Exec env ctx (shell_spec command opts) w = (Inl (evs, r), w1)"
  shows "\<exists>st. capture_events env ctx on_chunk on_timer evs (zero_capture, s, w1) = (st, s', w') \<and> sc_spillErr st = None \<and>
     cap = capture_result st r"
  using assms by (auto simp: ExecuteShellWithCapture_def Let_def split: prod.splits option.splits)

text \<open>
  C14
  The output reported for a command is the truncation of its whole output, cleaned chunk by chunk: the text
  shown, what cut it, and every count are those \<^verbatim>\<open>TruncateTail\<close> gives on the entire stream with the default limits, although only the
  last 100KB are ever kept; the exit code and the reasons it ended are those of the run.
\<close>

theorem capture_whole:
  assumes "ee_Exec env ctx (shell_spec command opts) w = (Inl (evs, r), w1)"
    "ExecuteShellWithCapture env ctx command opts on_chunk on_timer s w = (Inl cap, s', w')"
  shows "sh_Truncation cap = TruncateTail (cleaned evs) no_options \<and>
    sh_Output cap = tn_Content (TruncateTail (cleaned evs) no_options) \<and>
    sh_ExitCode cap = xr_ExitCode r \<and> sh_Cancelled cap = xr_Cancelled r \<and> sh_TimedOut cap = xr_TimedOut r"
proof -
  obtain st where st: "capture_events env ctx on_chunk on_timer evs (zero_capture, s, w1) = (st, s', w')"
    and cap: "cap = capture_result st r"
    using ExecuteShellWithCaptureD [OF assms(2,1)] by blast
  have "observed (cleaned evs) st" using observed_events [OF st observed_zero] by simp
  then show ?thesis by (simp add: cap capture_result_def snapshot_whole Let_def)
qed

definition over_limit :: "string \<Rightarrow> bool" where
  "over_limit txt \<longleftrightarrow> int (length txt) > DefaultMaxBytes \<or> int (length (splitLinesForCounting txt)) > DefaultMaxLines"

lemma over_limit_append: "over_limit s \<Longrightarrow> over_limit (s @ t)"
proof -
  have "length (splitLinesForCounting s) \<le> length (splitLinesForCounting (s @ t))"
  proof (cases "newline \<in> set t")
    case True
    then have "filter (\<lambda>x. x = newline) t \<noteq> []" by (auto simp: filter_empty_conv)
    then have "1 \<le> length (filter (\<lambda>x. x = newline) t)" by (cases "filter (\<lambda>x. x = newline) t") simp_all
    then show ?thesis by (simp add: length_lines)
  next
    case False
    then show ?thesis by (simp add: length_lines after_newline_append)
  qed
  then show "over_limit s \<Longrightarrow> ?thesis" by (auto simp: over_limit_def)
qed

lemma over_limit_truncated: "tn_Truncated (TruncateTail txt no_options) \<longleftrightarrow> over_limit txt"
  by (auto simp: TruncateTail_def over_limit_def noTruncationResult_def Let_def split: prod.splits)

lemma small_tail: "observed txt st \<Longrightarrow> \<not> over_limit txt \<Longrightarrow> sc_tail st = txt"
  by (auto simp: observed_def over_limit_def truncateStringToBytesFromEnd_def maxTailBytes_def DefaultMaxBytes_def)

context file_env
begin

definition spilled :: "string \<Rightarrow> shellCaptureState \<Rightarrow> 'w \<Rightarrow> bool" where
  "spilled txt st w \<longleftrightarrow> (sc_spillErr st = None \<longrightarrow> sc_fullOutputStarted st = over_limit txt \<and>
     (if over_limit txt then content w (sc_fullOutputPath st) = Some txt else sc_fullOutputPath st = []))"

lemma spill_keeps:
  assumes "observed txt st" "spilled txt st w" "observeChunk env ctx chunk st w = (t, st', w')"
  shows "spilled (txt @ clean_chunk chunk) st' w'"
proof -
  let ?t = "clean_chunk chunk" and ?st = "count_chunk (clean_chunk chunk) st"
  obtain st1 where sp: "spill env ctx ?t ?st w = (st1, w')"
    and st': "st' = st1\<lparr>sc_tail := truncateStringToBytesFromEnd (sc_tail st1) maxTailBytes\<rparr>"
    using assms(3) by (auto simp: observeChunk_def Let_def split: prod.splits)
  have kept: "sc_spillErr ?st = sc_spillErr st" "sc_fullOutputStarted ?st = sc_fullOutputStarted st"
    "sc_fullOutputPath ?st = sc_fullOutputPath st" "sc_tail ?st = sc_tail st @ ?t"
    by (simp_all add: count_chunk_def Let_def)
  note o' = observe_chunk(2) [OF assms(1,3)]
  have "overflowing ?st = over_limit (txt @ ?t)"
    using o' observed_lines [OF o'] spill_fields [OF sp]
    by (simp add: st' overflowing_def over_limit_def observed_def total_lines_def)
  then show ?thesis
    using assms(2) sp small_tail [OF assms(1)] over_limit_append [of "txt" ?t]
    unfolding spilled_def spill_def kept Let_def st'
    by (auto simp: kept split: if_splits sum.splits prod.splits dest!: temp_content dest: append_known)
qed

lemma spilled_events:
  assumes "capture_events env ctx on_chunk on_timer evs (st, s, w) = (st', s', w')" "observed txt st" "spilled txt st w"
  shows "spilled (txt @ cleaned evs) st' w'"
  using assms
proof (induction evs arbitrary: st s w "txt")
  case (Cons e evs)
  show ?case
  proof (cases e)
    case (Output now chunk)
    obtain t st1 w1 where o: "observeChunk env ctx chunk st w = (t, st1, w1)" by (cases "observeChunk env ctx chunk st w") auto
    show ?thesis
      using Cons.IH [OF _ observe_chunk(2) [OF Cons.prems(2) o] spill_keeps [OF Cons.prems(2,3) o]] Cons.prems(1) Output o by simp
  next
    case (Timer now)
    then show ?thesis using Cons by simp
  qed
qed simp

lemma spilled_zero: "spilled [] zero_capture w"
  by (simp add: spilled_def zero_capture_def over_limit_def splitLinesForCounting_def DefaultMaxBytes_def DefaultMaxLines_def)

lemma spill_holds_output:
  assumes "ee_Exec env ctx (shell_spec command opts) w = (Inl (evs, r), w1)"
    "ExecuteShellWithCapture env ctx command opts on_chunk on_timer s w = (Inl cap, s', w')"
  shows "if tn_Truncated (sh_Truncation cap) then content w' (sh_FullOutputPath cap) = Some (cleaned evs)
    else sh_FullOutputPath cap = []"
proof -
  obtain st where st: "capture_events env ctx on_chunk on_timer evs (zero_capture, s, w1) = (st, s', w')"
    and cap: "cap = capture_result st r" and ok: "sc_spillErr st = None"
    using ExecuteShellWithCaptureD [OF assms(2,1)] by blast
  have o: "observed (cleaned evs) st" using observed_events [OF st observed_zero] by simp
  have "spilled (cleaned evs) st w'" using spilled_events [OF st observed_zero spilled_zero] by simp
  then show ?thesis
    using ok by (simp add: cap capture_result_def snapshot_whole [OF o] Let_def spilled_def over_limit_truncated)
qed

end

lemma truncated_iff:
  assumes "ExecuteShellWithCapture env ctx command opts on_chunk on_timer s w = (Inl cap, s', w')"
    "ee_Exec env ctx (shell_spec command opts) w = (Inl (evs, r), w1)"
  shows "tn_Truncated (sh_Truncation cap) = over_limit (cleaned evs)"
proof -
  obtain st where st: "capture_events env ctx on_chunk on_timer evs (zero_capture, s, w1) = (st, s', w')"
    and cap: "cap = capture_result st r"
    using ExecuteShellWithCaptureD [OF assms] by blast
  have "observed (cleaned evs) st" using observed_events [OF st observed_zero] by simp
  then show ?thesis by (simp add: cap capture_result_def snapshot_whole over_limit_truncated Let_def)
qed

text \<open>
  C15
  Nothing of the output is lost: over any environment whose files keep what is written and appended to
  them, a capture that reports a truncated output names a file that holds the whole cleaned stream, and one
  whose output is complete names no file.
\<close>

theorem capture_spills:
  assumes "file_env env ctx content" "ee_Exec env ctx (shell_spec command opts) w = (Inl (evs, r), w1)"
    "ExecuteShellWithCapture env ctx command opts on_chunk on_timer s w = (Inl cap, s', w')"
  shows "if tn_Truncated (sh_Truncation cap) then content w' (sh_FullOutputPath cap) = Some (cleaned evs)
    else sh_FullOutputPath cap = []"
  by (rule file_env.spill_holds_output [OF assms])

text \<open>A character whose bytes arrive in two chunks is not the character that arrives in one.\<close>

lemma split_rune_corrupted:
  "clean_chunk [CHR 0xC3, CHR 0xA9] = [CHR 0xC3, CHR 0xA9] \<and>
   clean_chunk [CHR 0xC3] @ clean_chunk [CHR 0xA9] = encode_rune rune_error @ encode_rune rune_error"
  by (simp add: clean_chunk_def replace_char sanitizeBinaryOutput_def strings_map_def map_chunk_def runes.simps decode_rune.simps
      binary_rune_def encode_rune_def rune_error_def ok_second_def second_lo_def second_hi_def char_of_def bit_0)


section \<open>A run\<close>

definition demo_run :: "string \<Rightarrow> disk" where
  "demo_run out = demo_disk\<lparr>dk_programs := (\<lambda>c. ([Output 0 out], [WakeExited], [], 0))\<rparr>"

definition demo_options :: ShellCaptureOptions where
  "demo_options = \<lparr>sho_Dir = [], sho_Env = [], sho_InheritEnv = False, sho_Timeout = 0\<rparr>"

abbreviation demo_env :: "disk ExecutionEnv" where
  "demo_env \<equiv> OSEnv disk_os ''/w''"

abbreviation demo_capture :: "string \<Rightarrow> (ShellCapture + err) \<times> unit \<times> disk" where
  "demo_capture out \<equiv> ExecuteShellWithCapture demo_env disk_ctx ''cmd'' demo_options (\<lambda>now p s. s) (\<lambda>now p s. s) () (demo_run out)"

lemma clean_newlines: "clean_chunk (replicate n newline) = replicate n newline"
proof -
  have nl: "chr 10 = newline" by (rule chr_byte) simp
  have "runes (replicate n newline) = replicate n (10, [newline])"
    by (induction n) (simp_all add: runes_Cons_ascii)
  then have "sanitizeBinaryOutput (replicate n newline) = replicate n newline"
    by (simp add: sanitizeBinaryOutput_def strings_map_def map_chunk_def binary_rune_def encode_rune_def nl)
  then show ?thesis by (simp add: clean_chunk_def replace_char filter_replicate)
qed

lemma demo_exec:
  "ee_Exec demo_env disk_ctx (shell_spec ''cmd'' demo_options) (demo_run out) =
     (Inl ([Output 0 out], \<lparr>xr_ExitCode = 0, xr_Cancelled = False, xr_TimedOut = False\<rparr>), (demo_run out)\<lparr>dk_running := [''cmd'']\<rparr>)"
  by (simp add: OSEnv_def Exec_def shell_spec_def demo_options_def exec_environment_def flattenEnv_def disk_os_def demo_run_def
      demo_disk_def select_wake_def)

lemma demo_temp:
  "ee_CreateTemp demo_env disk_ctx ''bash-'' ''.log'' ((demo_run out)\<lparr>dk_running := r\<rparr>) =
     (Inl ''/tmp/bash-0.log'', disk_put ''/tmp/bash-0.log'' (FileNode []) ((demo_run out)\<lparr>dk_running := r, dk_temps := 1\<rparr>))"
  by (simp add: OSEnv_def CreateTemp_def bind_act_def wrap_act_def check_ctx_def disk_ctx_def disk_os_def disk_temp_def demo_run_def demo_disk_def
      Let_def filepath_Clean_def unclean_def clean_elems_def clean_step_def is_abs_def has_prefix_def itoa_nat.simps digit_char_def char_of_def bit_0)

lemma demo_append:
  "\<exists>w'. ee_AppendFile demo_env disk_ctx ''/tmp/bash-0.log'' d
     (disk_put ''/tmp/bash-0.log'' (FileNode []) ((demo_run out)\<lparr>dk_running := r, dk_temps := 1\<rparr>)) = (Inl (), w')"
  by (simp add: OSEnv_def AppendFile_def AbsolutePath_def absolute_def make_parents_def append_data_def bind_act_def wrap_act_def check_ctx_def
      disk_ctx_def disk_os_def disk_mkdir_def disk_open_def disk_append_def disk_write_def disk_put_def disk_file_def demo_run_def demo_disk_def
      Let_def filepath_Clean_def filepath_Dir_def unclean_def clean_elems_def clean_step_def is_abs_def has_prefix_def)

lemma demo_spill:
  assumes "clean_chunk out = out" "overflowing (count_chunk out zero_capture)"
  shows "\<exists>cap w'. demo_capture out = (Inl cap, (), w')"
proof -
  let ?st = "count_chunk out zero_capture"
  have z: "sc_spillErr ?st = None" "\<not> sc_fullOutputStarted ?st" by (simp_all add: count_chunk_def zero_capture_def Let_def)
  obtain w' where "ee_AppendFile demo_env disk_ctx ''/tmp/bash-0.log'' (sc_tail ?st)
     (disk_put ''/tmp/bash-0.log'' (FileNode []) ((demo_run out)\<lparr>dk_running := [''cmd''], dk_temps := 1\<rparr>)) = (Inl (), w')"
    using demo_append by blast
  then have "spill demo_env disk_ctx out ?st ((demo_run out)\<lparr>dk_running := [''cmd'']\<rparr>) =
      (?st\<lparr>sc_fullOutputStarted := True, sc_fullOutputPath := ''/tmp/bash-0.log''\<rparr>, w')"
    using z assms(2) by (simp add: spill_def demo_temp Let_def)
  then show ?thesis using z assms(1) by (simp add: ExecuteShellWithCapture_def demo_exec observeChunk_def Let_def)
qed

lemma newlines_overflow: "2000 < n \<Longrightarrow> overflowing (count_chunk (replicate n newline) zero_capture)"
  by (simp add: overflowing_def total_lines_def count_chunk_def zero_capture_def Let_def count_char filter_replicate
      DefaultMaxLines_def DefaultMaxBytes_def)

lemma capture_whole_witness:
  "\<exists>cap w'. demo_capture (replicate 2001 newline) = (Inl cap, (), w') \<and>
     sh_Truncation cap = TruncateTail (replicate 2001 newline) no_options"
proof -
  have c: "cleaned [Output 0 (replicate 2001 newline)] = replicate 2001 newline" by (simp add: clean_newlines)
  obtain cap w' where "demo_capture (replicate 2001 newline) = (Inl cap, (), w')"
    using demo_spill [OF clean_newlines newlines_overflow] by force
  then show ?thesis using capture_whole [OF demo_exec] by (metis c)
qed

lemma capture_spills_witness:
  "\<exists>cap w'. demo_capture (replicate 2001 newline) = (Inl cap, (), w') \<and>
     disk_file w' (absolute ''/w'' (sh_FullOutputPath cap)) = Some (replicate 2001 newline)"
proof -
  have c: "cleaned [Output 0 (replicate 2001 newline)] = replicate 2001 newline" by (simp add: clean_newlines)
  obtain cap w' where run: "demo_capture (replicate 2001 newline) = (Inl cap, (), w')"
    using demo_spill [OF clean_newlines newlines_overflow] by force
  have "over_limit (replicate 2001 newline)"
    by (simp add: over_limit_def length_lines filter_replicate DefaultMaxLines_def)
  then have "tn_Truncated (sh_Truncation cap)"
    using truncated_iff [OF run demo_exec] by (simp only: c)
  then show ?thesis
    using capture_spills [OF disk.osenv.file_env_axioms demo_exec run] run by (simp add: clean_newlines)
qed

end
