(* ===== verification/Tool_Results.thy ===== *)
theory Tool_Results
  imports Tools Truncate
begin

text \<open>What the built-in tools put into their results: the error shape they share and the wire form of a truncation (tools/read.go).\<close>

definition error_result :: "string \<Rightarrow> ToolResult" where
  "error_result msg = zero_result\<lparr>tr_IsError := True, tr_Content := msg\<rparr>"

definition ok_result :: "string \<Rightarrow> string option \<Rightarrow> ToolResult" where
  "ok_result content data = zero_result\<lparr>tr_Content := content, tr_Data := data\<rparr>"

definition json_nat :: "nat \<Rightarrow> json" where
  "json_nat n = JNum (itoa_nat n)"

definition truncationDetail :: "TruncationResult \<Rightarrow> json" where
  "truncationDetail t =
     JObj [(''content'', JStr (tn_Content t)), (''truncated'', JBool (tn_Truncated t)),
           (''truncatedBy'', JStr (tn_TruncatedBy t)), (''totalLines'', json_nat (tn_TotalLines t)),
           (''totalBytes'', json_nat (tn_TotalBytes t)), (''outputLines'', json_nat (tn_OutputLines t)),
           (''outputBytes'', json_nat (tn_OutputBytes t)), (''lastLinePartial'', JBool (tn_LastLinePartial t)),
           (''firstLineExceedsLimit'', JBool (tn_FirstLineExceedsLimit t)), (''maxLines'', JNum (itoa (tn_MaxLines t))),
           (''maxBytes'', JNum (itoa (tn_MaxBytes t)))]"

definition marshalTruncationDetails :: "TruncationResult \<Rightarrow> string" where
  "marshalTruncationDetails t = json_print (JObj [(''truncation'', truncationDetail t)])"

lemma result_fields [simp]:
  "tr_IsError (error_result m)" "tr_Content (error_result m) = m" "tr_Data (error_result m) = None"
  "\<not> tr_IsError (ok_result c d)" "tr_Content (ok_result c d) = c" "tr_Data (ok_result c d) = d"
  by (simp_all add: error_result_def ok_result_def zero_result_def)

end
