(* ===== verification/Go_Float.thy ===== *)
theory Go_Float
  imports Go_Prelude Complex_Main
begin

text \<open>
  The part of \<^verbatim>\<open>float64\<close> the program computes with: finite positive values are rationals, results of arithmetic
  are rounded to 53 significant bits, half to even; \<open>format_float\<close> is \<^verbatim>\<open>strconv.FormatFloat(v, 'f', -1, 64)\<close>, the shortest
  decimal that reads back as \<open>v\<close>.
\<close>

datatype float64 = NaN | PosInf | NegInf | Finite rat

definition pow2 :: "int \<Rightarrow> rat" where
  "pow2 k = (if 0 \<le> k then 2 ^ nat k else 1 / 2 ^ nat (- k))"

definition pow10 :: "int \<Rightarrow> rat" where
  "pow10 k = (if 0 \<le> k then 10 ^ nat k else 1 / 10 ^ nat (- k))"

definition round_half_even :: "rat \<Rightarrow> int" where
  "round_half_even q =
     (let f = \<lfloor>q\<rfloor>; r = q - of_int f in if r > 1 / 2 \<or> r = 1 / 2 \<and> odd f then f + 1 else f)"

fun bit_length :: "nat \<Rightarrow> nat" where
  "bit_length n = (if n = 0 then 0 else Suc (bit_length (n div 2)))"

declare bit_length.simps [simp del]

text \<open>The exponent of the last of the 53 bits; below it the smallest subnormal.\<close>

definition float_exponent :: "rat \<Rightarrow> int" where
  "float_exponent q =
     (if 1 \<le> q then int (bit_length (nat \<lfloor>q\<rfloor>)) - 53
      else max (-1074) (- int (bit_length (nat \<lceil>1 / q\<rceil> - 1)) - 52))"

definition round_float :: "rat \<Rightarrow> rat" where
  "round_float q =
     (if q \<le> 0 then 0
      else let e = float_exponent q in of_int (round_half_even (q / pow2 e)) * pow2 e)"

text \<open>
  \<open>decimal_point v\<close> is the number of decimal digits before the point, negative or zero when \<open>v\<close> starts with zeros.
  With \<open>n\<close> digits, the two decimals around \<open>v\<close> are tried and the closer one that reads back is taken.
\<close>

fun leading_zeros :: "nat \<Rightarrow> rat \<Rightarrow> nat" where
  "leading_zeros 0 v = 0"
| "leading_zeros (Suc fuel) v = (if v * 10 \<ge> 1 then 0 else Suc (leading_zeros fuel (v * 10)))"

definition decimal_point :: "rat \<Rightarrow> int" where
  "decimal_point v = (if 1 \<le> v then int (length (itoa_nat (nat \<lfloor>v\<rfloor>))) else - int (leading_zeros 400 v))"

definition decimals_at :: "rat \<Rightarrow> nat \<Rightarrow> int list" where
  "decimals_at v n =
     (let p = pow10 (decimal_point v - int n); lo = \<lfloor>v / p\<rfloor>
      in filter (\<lambda>m. round_float (of_int m * p) = v)
           (if 2 * (v / p - of_int lo) \<le> 1 then [lo, lo + 1] else [lo + 1, lo]))"

fun shortest :: "rat \<Rightarrow> nat \<Rightarrow> nat list \<Rightarrow> int \<times> int" where
  "shortest v n [] = (0, 0)"
| "shortest v n (i # is) =
     (case decimals_at v i of m # _ \<Rightarrow> if m = 10 ^ i then (1, decimal_point v) else (m, decimal_point v - int i) | [] \<Rightarrow> shortest v n is)"

text \<open>The decimal \<open>m * 10 ^ e\<close> in plain notation.\<close>

definition plain_decimal :: "nat \<Rightarrow> int \<Rightarrow> string" where
  "plain_decimal m e =
     (if 0 \<le> e then itoa_nat (m * 10 ^ nat e)
      else let k = nat (- e); frac = itoa_nat (m mod 10 ^ k)
           in itoa_nat (m div 10 ^ k) @ ''.'' @ replicate (k - length frac) CHR ''0'' @ frac)"

definition format_float :: "rat \<Rightarrow> string" where
  "format_float v =
     (if v \<le> 0 then ''0'' else let (m, e) = shortest v 17 [1..<18] in plain_decimal (nat m) e)"

end
