(* ===== verification/Bash_Tool.thy ===== *)
theory Bash_Tool
  imports Shell_Capture Tool_Results Go_Float
begin

text \<open>
  The bash tool (tools/bash.go): the throttle that coalesces partial results, a state machine driven by the
  chunks of output and by its timer, the text a result ends with, and the tool itself. Times are in
  nanoseconds.
\<close>

section \<open>The throttle\<close>

definition bashUpdateThrottle :: int where
  "bashUpdateThrottle = 100000000"

text \<open>The snapshot function stored last: none, the capture's own, or the constant of the final flush.\<close>

datatype progress_source = NoProgress | Live | FinalProgress ShellProgress

text \<open>
  \<open>th_timer\<close> is the time the pending timer is due, \<open>th_lastEmit\<close> the last emission (\<open>None\<close> is the zero time, long past),
  \<open>th_emitted\<close> what the caller's \<^verbatim>\<open>emit\<close> received, with the times.
\<close>

record bashThrottle =
  th_getProgress :: progress_source
  th_timer :: "int option"
  th_dirty :: bool
  th_lastEmit :: "int option"
  th_settled :: bool
  th_emitted :: "(int \<times> ToolResult) list"

definition newBashThrottle :: bashThrottle where
  "newBashThrottle = \<lparr>th_getProgress = NoProgress, th_timer = None, th_dirty = False, th_lastEmit = None,
     th_settled = False, th_emitted = []\<rparr>"

definition marshalBashDetails :: "TruncationResult \<Rightarrow> bool \<Rightarrow> string \<Rightarrow> string" where
  "marshalBashDetails t includeTruncation fullOutputPath =
     json_print (JObj ((if includeTruncation then [(''truncation'', truncationDetail t)] else [])
                       @ (if fullOutputPath = [] then [] else [(''fullOutputPath'', JStr fullOutputPath)])))"

definition partial_result :: "ShellProgress \<Rightarrow> ToolResult" where
  "partial_result p =
     ok_result (sp_Output p)
       (Some (marshalBashDetails (sp_Truncation p) (tn_Truncated (sp_Truncation p)) (sp_FullOutputPath p)))"

fun read_progress :: "progress_source \<Rightarrow> ShellProgress \<Rightarrow> ShellProgress" where
  "read_progress (FinalProgress p) live = p"
| "read_progress s live = live"

definition emitLocked :: "int \<Rightarrow> ShellProgress \<Rightarrow> bashThrottle \<Rightarrow> bashThrottle" where
  "emitLocked now live t =
     (if \<not> th_dirty t \<or> th_getProgress t = NoProgress then t
      else t\<lparr>th_dirty := False, th_lastEmit := Some now,
             th_emitted := th_emitted t @ [(now, partial_result (read_progress (th_getProgress t) live))]\<rparr>)"

definition clearTimerLocked :: "bashThrottle \<Rightarrow> bashThrottle" where
  "clearTimerLocked t = t\<lparr>th_timer := None\<rparr>"

definition scheduleLocked :: "int \<Rightarrow> ShellProgress \<Rightarrow> bashThrottle \<Rightarrow> bashThrottle" where
  "scheduleLocked now live t =
     (let t = t\<lparr>th_dirty := True\<rparr>;
          delay = (case th_lastEmit t of None \<Rightarrow> 0 | Some l \<Rightarrow> bashUpdateThrottle - (now - l))
      in if delay \<le> 0 then emitLocked now live (clearTimerLocked t)
         else if th_timer t = None then t\<lparr>th_timer := Some (now + delay)\<rparr>
         else t)"

definition throttle_onChunk :: "int \<Rightarrow> ShellProgress \<Rightarrow> bashThrottle \<Rightarrow> bashThrottle" where
  "throttle_onChunk now live t =
     (if th_settled t then t else scheduleLocked now live (t\<lparr>th_getProgress := Live\<rparr>))"

text \<open>The callback of the timer, once it holds the lock; it does not look at \<^verbatim>\<open>settled\<close>.\<close>

definition timer_callback :: "int \<Rightarrow> ShellProgress \<Rightarrow> bashThrottle \<Rightarrow> bashThrottle" where
  "timer_callback now live t = emitLocked now live (t\<lparr>th_timer := None\<rparr>)"

definition finalFlush :: "int \<Rightarrow> ShellCapture \<Rightarrow> bashThrottle \<Rightarrow> bashThrottle" where
  "finalFlush now capture t =
     (let final = \<lparr>sp_Output = sh_Output capture, sp_Truncation = sh_Truncation capture, sp_FullOutputPath = sh_FullOutputPath capture\<rparr>;
          t = (clearTimerLocked t)\<lparr>th_getProgress := FinalProgress final, th_dirty := True\<rparr>
      in (emitLocked now final t)\<lparr>th_settled := True\<rparr>)"

definition throttle_stop :: "bashThrottle \<Rightarrow> bashThrottle" where
  "throttle_stop t = (clearTimerLocked t)\<lparr>th_settled := True\<rparr>"

section \<open>Parameters and texts\<close>

record bashParams =
  bp_Command :: string
  bp_Timeout :: "float64 option"

definition maxTimeoutSeconds :: rat where
  "maxTimeoutSeconds = round_float (2147483647 / 1000)"

definition formatJSNumber :: "rat \<Rightarrow> string" where
  "formatJSNumber v = format_float v"

definition validateBashTimeout :: "float64 option \<Rightarrow> err option" where
  "validateBashTimeout timeout =
     (case timeout of
        None \<Rightarrow> None
      | Some (Finite v) \<Rightarrow>
          if v \<le> 0 then Some (errors_new ''Invalid timeout: must be a finite number of seconds'')
          else if v > maxTimeoutSeconds
          then Some (errors_new (''Invalid timeout: maximum is '' @ formatJSNumber maxTimeoutSeconds @ '' seconds''))
          else None
      | Some _ \<Rightarrow> Some (errors_new ''Invalid timeout: must be a finite number of seconds''))"

text \<open>\<^verbatim>\<open>time.Duration(v * float64(time.Second))\<close>: the product is rounded, then cut towards zero.\<close>

definition timeout_duration :: "float64 option \<Rightarrow> int" where
  "timeout_duration timeout = (case timeout of Some (Finite v) \<Rightarrow> \<lfloor>round_float (v * 1000000000)\<rfloor> | _ \<Rightarrow> 0)"

definition appendBashStatus :: "string \<Rightarrow> string \<Rightarrow> string" where
  "appendBashStatus outputText status =
     (if outputText = [] then status else outputText @ [newline, newline] @ status)"

definition bashTruncationNotice :: "ShellCapture \<Rightarrow> string" where
  "bashTruncationNotice capture =
     (let t = sh_Truncation capture;
          startLine = int (tn_TotalLines t) - int (tn_OutputLines t) + 1;
          endLine = int (tn_TotalLines t);
          full = ''. Full output: '' @ sh_FullOutputPath capture @ '']''
      in [newline, newline] @
         (if tn_LastLinePartial t then
            ''[Showing last '' @ FormatSize (int (tn_OutputBytes t)) @ '' of line '' @ itoa endLine @ '' (line is ''
              @ FormatSize (int (sh_LastLineBytes capture)) @ '')'' @ full
          else if tn_TruncatedBy t = ''lines'' then
            ''[Showing lines '' @ itoa startLine @ ''-'' @ itoa endLine @ '' of '' @ itoa (int (tn_TotalLines t)) @ full
          else
            ''[Showing lines '' @ itoa startLine @ ''-'' @ itoa endLine @ '' of '' @ itoa (int (tn_TotalLines t)) @ '' (''
              @ FormatSize DefaultMaxBytes @ '' limit)'' @ full))"

section \<open>The tool\<close>

record BashExecution =
  bx_Command :: string
  bx_Cwd :: string
  bx_Env :: "(string \<times> string) list"
  bx_InheritEnv :: bool

record 'w BashToolOptions =
  bo_Env :: "'w ExecutionEnv"
  bo_CommandPrefix :: string
  bo_Prepare :: "('w go_context \<Rightarrow> BashExecution \<Rightarrow> ('w, BashExecution) act) option"

definition bash_execution :: "'w BashToolOptions \<Rightarrow> bashParams \<Rightarrow> BashExecution" where
  "bash_execution opts p =
     \<lparr>bx_Command = (if bo_CommandPrefix opts \<noteq> [] then bo_CommandPrefix opts @ [newline] @ bp_Command p else bp_Command p),
      bx_Cwd = ee_Cwd (bo_Env opts), bx_Env = [], bx_InheritEnv = True\<rparr>"

definition bash_prepare :: "'w BashToolOptions \<Rightarrow> 'w go_context \<Rightarrow> BashExecution \<Rightarrow> ('w, BashExecution) act" where
  "bash_prepare opts ctx exec = (case bo_Prepare opts of None \<Rightarrow> (\<lambda>w. (Inl exec, w)) | Some f \<Rightarrow> f ctx exec)"

definition bash_options :: "BashExecution \<Rightarrow> bashParams \<Rightarrow> ShellCaptureOptions" where
  "bash_options exec p =
     \<lparr>sho_Dir = bx_Cwd exec, sho_Env = bx_Env exec, sho_InheritEnv = bx_InheritEnv exec,
      sho_Timeout = timeout_duration (bp_Timeout p)\<rparr>"

definition timeout_status :: "float64 option \<Rightarrow> string" where
  "timeout_status timeout =
     (case timeout of
        Some (Finite v) \<Rightarrow> ''Command timed out after '' @ formatJSNumber v @ '' seconds''
      | _ \<Rightarrow> ''Command timed out'')"

definition bash_result :: "bashParams \<Rightarrow> ShellCapture \<Rightarrow> ToolResult" where
  "bash_result p capture =
     (let truncated = tn_Truncated (sh_Truncation capture);
          outputText = sh_Output capture @ (if truncated then bashTruncationNotice capture else []);
          data = (if truncated then Some (marshalBashDetails (sh_Truncation capture) True (sh_FullOutputPath capture)) else None)
      in if sh_Cancelled capture then error_result (appendBashStatus outputText ''Command aborted'')
         else if sh_TimedOut capture then error_result (appendBashStatus outputText (timeout_status (bp_Timeout p)))
         else if sh_ExitCode capture \<noteq> 0
         then if sh_ExitCode capture < 0 then error_result (appendBashStatus outputText ''Command terminated by signal'')
              else error_result (appendBashStatus outputText (''Command exited with code '' @ itoa (sh_ExitCode capture)))
         else ok_result (if outputText = [] then ''(no output)'' else outputText) data)"

text \<open>
  \<open>fin\<close> is the time at which the command is over. The partial results are those the throttle emitted, in order.
  The throttle is stopped on every path once it exists.
\<close>

definition bash_ExecuteStream :: "'w BashToolOptions \<Rightarrow> int \<Rightarrow> 'w go_context \<Rightarrow> bashParams \<Rightarrow> 'w \<Rightarrow> (ToolResult list \<times> tool_return) \<times> 'w" where
  "bash_ExecuteStream opts fin ctx p w =
     (case validateBashTimeout (bp_Timeout p) of
        Some e \<Rightarrow> (([], (error_result (err_msg e), None)), w)
      | None \<Rightarrow>
          (case bash_prepare opts ctx (bash_execution opts p) w of
             (Inr e, w1) \<Rightarrow> (([], (error_result (err_msg e), None)), w1)
           | (Inl exec, w1) \<Rightarrow>
               (case ExecuteShellWithCapture (bo_Env opts) ctx (bx_Command exec) (bash_options exec p)
                       throttle_onChunk timer_callback newBashThrottle w1 of
                  (Inr e, t, w2) \<Rightarrow> ((map snd (th_emitted (throttle_stop t)), (error_result (err_msg e), None)), w2)
                | (Inl capture, t, w2) \<Rightarrow>
                    ((map snd (th_emitted (throttle_stop (finalFlush fin capture t))), (bash_result p capture, None)), w2))))"

section \<open>The throttle keeps its distance and loses nothing\<close>

fun throttle_event :: "exec_event \<times> ShellProgress \<Rightarrow> bashThrottle \<Rightarrow> bashThrottle" where
  "throttle_event (Output now chunk, live) t = throttle_onChunk now live t"
| "throttle_event (Timer now, live) t = timer_callback now live t"

text \<open>Time does not run backwards, and the callback that runs is that of the pending timer, once it is due.\<close>

fun timely :: "int \<Rightarrow> (exec_event \<times> ShellProgress) list \<Rightarrow> bashThrottle \<Rightarrow> bool" where
  "timely now [] t = True"
| "timely now ((e, live) # evs) t =
     (now \<le> event_time e \<and>
      (case e of Timer n \<Rightarrow> (case th_timer t of Some due \<Rightarrow> due \<le> n | None \<Rightarrow> False) | _ \<Rightarrow> True) \<and>
      timely (event_time e) evs (throttle_event (e, live) t))"

definition apart :: "int \<times> ToolResult \<Rightarrow> int \<times> ToolResult \<Rightarrow> bool" where
  "apart x y \<longleftrightarrow> fst x + bashUpdateThrottle \<le> fst y"

definition throttle_inv :: "int \<Rightarrow> bashThrottle \<Rightarrow> bool" where
  "throttle_inv now t \<longleftrightarrow> successively apart (th_emitted t) \<and>
     th_lastEmit t = (if th_emitted t = [] then None else Some (fst (last (th_emitted t)))) \<and>
     (\<forall>l. th_lastEmit t = Some l \<longrightarrow> l \<le> now) \<and>
     (\<forall>due. th_timer t = Some due \<longrightarrow> (\<exists>l. th_lastEmit t = Some l \<and> due = l + bashUpdateThrottle)) \<and>
     (th_dirty t \<longrightarrow> th_timer t \<noteq> None \<and> th_getProgress t = Live) \<and> (th_getProgress t = NoProgress \<or> th_getProgress t = Live) \<and> \<not> th_settled t"

lemma throttle_inv_new: "throttle_inv now newBashThrottle"
  by (simp add: throttle_inv_def newBashThrottle_def)

lemma successively_snoc: "successively P (xs @ [x]) \<longleftrightarrow> successively P xs \<and> (xs \<noteq> [] \<longrightarrow> P (last xs) x)"
  by (auto simp: successively_append_iff)

lemma throttle_inv_emit:
  assumes "throttle_inv now t" "now \<le> n" "\<forall>l. th_lastEmit t = Some l \<longrightarrow> l + bashUpdateThrottle \<le> n" "th_timer t' = None"
    "th_emitted t' = th_emitted t" "th_lastEmit t' = th_lastEmit t" "\<not> th_settled t'" "th_dirty t'" "th_getProgress t' = Live"
  shows "throttle_inv n (emitLocked n live t')"
  using assms by (auto simp: throttle_inv_def emitLocked_def successively_snoc apart_def)

lemma throttle_inv_event:
  assumes "throttle_inv now t" "timely now ((e, live) # evs) t"
  shows "throttle_inv (event_time e) (throttle_event (e, live) t)"
proof (cases e)
  case (Output n chunk)
  let ?t = "t\<lparr>th_getProgress := Live, th_dirty := True\<rparr>"
  have n: "now \<le> n" using assms(2) Output by simp
  have s: "\<not> th_settled t" using assms(1) by (simp add: throttle_inv_def)
  show ?thesis
  proof (cases "case th_lastEmit t of None \<Rightarrow> True | Some l \<Rightarrow> l + bashUpdateThrottle \<le> n")
    case True
    then have "throttle_event (e, live) t = emitLocked n live (clearTimerLocked ?t)"
      using s by (auto simp: Output throttle_onChunk_def scheduleLocked_def Let_def split: option.splits)
    moreover have "throttle_inv n (emitLocked n live (clearTimerLocked ?t))"
      using True s by (intro throttle_inv_emit [OF assms(1) n]) (auto simp: clearTimerLocked_def)
    ultimately show ?thesis using Output by simp
  next
    case False
    then obtain l where l: "th_lastEmit t = Some l" "n < l + bashUpdateThrottle" by (auto split: option.splits)
    then have "throttle_event (e, live) t =
        (if th_timer t = None then ?t\<lparr>th_timer := Some (l + bashUpdateThrottle)\<rparr> else ?t)"
      using s by (auto simp: Output throttle_onChunk_def scheduleLocked_def Let_def)
    then show ?thesis using assms(1) l n Output by (auto simp: throttle_inv_def)
  qed
next
  case (Timer n)
  then obtain due where d: "now \<le> n" "th_timer t = Some due" "due \<le> n" using assms(2) by (auto split: option.splits)
  show ?thesis
  proof (cases "th_dirty t \<and> th_getProgress t = Live")
    case True
    then have "throttle_inv n (emitLocked n live (t\<lparr>th_timer := None\<rparr>))"
      using d assms(1) by (intro throttle_inv_emit [OF assms(1) d(1)]) (auto simp: throttle_inv_def)
    then show ?thesis using Timer by (simp add: timer_callback_def)
  next
    case False
    then have "emitLocked n live (t\<lparr>th_timer := None\<rparr>) = t\<lparr>th_timer := None\<rparr>" "\<not> th_dirty t \<or> th_getProgress t = NoProgress"
      using assms(1) by (auto simp: emitLocked_def throttle_inv_def)
    then show ?thesis using d assms(1) Timer by (auto simp: throttle_inv_def timer_callback_def)
  qed
qed


lemma throttle_inv_run:
  "throttle_inv now t \<Longrightarrow> timely now evs t \<Longrightarrow> \<exists>end. throttle_inv end (fold throttle_event evs t)"
proof (induction now evs t rule: timely.induct)
  case (2 now e live evs t)
  then show ?case using throttle_inv_event [OF "2.prems"] by simp
qed auto

definition final_progress :: "ShellCapture \<Rightarrow> ShellProgress" where
  "final_progress capture =
     \<lparr>sp_Output = sh_Output capture, sp_Truncation = sh_Truncation capture, sp_FullOutputPath = sh_FullOutputPath capture\<rparr>"

lemma finalFlush_emitted:
  "th_emitted (finalFlush fin capture t) = th_emitted t @ [(fin, partial_result (final_progress capture))]"
  "th_settled (finalFlush fin capture t)" "\<not> th_dirty (finalFlush fin capture t)"
  by (simp_all add: finalFlush_def emitLocked_def clearTimerLocked_def final_progress_def Let_def)

lemma settled_event:
  assumes "th_settled t" "\<not> th_dirty t"
  shows "th_emitted (throttle_event x t) = th_emitted t" "th_settled (throttle_event x t)" "\<not> th_dirty (throttle_event x t)"
  using assms by (cases x; cases "fst x"; auto simp: throttle_onChunk_def timer_callback_def emitLocked_def)+

lemma settled_events: "th_settled t \<Longrightarrow> \<not> th_dirty t \<Longrightarrow> th_emitted (fold throttle_event evs t) = th_emitted t"
proof (induction evs arbitrary: t)
  case (Cons x evs)
  then show ?case using settled_event [OF Cons.prems] by simp
qed simp


section \<open>The result of a command\<close>

lemma bash_result_error:
  "tr_IsError (bash_result p capture) \<longleftrightarrow> sh_Cancelled capture \<or> sh_TimedOut capture \<or> sh_ExitCode capture \<noteq> 0"
  by (simp add: bash_result_def Let_def)

lemma appendBashStatus_prefix: "out \<noteq> [] \<Longrightarrow> \<exists>rest. appendBashStatus (out @ extra) status = out @ rest"
  by (simp add: appendBashStatus_def)

lemma bash_result_text: "sh_Output capture \<noteq> [] \<Longrightarrow> \<exists>rest. tr_Content (bash_result p capture) = sh_Output capture @ rest"
  using appendBashStatus_prefix by (auto simp: bash_result_def Let_def)

text \<open>
  C17
  The result of a command that could be run is an error exactly when it was cancelled, timed out or
  ended with a code other than zero; its text starts with the captured output in every case; and the last
  partial result emitted before it shows that same output.
\<close>

theorem bash_reports_outcome:
  assumes "validateBashTimeout (bp_Timeout p) = None" "bash_prepare opts ctx (bash_execution opts p) w = (Inl exec, w1)"
    "ExecuteShellWithCapture (bo_Env opts) ctx (bx_Command exec) (bash_options exec p) throttle_onChunk timer_callback newBashThrottle w1
       = (Inl capture, t, w2)"
  shows "\<exists>parts r. bash_ExecuteStream opts fin ctx p w = ((parts, (r, None)), w2) \<and>
    tr_IsError r = (sh_Cancelled capture \<or> sh_TimedOut capture \<or> sh_ExitCode capture \<noteq> 0) \<and>
    (sh_Output capture \<noteq> [] \<longrightarrow> (\<exists>rest. tr_Content r = sh_Output capture @ rest)) \<and>
    parts \<noteq> [] \<and> tr_Content (last parts) = sh_Output capture"
proof -
  let ?f = "finalFlush fin capture t"
  have "bash_ExecuteStream opts fin ctx p w = ((map snd (th_emitted (throttle_stop ?f)), (bash_result p capture, None)), w2)"
    using assms by (simp add: bash_ExecuteStream_def)
  moreover have "th_emitted (throttle_stop ?f) = th_emitted t @ [(fin, partial_result (final_progress capture))]"
    by (simp add: throttle_stop_def clearTimerLocked_def finalFlush_emitted)
  ultimately show ?thesis
    using bash_result_text [of capture p] by (simp add: bash_result_error partial_result_def final_progress_def)
qed

text \<open>
  Three gaps. A timer callback that was already waiting for the lock when the throttle is stopped emits after the
  tool has returned; an oversized last line that ends in a newline is said to have no bytes; and a positive
  timeout of less than a nanosecond is accepted and bounds nothing.
\<close>

lemma emits_after_stop:
  assumes "th_dirty t" "th_getProgress t = Live"
  shows "th_emitted (timer_callback now live (throttle_stop t)) = th_emitted t @ [(now, partial_result live)]"
  using assms by (simp add: timer_callback_def throttle_stop_def clearTimerLocked_def emitLocked_def)

lemma ended_line_counts_zero:
  assumes "ExecuteShellWithCapture env ctx command opts on_chunk on_timer s w = (Inl cap, s', w')"
    "ee_Exec env ctx (shell_spec command opts) w = (Inl (evs, r), w1)" "has_suffix (cleaned evs) [newline]"
  shows "sh_LastLineBytes cap = 0"
proof -
  obtain st where st: "capture_events env ctx on_chunk on_timer evs (zero_capture, s, w1) = (st, s', w')"
    and cap: "cap = capture_result st r"
    using ExecuteShellWithCaptureD [OF assms(1,2)] by blast
  have "observed (cleaned evs) st" using observed_events [OF st observed_zero] by simp
  then show ?thesis
    using assms(3) last_line_open [of "cleaned evs"] by (simp add: cap capture_result_def observed_def Let_def)
qed

lemma bit_length_step: "0 < n \<Longrightarrow> bit_length n = Suc (bit_length (n div 2))" "bit_length 0 = 0"
  by (simp_all add: bit_length.simps [of n] bit_length.simps [of 0])

lemma round_half_even_ge: "of_int k \<le> q \<Longrightarrow> k \<le> round_half_even q"
  by (auto simp: round_half_even_def Let_def le_floor_iff intro: add_increasing2)

lemma tiny_timeout_unbounded:
  "validateBashTimeout (Some (Finite (pow2 (-40)))) = None \<and> timeout_duration (Some (Finite (pow2 (-40)))) = 0"
proof -
  have f: "\<lfloor>2147483647 / 1000 :: rat\<rfloor> = 2147483" by (rule floor_unique) simp_all
  have e: "float_exponent (2147483647 / 1000) = -31"
    by (simp add: float_exponent_def f bit_length_step)
  have "2 ^ 31 \<le> round_half_even (2147483647 / 1000 / pow2 (- 31))"
    by (rule round_half_even_ge) (simp add: pow2_def)
  then have "(2 ^ 31 :: rat) \<le> of_int (round_half_even (2147483647 / 1000 / pow2 (- 31)))" by (metis of_int_le_iff of_int_numeral of_int_power)
  then have "1 \<le> maxTimeoutSeconds"
    by (simp add: maxTimeoutSeconds_def round_float_def e Let_def) (simp add: pow2_def)
  moreover have "pow2 (-40) \<le> 1" "0 < pow2 (-40)" by (simp_all add: pow2_def)
  moreover have "\<lfloor>round_float (pow2 (-40) * 1000000000)\<rfloor> = 0"
  proof -
    have c: "\<lceil>2147483648 / 1953125 :: rat\<rceil> = 1100" by (rule ceiling_unique) simp_all
    have "float_exponent (pow2 (-40) * 1000000000) = -63"
      by (simp add: float_exponent_def pow2_def c bit_length_step)
    moreover have "pow2 (-40) * 1000000000 / pow2 (- 63) = of_int 8388608000000000" by (simp add: pow2_def)
    moreover have "round_half_even (of_int 8388608000000000) = 8388608000000000" by (simp add: round_half_even_def)
    ultimately have r: "round_float (pow2 (-40) * 1000000000) = of_int 8388608000000000 * pow2 (-63)"
      by (simp add: round_float_def Let_def) (simp add: pow2_def)
    show ?thesis unfolding r by (rule floor_unique) (simp_all add: pow2_def)
  qed
  ultimately show ?thesis
    by (simp add: validateBashTimeout_def timeout_duration_def)
qed

section \<open>A run\<close>

definition demo_bash :: "disk BashToolOptions" where
  "demo_bash = \<lparr>bo_Env = demo_env, bo_CommandPrefix = [], bo_Prepare = None\<rparr>"

definition demo_events :: "(exec_event \<times> ShellProgress) list" where
  "demo_events = (let p = \<lparr>sp_Output = ''hi'', sp_Truncation = TruncateTail ''hi'' no_options, sp_FullOutputPath = []\<rparr>
     in [(Output 5 ''h'', p), (Output 7 ''i'', p), (Timer 100000009, p)])"


definition demo_params :: bashParams where
  "demo_params = \<lparr>bp_Command = ''cmd'', bp_Timeout = None\<rparr>"

lemma demo_bash_exec:
  "ee_Exec demo_env disk_ctx (shell_spec ''cmd'' (bash_options (bash_execution demo_bash demo_params) demo_params)) (demo_run out) =
     (Inl ([Output 0 out], \<lparr>xr_ExitCode = 0, xr_Cancelled = False, xr_TimedOut = False\<rparr>), (demo_run out)\<lparr>dk_running := [''cmd'']\<rparr>)"
  by (simp add: OSEnv_def Exec_def shell_spec_def bash_options_def bash_execution_def demo_bash_def demo_params_def timeout_duration_def
      exec_environment_def flattenEnv_def disk_os_def demo_run_def demo_disk_def select_wake_def)

lemma demo_hi: "clean_chunk ''hi'' = ''hi''" "TruncateTail ''hi'' no_options = noTruncationResult ''hi'' 1 2 DefaultMaxLines DefaultMaxBytes"
  "\<not> overflowing (count_chunk ''hi'' zero_capture)"
proof -
  have "chr 104 = CHR ''h''" "chr 105 = CHR ''i''" by (simp_all add: chr_byte)
  then show "clean_chunk ''hi'' = ''hi''"
    by (simp add: clean_chunk_def replace_char sanitizeBinaryOutput_def strings_map_def map_chunk_def binary_rune_def encode_rune_def runes_Cons_ascii)
  show "TruncateTail ''hi'' no_options = noTruncationResult ''hi'' 1 2 DefaultMaxLines DefaultMaxBytes"
    by (simp add: TruncateTail_def splitLinesForCounting_def has_suffix_def DefaultMaxLines_def DefaultMaxBytes_def numeral_2_eq_2)
  show "\<not> overflowing (count_chunk ''hi'' zero_capture)"
    by (simp add: overflowing_def count_chunk_def zero_capture_def total_lines_def count_char Let_def DefaultMaxLines_def DefaultMaxBytes_def)
qed

lemma demo_bash_capture:
  "\<exists>capture t w2. ExecuteShellWithCapture demo_env disk_ctx ''cmd'' (bash_options (bash_execution demo_bash demo_params) demo_params)
      throttle_onChunk timer_callback newBashThrottle (demo_run ''hi'') = (Inl capture, t, w2) \<and>
     sh_Output capture = ''hi'' \<and> sh_ExitCode capture = 0 \<and> \<not> sh_Cancelled capture \<and> \<not> sh_TimedOut capture"
proof -
  let ?w = "(demo_run ''hi'')\<lparr>dk_running := [''cmd'']\<rparr>"
  obtain t0 st w where o: "observeChunk demo_env disk_ctx ''hi'' zero_capture ?w = (t0, st, w)"
    by (cases "observeChunk demo_env disk_ctx ''hi'' zero_capture ?w") auto
  have st: "observed ''hi'' st" using observe_chunk(2) [OF observed_zero o] by (simp add: demo_hi)
  have "sc_spillErr st = None"
    using o demo_hi(3) by (auto simp: observeChunk_def demo_hi spill_def Let_def count_chunk_def zero_capture_def)
  then show ?thesis
    using o by (simp add: ExecuteShellWithCapture_def demo_bash_exec capture_result_def snapshot_whole [OF st] demo_hi noTruncationResult_def Let_def)
qed

lemma bash_reports_outcome_witness:
  "\<exists>parts r w2. bash_ExecuteStream demo_bash 9 disk_ctx demo_params (demo_run ''hi'') =
     ((parts, (r, None)), w2) \<and> \<not> tr_IsError r \<and> (\<exists>rest. tr_Content r = ''hi'' @ rest)"
proof -
  obtain capture t w2 where c: "ExecuteShellWithCapture demo_env disk_ctx ''cmd'' (bash_options (bash_execution demo_bash demo_params) demo_params)
      throttle_onChunk timer_callback newBashThrottle (demo_run ''hi'') = (Inl capture, t, w2)"
    and out: "sh_Output capture = ''hi''" "sh_ExitCode capture = 0" "\<not> sh_Cancelled capture" "\<not> sh_TimedOut capture"
    using demo_bash_capture by blast
  have "bash_prepare demo_bash disk_ctx (bash_execution demo_bash demo_params) (demo_run ''hi'') =
      (Inl (bash_execution demo_bash demo_params), demo_run ''hi'')"
    by (simp add: bash_prepare_def demo_bash_def)
  from bash_reports_outcome [OF _ this, of capture t w2 9] c out show ?thesis
    by (auto simp: validateBashTimeout_def demo_params_def bash_execution_def demo_bash_def)
qed

end
