(* ===== verification/Tool_Path.thy ===== *)
theory Tool_Path
  imports Exec_Env Edit_Text
begin

text \<open>
  The paths the model gives to the file tools (tools/path.go): Unicode spaces become plain ones, a leading at sign is
  dropped, and the read tool also tries a few spellings of the name that are on disk. The Unicode normalization of
  golang.org/x/text is the parameter \<open>nfd\<close>.
\<close>

definition unicodeSpaces :: "nat \<Rightarrow> bool" where
  "unicodeSpaces r \<longleftrightarrow> r \<in> {0x00A0, 0x202F, 0x205F, 0x3000} \<or> 0x2000 \<le> r \<and> r \<le> 0x200A"

definition narrowNoBreakSpace :: string where
  "narrowNoBreakSpace = [CHR 0xE2, CHR 0x80, CHR 0xAF]"

definition curlyRightSingleQuote :: string where
  "curlyRightSingleQuote = [CHR 0xE2, CHR 0x80, CHR 0x99]"

definition NormalizeToolPath :: "string \<Rightarrow> string" where
  "NormalizeToolPath path = trim_prefix (replace_runes unicodeSpaces path '' '') ''@''"

definition ResolveToolPath :: "'w ExecutionEnv \<Rightarrow> 'w go_context \<Rightarrow> string \<Rightarrow> ('w, string) act" where
  "ResolveToolPath env ctx path = ee_AbsolutePath env ctx (NormalizeToolPath path)"

text \<open>\<^verbatim>\<open>amPmSuffix.ReplaceAllString\<close>: the space before AM. or PM., in any case.\<close>

fun amPmSuffix :: "string \<Rightarrow> string" where
  "amPmSuffix (a # b # c # d # s) =
     (if a = CHR '' '' \<and> b \<in> {CHR ''A'', CHR ''a'', CHR ''P'', CHR ''p''} \<and> c \<in> {CHR ''M'', CHR ''m''} \<and> d = CHR ''.''
      then narrowNoBreakSpace @ [b, c, d] @ amPmSuffix s
      else a # amPmSuffix (b # c # d # s))"
| "amPmSuffix s = s"

definition read_variants :: "(string \<Rightarrow> string) \<Rightarrow> string \<Rightarrow> string list" where
  "read_variants nfd resolved =
     [resolved, amPmSuffix resolved, nfd resolved, replace_all resolved [CHR 0x27] curlyRightSingleQuote,
      replace_all (nfd resolved) [CHR 0x27] curlyRightSingleQuote]"

fun first_existing :: "'w ExecutionEnv \<Rightarrow> 'w go_context \<Rightarrow> string list \<Rightarrow> string list \<Rightarrow> ('w, string option) act" where
  "first_existing env ctx seen [] w = (Inl None, w)"
| "first_existing env ctx seen (v # vs) w =
     (if v \<in> set seen then first_existing env ctx seen vs w
      else case ee_Exists env ctx v w of
             (Inr e, w') \<Rightarrow> (Inr e, w')
           | (Inl found, w') \<Rightarrow> if found then (Inl (Some v), w') else first_existing env ctx (v # seen) vs w')"

definition ResolveReadToolPath :: "(string \<Rightarrow> string) \<Rightarrow> 'w ExecutionEnv \<Rightarrow> 'w go_context \<Rightarrow> string \<Rightarrow> ('w, string) act" where
  "ResolveReadToolPath nfd env ctx path =
     bind_act (ResolveToolPath env ctx path)
       (\<lambda>resolved. bind_act (first_existing env ctx [] (read_variants nfd resolved))
         (\<lambda>found w. (Inl (case found of Some v \<Rightarrow> v | None \<Rightarrow> resolved), w)))"

text \<open>A path that exists as it is spelled is not healed: the read goes to the path the model named.\<close>

lemma existing_path_kept:
  assumes "ResolveToolPath env ctx path w = (Inl p, v)" "ee_Exists env ctx p v = (Inl True, v')"
  shows "ResolveReadToolPath nfd env ctx path w = (Inl p, v')"
  using assms by (simp add: ResolveReadToolPath_def bind_act_def read_variants_def)

text \<open>Whatever is chosen is one of the spellings.\<close>

lemma first_existing_in: "first_existing env ctx seen vs w = (Inl (Some v), w') \<Longrightarrow> v \<in> set vs"
  by (induction env ctx seen vs w rule: first_existing.induct) (auto split: if_splits sum.splits prod.splits)

lemma healed_path:
  assumes "ResolveReadToolPath nfd env ctx path w = (Inl q, w')"
  shows "\<exists>p v. ResolveToolPath env ctx path w = (Inl p, v) \<and> q \<in> set (read_variants nfd p)"
proof -
  obtain p v found where p: "ResolveToolPath env ctx path w = (Inl p, v)"
    "first_existing env ctx [] (read_variants nfd p) v = (Inl found, w')" "q = (case found of Some x \<Rightarrow> x | None \<Rightarrow> p)"
    using assms by (auto simp: ResolveReadToolPath_def)
  have "q \<in> set (read_variants nfd p)"
  proof (cases found)
    case None
    then show ?thesis using p(3) by (simp add: read_variants_def)
  next
    case (Some x)
    then show ?thesis using first_existing_in [of env ctx "[]" "read_variants nfd p" v x w'] p(2,3) by simp
  qed
  then show ?thesis using p(1) by blast
qed

end
