(* ===== verification/Mutation_Queue.thy ===== *)
theory Mutation_Queue
  imports Exec_Env Tool_Results
begin

text \<open>
  The queue of mutations (tools/mutation_queue.go): calls that change the same file run one at a time. Two views: what one
  call does, and the steps of any number of concurrent calls over the map of locks, one atomic operation of the code
  per step.
\<close>

section \<open>One call\<close>

definition mutationQueueKey :: "'w ExecutionEnv \<Rightarrow> 'w go_context \<Rightarrow> string \<Rightarrow> ('w, string) act" where
  "mutationQueueKey env ctx path =
     bind_act (ee_AbsolutePath env ctx path)
       (\<lambda>p w. case ee_CanonicalPath env ctx p w of
          (Inl canonical, w') \<Rightarrow> (Inl canonical, w')
        | (Inr e, w') \<Rightarrow> if errors_is e FsNotExist then (Inl p, w') else (Inr e, w'))"

text \<open>What the call computes, once the lock is its own; the outcome \<open>None\<close> is a panic of \<open>fn\<close>.\<close>

definition withFileMutationQueue :: "'w ExecutionEnv \<Rightarrow> 'w go_context \<Rightarrow> string \<Rightarrow> ('w \<Rightarrow> tool_return option \<times> 'w) \<Rightarrow>
    'w \<Rightarrow> tool_return option \<times> 'w" where
  "withFileMutationQueue env ctx path fn w =
     (case mutationQueueKey env ctx path w of
        (Inr e, w1) \<Rightarrow> (Some (zero_result, Some e), w1)
      | (Inl key, w1) \<Rightarrow> fn w1)"

section \<open>Concurrent calls\<close>

text \<open>The environment of a key is its identity; a mutex is the number it was created with.\<close>

record mutationKey =
  mk_env :: nat
  mk_path :: string

datatype call_pc = Starting | WaitingFor nat | Inside nat | Finished

record mutationState =
  mq_locks :: "mutationKey \<Rightarrow> nat option"
  mq_created :: nat
  mq_held :: "nat \<Rightarrow> bool"
  mq_calls :: "(mutationKey \<times> call_pc) list"

definition no_calls :: mutationState where
  "no_calls = \<lparr>mq_locks = (\<lambda>k. None), mq_created = 0, mq_held = (\<lambda>m. False), mq_calls = []\<rparr>"

text \<open>\<^verbatim>\<open>mutationLocks.LoadOrStore\<close> with a new mutex: the one stored for the key, or the new one, now stored.\<close>

definition LoadOrStore :: "mutationKey \<Rightarrow> mutationState \<Rightarrow> nat \<times> mutationState" where
  "LoadOrStore key st =
     (let new = mq_created st; st = st\<lparr>mq_created := new + 1\<rparr>
      in case mq_locks st key of
           Some m \<Rightarrow> (m, st)
         | None \<Rightarrow> (new, st\<lparr>mq_locks := (mq_locks st)(key \<mapsto> new)\<rparr>))"

text \<open>The next operation of call \<open>i\<close>; \<open>None\<close> when it is blocked or over. Leaving \<open>Inside\<close> is the deferred unlock, after \<^verbatim>\<open>fn\<close>.\<close>

definition call_step :: "nat \<Rightarrow> mutationState \<Rightarrow> mutationState option" where
  "call_step i st =
     (if i < length (mq_calls st) then
        (case mq_calls st ! i of
           (key, Starting) \<Rightarrow> (let (m, st) = LoadOrStore key st in Some (st\<lparr>mq_calls := (mq_calls st)[i := (key, WaitingFor m)]\<rparr>))
         | (key, WaitingFor m) \<Rightarrow>
             if mq_held st m then None
             else Some (st\<lparr>mq_held := (mq_held st)(m := True), mq_calls := (mq_calls st)[i := (key, Inside m)]\<rparr>)
         | (key, Inside m) \<Rightarrow> Some (st\<lparr>mq_held := (mq_held st)(m := False), mq_calls := (mq_calls st)[i := (key, Finished)]\<rparr>)
         | (key, Finished) \<Rightarrow> None)
      else None)"

inductive mutations :: "mutationState \<Rightarrow> bool" where
  begin_queue: "mutations no_calls"
| new_call: "mutations st \<Longrightarrow> mutations (st\<lparr>mq_calls := mq_calls st @ [(key, Starting)]\<rparr>)"
| step_call: "mutations st \<Longrightarrow> call_step i st = Some st' \<Longrightarrow> mutations st'"

section \<open>Mutual exclusion\<close>

definition inside :: "mutationState \<Rightarrow> nat \<Rightarrow> nat \<Rightarrow> bool" where
  "inside st i m \<longleftrightarrow> i < length (mq_calls st) \<and> snd (mq_calls st ! i) = Inside m"

definition lock_of :: "call_pc \<Rightarrow> nat option" where
  "lock_of pc = (case pc of WaitingFor m \<Rightarrow> Some m | Inside m \<Rightarrow> Some m | _ \<Rightarrow> None)"

definition queue_inv :: "mutationState \<Rightarrow> bool" where
  "queue_inv st \<longleftrightarrow>
     (\<forall>(key, pc) \<in> set (mq_calls st). \<forall>m. lock_of pc = Some m \<longrightarrow> mq_locks st key = Some m) \<and>
     (\<forall>key m. mq_locks st key = Some m \<longrightarrow> m < mq_created st) \<and>
     (\<forall>j k m. mq_locks st j = Some m \<longrightarrow> mq_locks st k = Some m \<longrightarrow> j = k) \<and>
     (\<forall>m. mq_held st m \<longleftrightarrow> (\<exists>i. inside st i m)) \<and>
     (\<forall>i j m. inside st i m \<longrightarrow> inside st j m \<longrightarrow> i = j)"

lemma inside_update:
  assumes "i < length (mq_calls st)"
  shows "inside (st\<lparr>mq_calls := (mq_calls st)[i := (key, pc)]\<rparr>) j m \<longleftrightarrow> (if j = i then pc = Inside m else inside st j m)"
  using assms by (auto simp: inside_def)

lemma queue_inv_new:
  assumes "queue_inv st"
  shows "queue_inv (st\<lparr>mq_calls := mq_calls st @ [(key, Starting)]\<rparr>)"
proof -
  have e: "inside (st\<lparr>mq_calls := mq_calls st @ [(key, Starting)]\<rparr>) j m \<longleftrightarrow> inside st j m" for j m
    by (auto simp: inside_def nth_append)
  show ?thesis using assms unfolding queue_inv_def e by (auto simp: lock_of_def)
qed

text \<open>What an update of one call keeps: its lock is the one of its key, and holding goes with being inside.\<close>

lemma queue_inv_update:
  assumes inv: "queue_inv st" and i: "i < length (mq_calls st)"
    and lock: "\<And>m. lock_of pc = Some m \<Longrightarrow> mq_locks st key = Some m"
    and held: "\<And>m. held m \<longleftrightarrow> pc = Inside m \<or> (\<exists>j. j \<noteq> i \<and> inside st j m)"
    and free: "\<And>j m. pc = Inside m \<Longrightarrow> j \<noteq> i \<Longrightarrow> \<not> inside st j m"
  shows "queue_inv (st\<lparr>mq_held := held, mq_calls := (mq_calls st)[i := (key, pc)]\<rparr>)"
proof -
  let ?s = "st\<lparr>mq_held := held, mq_calls := (mq_calls st)[i := (key, pc)]\<rparr>"
  have e: "inside ?s j m \<longleftrightarrow> (if j = i then pc = Inside m else inside st j m)" for j m
    using i by (auto simp: inside_def)
  have calls: "\<forall>(key, pc) \<in> set (mq_calls ?s). \<forall>m. lock_of pc = Some m \<longrightarrow> mq_locks ?s key = Some m"
  proof -
    have "lock_of q = Some m \<Longrightarrow> mq_locks st k = Some m" if "(k, q) \<in> set ((mq_calls st)[i := (key, pc)])" for k q m
    proof -
      have "(k, q) = (key, pc) \<or> (k, q) \<in> set (mq_calls st)"
        using that set_update_subset_insert [of "mq_calls st" i "(key, pc)"] by blast
      then show "lock_of q = Some m \<Longrightarrow> mq_locks st k = Some m" using inv lock unfolding queue_inv_def by auto
    qed
    then show ?thesis by auto
  qed
  have "mq_held ?s m \<longleftrightarrow> (\<exists>j. inside ?s j m)" for m
  proof -
    have "(\<exists>j. inside ?s j m) \<longleftrightarrow> pc = Inside m \<or> (\<exists>j. j \<noteq> i \<and> inside st j m)" unfolding e by metis
    then show ?thesis using held [of m] by simp
  qed
  then have "\<forall>m. mq_held ?s m \<longleftrightarrow> (\<exists>j. inside ?s j m)" by blast
  moreover have "\<forall>j k m. inside ?s j m \<longrightarrow> inside ?s k m \<longrightarrow> j = k"
  proof (intro allI impI)
    fix j k m
    have one: "inside st j m \<Longrightarrow> inside st k m \<Longrightarrow> j = k" using inv unfolding queue_inv_def by blast
    show "inside ?s j m \<Longrightarrow> inside ?s k m \<Longrightarrow> j = k"
      unfolding e using one free [of m j] free [of m k] by (cases "j = i"; cases "k = i"; simp)
  qed
  moreover have "\<forall>k m. mq_locks ?s k = Some m \<longrightarrow> m < mq_created ?s"
    "\<forall>j k m. mq_locks ?s j = Some m \<longrightarrow> mq_locks ?s k = Some m \<longrightarrow> j = k"
    using inv by (simp_all add: queue_inv_def)
  ultimately show ?thesis unfolding queue_inv_def using calls by (intro conjI)
qed

lemma queue_inv_store:
  assumes "queue_inv st" "LoadOrStore key st = (m, st')"
  shows "queue_inv st'" "mq_locks st' key = Some m" "mq_calls st' = mq_calls st" "mq_held st' = mq_held st"
proof -
  have e: "inside (st\<lparr>mq_created := c, mq_locks := l\<rparr>) j n \<longleftrightarrow> inside st j n"
    "inside (st\<lparr>mq_created := c\<rparr>) j n \<longleftrightarrow> inside st j n" for c l j n
    by (auto simp: inside_def)
  show "mq_locks st' key = Some m" "mq_calls st' = mq_calls st" "mq_held st' = mq_held st"
    using assms(2) by (auto simp: LoadOrStore_def Let_def split: option.splits)
  show "queue_inv st'"
  proof (cases "mq_locks st key")
    case None
    then have st': "st' = st\<lparr>mq_created := mq_created st + 1, mq_locks := (mq_locks st)(key \<mapsto> mq_created st)\<rparr>"
      using assms(2) by (auto simp: LoadOrStore_def Let_def)
    have "mq_locks st k \<noteq> Some (mq_created st)" for k
      using assms(1) unfolding queue_inv_def by auto
    then have inj: "\<forall>j k m. mq_locks st' j = Some m \<longrightarrow> mq_locks st' k = Some m \<longrightarrow> j = k"
      using assms(1) unfolding queue_inv_def by (auto simp: st')
    have bound: "\<forall>k m. mq_locks st' k = Some m \<longrightarrow> m < mq_created st'"
      using assms(1) unfolding queue_inv_def by (auto simp: st' intro: less_SucI)
    have calls: "\<forall>(k, pc) \<in> set (mq_calls st). \<forall>m. lock_of pc = Some m \<longrightarrow> mq_locks st' k = Some m"
      using assms(1) None unfolding queue_inv_def by (fastforce simp: st')
    have i: "inside st' j m \<longleftrightarrow> inside st j m" "mq_held st' = mq_held st" "mq_calls st' = mq_calls st" for j m
      by (auto simp: st' inside_def)
    show ?thesis using assms(1) inj bound calls unfolding queue_inv_def i by blast
  next
    case (Some n)
    then have "st' = st\<lparr>mq_created := mq_created st + 1\<rparr>" using assms(2) by (auto simp: LoadOrStore_def Let_def)
    then show ?thesis using assms(1) unfolding queue_inv_def by (auto simp: e intro: less_SucI)
  qed
qed

lemma queue_inv_step:
  assumes "queue_inv st" "call_step i st = Some st'"
  shows "queue_inv st'"
proof -
  obtain key pc where i: "i < length (mq_calls st)" "mq_calls st ! i = (key, pc)"
    using assms(2) by (cases "mq_calls st ! i") (auto simp: call_step_def split: if_splits)
  have held: "mq_held st m \<longleftrightarrow> (\<exists>j. inside st j m)" and one: "inside st j m \<Longrightarrow> inside st k m \<Longrightarrow> j = k" for j k m
    using assms(1) unfolding queue_inv_def by auto
  have lock: "lock_of pc = Some m \<Longrightarrow> mq_locks st key = Some m" for m
    using assms(1) nth_mem [OF i(1)] i(2) unfolding queue_inv_def by auto
  have in_i: "inside st i m \<longleftrightarrow> pc = Inside m" for m using i by (simp add: inside_def)
  then have other: "(\<exists>j. j \<noteq> i \<and> inside st j k) \<longleftrightarrow> (\<exists>j. inside st j k)" if "\<forall>m. pc \<noteq> Inside m" for k
    using that by metis
  show ?thesis
  proof (cases pc)
    case Starting
    obtain m s where s: "LoadOrStore key st = (m, s)" by force
    have st': "st' = s\<lparr>mq_calls := (mq_calls s)[i := (key, WaitingFor m)]\<rparr>"
      using assms(2) i s Starting by (simp add: call_step_def)
    note n = queue_inv_store [OF assms(1) s]
    have e: "inside s j k \<longleftrightarrow> inside st j k" for j k using n(3) by (simp add: inside_def)
    have "queue_inv (s\<lparr>mq_held := mq_held s, mq_calls := (mq_calls s)[i := (key, WaitingFor m)]\<rparr>)"
      by (rule queue_inv_update [OF n(1)]) (use i n Starting in \<open>auto simp: lock_of_def e held other\<close>)
    then show ?thesis unfolding st' by simp
  next
    case (WaitingFor m)
    then have f: "\<not> mq_held st m"
      and st': "st' = st\<lparr>mq_held := (mq_held st)(m := True), mq_calls := (mq_calls st)[i := (key, Inside m)]\<rparr>"
      using assms(2) i by (auto simp: call_step_def split: if_splits)
    show ?thesis unfolding st'
      by (rule queue_inv_update [OF assms(1) i(1)]) (use lock f WaitingFor in \<open>auto simp: lock_of_def held other\<close>)
  next
    case (Inside m)
    then have st': "st' = st\<lparr>mq_held := (mq_held st)(m := False), mq_calls := (mq_calls st)[i := (key, Finished)]\<rparr>"
      using assms(2) i by (auto simp: call_step_def)
    have here: "inside st i m" using in_i Inside by simp
    have h: "((mq_held st)(m := False)) n \<longleftrightarrow> Finished = Inside n \<or> (\<exists>j. j \<noteq> i \<and> inside st j n)" for n
    proof (cases "n = m")
      case True
      then show ?thesis using one [OF _ here] by auto
    next
      case False
      then have "\<not> inside st i n" using in_i Inside by simp
      then have "(\<exists>j. inside st j n) \<longleftrightarrow> (\<exists>j. j \<noteq> i \<and> inside st j n)" by metis
      then show ?thesis using False held [of n] by simp
    qed
    show ?thesis unfolding st'
      by (rule queue_inv_update [OF assms(1) i(1) _ h]) (simp_all add: lock_of_def)
  next
    case Finished
    then show ?thesis using assms(2) i by (simp add: call_step_def)
  qed
qed

lemma queue_invariant: "mutations st \<Longrightarrow> queue_inv st"
  by (induction rule: mutations.induct) (auto simp: queue_inv_new queue_inv_step, auto simp: queue_inv_def no_calls_def inside_def)

text \<open>
  C22
  However the calls interleave: at most one call per key is inside its function; a call holds or
  awaits no lock of another key; and while a call has not finished, some call of its own key has a step to make, so no call is
  stuck and calls for other files never delay it.
\<close>

theorem mutations_exclude:
  assumes "mutations st" "i < length (mq_calls st)" "j < length (mq_calls st)"
  shows "let (key, pc) = mq_calls st ! i; (key', pc') = mq_calls st ! j
    in (pc = Inside m \<and> pc' = Inside m' \<and> key = key' \<longrightarrow> i = j) \<and>
       (pc = Inside m \<and> lock_of pc' = Some m \<longrightarrow> key = key') \<and>
       (pc \<noteq> Finished \<longrightarrow> (\<exists>r < length (mq_calls st). fst (mq_calls st ! r) = key \<and> call_step r st \<noteq> None))"
proof -
  note inv = queue_invariant [OF assms(1)]
  have lock: "lock_of (snd (mq_calls st ! r)) = Some m \<Longrightarrow> mq_locks st (fst (mq_calls st ! r)) = Some m"
    if "r < length (mq_calls st)" for r m
    using inv nth_mem [OF that] unfolding queue_inv_def by (cases "mq_calls st ! r") auto
  have inj: "mq_locks st k = Some m \<Longrightarrow> mq_locks st k' = Some m \<Longrightarrow> k = k'" for k k' m
    using inv unfolding queue_inv_def by blast
  have one: "inside st r m \<Longrightarrow> inside st s m \<Longrightarrow> r = s" and held: "mq_held st m \<longleftrightarrow> (\<exists>r. inside st r m)" for r s m
    using inv unfolding queue_inv_def by auto
  obtain key pc key' pc' where k: "mq_calls st ! i = (key, pc)" "mq_calls st ! j = (key', pc')" by force
  have same: "i = j" if "pc = Inside m" "pc' = Inside m'" "key = key'"
  proof -
    have "m = m'" using lock [OF assms(2), of m] lock [OF assms(3), of m'] that k by (simp add: lock_of_def)
    then show ?thesis using one [of i m j] assms that k by (simp add: inside_def)
  qed
  have own: "key = key'" if "pc = Inside m" "lock_of pc' = Some m"
    using lock [OF assms(2), of m] lock [OF assms(3), of m] that inj k by (simp add: lock_of_def)
  have live: "\<exists>r < length (mq_calls st). fst (mq_calls st ! r) = key \<and> call_step r st \<noteq> None" if nf: "pc \<noteq> Finished"
  proof (cases "call_step i st = None")
    case True
    then obtain n where n: "pc = WaitingFor n" "mq_held st n"
      using assms(2) nf k by (cases pc) (auto simp: call_step_def Let_def split: if_splits prod.splits)
    then obtain r where r: "r < length (mq_calls st)" "snd (mq_calls st ! r) = Inside n" using held by (auto simp: inside_def)
    have "fst (mq_calls st ! r) = key"
      using lock [OF assms(2), of n] lock [OF r(1), of n] inj k n r by (simp add: lock_of_def)
    moreover have "call_step r st \<noteq> None" using r by (cases "mq_calls st ! r") (auto simp: call_step_def)
    ultimately show ?thesis using r(1) by blast
  qed (use assms(2) k in auto)
  show ?thesis using same own live by (simp add: k)
qed

text \<open>Two calls for one file and one for another, the first inside.\<close>

definition a_file :: mutationKey where "a_file = \<lparr>mk_env = 0, mk_path = ''/w/a''\<rparr>"
definition b_file :: mutationKey where "b_file = \<lparr>mk_env = 0, mk_path = ''/w/b''\<rparr>"

definition three_calls :: mutationState where
  "three_calls = no_calls\<lparr>mq_calls := [(a_file, Starting), (a_file, Starting), (b_file, Starting)]\<rparr>"

lemma three_calls: "mutations three_calls"
  using new_call [OF new_call [OF new_call [OF begin_queue, of a_file], of a_file], of b_file]
  by (simp add: three_calls_def no_calls_def)

lemma run_calls: "mutations st \<Longrightarrow> mutations (fold (\<lambda>i st. case call_step i st of Some st' \<Rightarrow> st' | None \<Rightarrow> st) is st)"
  by (induction "is" arbitrary: st) (auto split: option.split intro: step_call)

definition one_inside :: mutationState where
  "one_inside = fold (\<lambda>i st. case call_step i st of Some st' \<Rightarrow> st' | None \<Rightarrow> st) [0, 1, 2, 0, 1, 2] three_calls"

lemma mutations_exclude_witness:
  "mq_calls one_inside = [(a_file, Inside 0), (a_file, WaitingFor 0), (b_file, Inside 2)] \<and>
   (\<exists>r < length (mq_calls one_inside). fst (mq_calls one_inside ! r) = a_file \<and> call_step r one_inside \<noteq> None)"
proof -
  have c: "mq_calls one_inside = [(a_file, Inside 0), (a_file, WaitingFor 0), (b_file, Inside 2)]"
    by (simp add: one_inside_def three_calls_def no_calls_def call_step_def LoadOrStore_def Let_def a_file_def b_file_def)
  have "mutations one_inside" unfolding one_inside_def by (rule run_calls) (rule three_calls)
  then show ?thesis using mutations_exclude [of one_inside 1 0 0 0] c by simp
qed

section \<open>The key of a file that comes into being\<close>

text \<open>Before the file exists its key is the absolute path, afterwards the canonical one: below a symbolic link these differ, and
  a call that resolves its key after the file was created takes another lock than the call that created it.\<close>

lemma key_before_and_after:
  assumes "ee_AbsolutePath env ctx path w = (Inl p, w1)"
    and "ee_CanonicalPath env ctx p w1 = (Inr e, w2)" "errors_is e FsNotExist"
    and "ee_AbsolutePath env ctx path v = (Inl p, v1)" "ee_CanonicalPath env ctx p v1 = (Inl q, v2)"
  shows "mutationQueueKey env ctx path w = (Inl p, w2)" "mutationQueueKey env ctx path v = (Inl q, v2)"
  using assms by (simp_all add: mutationQueueKey_def bind_act_def)

lemma created_file_not_serialized:
  assumes "p \<noteq> q"
  shows "\<exists>st. mutations st \<and> mq_calls st = [(\<lparr>mk_env = 0, mk_path = p\<rparr>, Inside 0), (\<lparr>mk_env = 0, mk_path = q\<rparr>, Inside 1)]"
proof -
  define s0 where "s0 = no_calls\<lparr>mq_calls := [(\<lparr>mk_env = 0, mk_path = p\<rparr>, Starting), (\<lparr>mk_env = 0, mk_path = q\<rparr>, Starting)]\<rparr>"
  have "mutations s0"
    using new_call [OF new_call [OF begin_queue]] by (simp add: s0_def no_calls_def)
  then have "mutations (fold (\<lambda>i st. case call_step i st of Some st' \<Rightarrow> st' | None \<Rightarrow> st) [0, 1, 0, 1] s0)" by (rule run_calls)
  moreover have "mq_calls (fold (\<lambda>i st. case call_step i st of Some st' \<Rightarrow> st' | None \<Rightarrow> st) [0, 1, 0, 1] s0) =
      [(\<lparr>mk_env = 0, mk_path = p\<rparr>, Inside 0), (\<lparr>mk_env = 0, mk_path = q\<rparr>, Inside 1)]"
    using assms by (simp add: s0_def no_calls_def call_step_def LoadOrStore_def Let_def)
  ultimately show ?thesis by blast
qed

end
