(* ===== verification/Image_Sniff.thy ===== *)
theory Image_Sniff
  imports Go_Utf8
begin

text \<open>
  Recognizing images by their first bytes (tools/image.go). A byte string is a string; what is read past its end is 0.
  The integers read have at most 32 bits, so the sums of offsets and lengths stay far below the limits of \<^verbatim>\<open>int\<close>.
\<close>

unbundle bit_operations_syntax

section \<open>Reading bytes\<close>

definition pngSignature :: string where
  "pngSignature = [CHR 0x89, CHR 0x50, CHR 0x4E, CHR 0x47, CHR 0x0D, CHR 0x0A, CHR 0x1A, CHR 0x0A]"

definition byteAt :: "string \<Rightarrow> nat \<Rightarrow> nat" where
  "byteAt data offset = (if offset \<ge> length data then 0 else of_char (data ! offset))"

definition readUint16LE :: "string \<Rightarrow> nat \<Rightarrow> nat" where
  "readUint16LE data offset = byteAt data offset OR push_bit 8 (byteAt data (offset + 1))"

definition readUint32BE :: "string \<Rightarrow> nat \<Rightarrow> nat" where
  "readUint32BE data offset =
     push_bit 24 (byteAt data offset) OR push_bit 16 (byteAt data (offset + 1)) OR push_bit 8 (byteAt data (offset + 2))
       OR byteAt data (offset + 3)"

definition readUint32LE :: "string \<Rightarrow> nat \<Rightarrow> nat" where
  "readUint32LE data offset =
     byteAt data offset OR push_bit 8 (byteAt data (offset + 1)) OR push_bit 16 (byteAt data (offset + 2))
       OR push_bit 24 (byteAt data (offset + 3))"

definition startsWithBytes :: "string \<Rightarrow> string \<Rightarrow> bool" where
  "startsWithBytes data pre =
     (if length data < length pre then False else list_all (\<lambda>i. data ! i = pre ! i) [0..<length pre])"

definition startsWithASCII :: "string \<Rightarrow> nat \<Rightarrow> string \<Rightarrow> bool" where
  "startsWithASCII data offset s =
     (if length data < offset + length s then False else list_all (\<lambda>i. data ! (offset + i) = s ! i) [0..<length s])"

section \<open>The formats\<close>

definition isPng :: "string \<Rightarrow> bool" where
  "isPng data \<longleftrightarrow> 16 \<le> length data \<and> readUint32BE data (length pngSignature) = 13 \<and> startsWithASCII data 12 ''IHDR''"

text \<open>The walk over the chunks; every chunk takes at least twelve bytes, so it ends.\<close>

function animated_from :: "string \<Rightarrow> nat \<Rightarrow> bool" where
  "animated_from data offset =
     (if offset + 8 \<le> length data
      then (let chunkLength = readUint32BE data offset; chunkTypeOffset = offset + 4
            in if startsWithASCII data chunkTypeOffset ''acTL'' then True
               else if startsWithASCII data chunkTypeOffset ''IDAT'' then False
               else (let nextOffset = offset + 8 + chunkLength + 4
                     in if nextOffset \<le> offset \<or> length data < nextOffset then False else animated_from data nextOffset))
      else False)"
  by pat_completeness auto
termination
  by (relation "measure (\<lambda>(data, offset). length data - offset)") auto

declare animated_from.simps [simp del]

definition isAnimatedPng :: "string \<Rightarrow> bool" where
  "isAnimatedPng data = animated_from data (length pngSignature)"

definition isBmp :: "string \<Rightarrow> bool" where
  "isBmp data =
     (if length data < 26 then False
      else
        (let declaredFileSize = readUint32LE data 2;
             pixelDataOffset = readUint32LE data 10;
             dibHeaderSize = readUint32LE data 14
         in if declaredFileSize \<noteq> 0 \<and> declaredFileSize < 26 then False
            else if pixelDataOffset < 14 + dibHeaderSize then False
            else if declaredFileSize \<noteq> 0 \<and> declaredFileSize \<le> pixelDataOffset then False
            else
              (let fields =
                 (if dibHeaderSize = 12 then Some (readUint16LE data 22, readUint16LE data 24)
                  else if 40 \<le> dibHeaderSize \<and> dibHeaderSize \<le> 124
                  then if length data < 30 then None else Some (readUint16LE data 26, readUint16LE data 28)
                  else None)
               in case fields of
                    None \<Rightarrow> False
                  | Some (colorPlanes, bitsPerPixel) \<Rightarrow> colorPlanes = 1 \<and> bitsPerPixel \<in> {1, 4, 8, 16, 24, 32})))"

definition DetectSupportedImageMimeType :: "string \<Rightarrow> string" where
  "DetectSupportedImageMimeType data =
     (if startsWithBytes data [CHR 0xFF, CHR 0xD8, CHR 0xFF]
      then if byteAt data 3 = 0xF7 then [] else ''image/jpeg''
      else if startsWithBytes data pngSignature
      then if isPng data \<and> \<not> isAnimatedPng data then ''image/png'' else []
      else if startsWithASCII data 0 ''GIF'' then ''image/gif''
      else if startsWithASCII data 0 ''RIFF'' \<and> startsWithASCII data 8 ''WEBP'' then ''image/webp''
      else if startsWithASCII data 0 ''BM'' \<and> isBmp data then ''image/bmp''
      else [])"

section \<open>What the readers read\<close>

lemma startsWithBytes_iff: "startsWithBytes data pre \<longleftrightarrow> take (length pre) data = pre"
  by (auto simp: startsWithBytes_def list_all_iff intro!: nth_equalityI) (metis nth_take)+

lemma startsWithASCII_iff: "startsWithASCII data offset s \<longleftrightarrow> take (length s) (drop offset data) = s \<and> (s = [] \<longrightarrow> offset \<le> length data)"
proof -
  have "take (length s) (drop offset data) = s \<longleftrightarrow> length s \<le> length data - offset \<and> (\<forall>i < length s. drop offset data ! i = s ! i)"
    by (auto simp: list_eq_iff_nth_eq)
  then show ?thesis by (auto simp: startsWithASCII_def list_all_iff)
qed

text \<open>A disjunction of bytes moved to different places is their sum.\<close>

lemma or_push_bit: "a < 2 ^ n \<Longrightarrow> a OR push_bit n b = a + 2 ^ n * (b :: nat)"
proof -
  assume "a < 2 ^ n"
  then have a: "take_bit n a = a" by (simp add: take_bit_nat_eq_self)
  have "a AND push_bit n b = 0"
    by (rule bit_eqI) (use a in \<open>metis bit_and_iff bit_push_bit_iff bit_take_bit_iff bit_0_eq not_le bot_apply bot_bool_def\<close>)
  then have "a OR push_bit n b = a + push_bit n b" by (simp add: disjunctive_add_eq_or)
  then show ?thesis by (simp add: push_bit_eq_mult mult.commute)
qed

lemma byteAt_less: "byteAt data i < 256"
  by (simp add: byteAt_def)

lemma readUint32BE_sum:
  "readUint32BE data offset =
     byteAt data (offset + 3) + 2 ^ 8 * (byteAt data (offset + 2) + 2 ^ 8 * (byteAt data (offset + 1) + 2 ^ 8 * byteAt data offset))"
proof -
  let ?b = "\<lambda>i. byteAt data (offset + i)"
  have "readUint32BE data offset = ?b 3 OR push_bit 8 (?b 2 OR push_bit 8 (?b 1 OR push_bit 8 (?b 0)))"
    by (simp add: readUint32BE_def push_bit_or push_bit_push_bit or.assoc or.commute or.left_commute)
  also have "\<dots> = ?b 3 + 2 ^ 8 * (?b 2 + 2 ^ 8 * (?b 1 + 2 ^ 8 * ?b 0))"
    by (subst or_push_bit, use byteAt_less in simp)+ simp
  finally show ?thesis by simp
qed

section \<open>Images found\<close>

text \<open>The chunks behind one another, as the format lays them out, up to the first one of type IDAT.\<close>

inductive chunk_from :: "string \<Rightarrow> nat \<Rightarrow> nat \<Rightarrow> bool" for data where
  this_chunk: "chunk_from data n n"
| next_chunk: "take 4 (drop (offset + 4) data) \<noteq> ''IDAT'' \<Longrightarrow> offset + 12 + readUint32BE data offset \<le> length data \<Longrightarrow>
    chunk_from data (offset + 12 + readUint32BE data offset) n \<Longrightarrow> chunk_from data offset n"

inductive_simps chunk_from_step: "chunk_from data offset n"

lemma animated_from_iff:
  "animated_from data offset \<longleftrightarrow> (\<exists>n. chunk_from data offset n \<and> take 4 (drop (n + 4) data) = ''acTL'')"
proof (induction data offset rule: animated_from.induct)
  case (1 data offset)
  let ?ty = "take 4 (drop (offset + 4) data)" and ?next = "offset + 12 + readUint32BE data offset"
  have ascii: "startsWithASCII data (offset + 4) s \<longleftrightarrow> ?ty = s" if "length s = 4" for s
    using that by (auto simp: startsWithASCII_iff)
  have short: "offset + 8 \<le> length data" if "?ty = s" "length s = 4" for s
  proof -
    have "length ?ty = 4" using that by simp
    then show ?thesis by simp
  qed
  consider "\<not> offset + 8 \<le> length data" | "?ty = ''acTL''" | "?ty = ''IDAT''"
    | "offset + 8 \<le> length data" "?ty \<noteq> ''acTL''" "?ty \<noteq> ''IDAT''" "length data < ?next"
    | "offset + 8 \<le> length data" "?ty \<noteq> ''acTL''" "?ty \<noteq> ''IDAT''" "?next \<le> length data"
    by fastforce
  then show ?case
  proof cases
    case 1
    then have "\<not> animated_from data offset" by (simp add: animated_from.simps [of data offset])
    moreover have "take 4 (drop (n + 4) data) \<noteq> ''acTL''" if "chunk_from data offset n" for n
      using that 1 short [of "''acTL''"] unfolding chunk_from_step [of data offset] by fastforce
    ultimately show ?thesis by blast
  next
    case 5
    then have "animated_from data offset = animated_from data ?next"
      by (subst animated_from.simps) (simp add: Let_def ascii add.commute add.left_commute)
    also have "\<dots> \<longleftrightarrow> (\<exists>n. chunk_from data ?next n \<and> take 4 (drop (n + 4) data) = ''acTL'')"
      using "1.IH" [OF 5(1) refl refl _ _ refl] 5 by (simp add: ascii add.commute add.left_commute)
    also have "\<dots> \<longleftrightarrow> (\<exists>n. chunk_from data offset n \<and> take 4 (drop (n + 4) data) = ''acTL'')"
      using 5 by (subst (2) chunk_from_step) auto
    finally show ?thesis .
  qed (unfold animated_from.simps [of data offset] chunk_from_step [of data offset], use short in \<open>auto simp: Let_def ascii\<close>)
qed

text \<open>
  C21
  A file is taken for a PNG image exactly when it starts with the signature, the length 13 and the type IHDR, and no chunk
  of type acTL comes in the sequence of its chunks before or behind which the first IDAT chunk ends it.
\<close>

theorem png_detected:
  "DetectSupportedImageMimeType data = ''image/png'' \<longleftrightarrow>
     take 16 data = pngSignature @ [CHR 0x00, CHR 0x00, CHR 0x00, CHR 0x0D] @ ''IHDR'' \<and>
     \<not> (\<exists>n. chunk_from data 8 n \<and> take 4 (drop (n + 4) data) = ''acTL'')"
proof -
  have parts: "take 16 data = pngSignature @ [CHR 0x00, CHR 0x00, CHR 0x00, CHR 0x0D] @ ''IHDR'' \<longleftrightarrow>
      take 8 data = pngSignature \<and> take 4 (drop 8 data) = [CHR 0x00, CHR 0x00, CHR 0x00, CHR 0x0D] \<and> take 4 (drop 12 data) = ''IHDR''"
  proof -
    let ?x = "pngSignature @ [CHR 0x00, CHR 0x00, CHR 0x00, CHR 0x0D] @ ''IHDR''"
    have whole: "take 16 data = take 8 data @ take 4 (drop 8 data) @ take 4 (drop 12 data)"
      using take_add [of 8 8 data] take_add [of 4 4 "drop 8 data"] by simp
    have cut: "take 8 data = take 8 (take 16 data)" "take 4 (drop 8 data) = take 4 (drop 8 (take 16 data))"
      "take 4 (drop 12 data) = take 4 (drop 12 (take 16 data))" by (simp_all add: drop_take)
    have "take 8 ?x = pngSignature" "take 4 (drop 8 ?x) = [CHR 0x00, CHR 0x00, CHR 0x00, CHR 0x0D]" "take 4 (drop 12 ?x) = ''IHDR''"
      by (simp_all add: pngSignature_def)
    then show ?thesis using whole cut by metis
  qed
  have len: "16 \<le> length data" if "take 4 (drop 12 data) = ''IHDR''"
    using arg_cong [OF that, of length] by (simp split: if_splits)
  have thirteen: "readUint32BE data 8 = 13 \<longleftrightarrow> take 4 (drop 8 data) = [CHR 0x00, CHR 0x00, CHR 0x00, CHR 0x0D]" if "16 \<le> length data"
  proof -
    have "take 4 (drop 8 data) = [data ! 8, data ! 9, data ! 10, data ! 11]"
      using that by (simp add: numeral_eq_Suc Cons_nth_drop_Suc [symmetric])
    moreover have "readUint32BE data 8 = 13 \<longleftrightarrow> byteAt data 8 = 0 \<and> byteAt data 9 = 0 \<and> byteAt data 10 = 0 \<and> byteAt data 11 = 13"
    proof -
      have low: "a + 2 ^ 8 * x = 13 \<longleftrightarrow> a = 13 \<and> x = 0" for a x :: nat by (cases x) auto
      then show ?thesis unfolding readUint32BE_sum low by auto
    qed
    moreover have "byteAt data i = of_char c \<longleftrightarrow> data ! i = c" if "i < 16" for i c
      using that \<open>16 \<le> length data\<close> by (simp add: byteAt_def)
    from this [of 8 "CHR 0x00"] this [of 9 "CHR 0x00"] this [of 10 "CHR 0x00"] this [of 11 "CHR 0x0D"]
    have "byteAt data 8 = 0 \<longleftrightarrow> data ! 8 = CHR 0x00" "byteAt data 9 = 0 \<longleftrightarrow> data ! 9 = CHR 0x00"
      "byteAt data 10 = 0 \<longleftrightarrow> data ! 10 = CHR 0x00" "byteAt data 11 = 13 \<longleftrightarrow> data ! 11 = CHR 0x0D" by simp_all
    ultimately show ?thesis by simp
  qed
  have png: "isPng data \<longleftrightarrow> take 4 (drop 8 data) = [CHR 0x00, CHR 0x00, CHR 0x00, CHR 0x0D] \<and> take 4 (drop 12 data) = ''IHDR''"
  proof -
    have "length pngSignature = 8" "length ''IHDR'' = 4" "length [CHR 0x00, CHR 0x00, CHR 0x00, CHR 0x0D] = 4" by (simp_all add: pngSignature_def)
    then show ?thesis using thirteen len unfolding isPng_def startsWithASCII_iff by (metis list.distinct(1))
  qed
  have jpeg: "\<not> startsWithBytes data [CHR 0xFF, CHR 0xD8, CHR 0xFF]" if "take 8 data = pngSignature"
    using that by (cases data) (auto simp: startsWithBytes_iff pngSignature_def)
  have sig_length: "length pngSignature = 8" by (simp add: pngSignature_def)
  have animated: "isAnimatedPng data \<longleftrightarrow> (\<exists>n. chunk_from data 8 n \<and> take 4 (drop (n + 4) data) = ''acTL'')"
    unfolding isAnimatedPng_def animated_from_iff sig_length ..
  show ?thesis
    using jpeg sig_length unfolding DetectSupportedImageMimeType_def parts png [symmetric] animated [symmetric] startsWithBytes_iff [of data pngSignature] by auto
qed

end
