(* ===== verification/Read_Tool.thy ===== *)
theory Read_Tool
  imports Tool_Path Tool_Results Image_Sniff Go_Int
begin

text \<open>
  The read tool (tools/read.go): a window of the lines of a text file, cut to the limits and followed by a notice that says where
  to go on, or an image. The outcome \<open>None\<close> is a panic.
\<close>

section \<open>Text files\<close>

record readParams =
  rp_Path :: string
  rp_Offset :: int
  rp_Limit :: "int option"

definition read_start :: "readParams \<Rightarrow> int" where
  "read_start p =
     (if rp_Offset p \<noteq> 0 then (let startLine = wrap64 (rp_Offset p - 1) in if startLine < 0 then 0 else startLine) else 0)"

definition read_end :: "int \<Rightarrow> int \<Rightarrow> int \<Rightarrow> int" where
  "read_end startLine limit n =
     (let endLine = wrap64 (startLine + limit);
          endLine = (if n < endLine then n else endLine)
      in if endLine < startLine then startLine else endLine)"

text \<open>The line after the last one selected, and what is left to read there.\<close>

definition selected_end :: "readParams \<Rightarrow> nat \<Rightarrow> nat" where
  "selected_end p totalFileLines =
     (case rp_Limit p of
        Some limit \<Rightarrow> nat (read_end (read_start p) limit (int totalFileLines))
      | None \<Rightarrow> totalFileLines)"

definition more_lines :: "nat \<Rightarrow> string" where
  "more_lines nextOffset = ''Use offset='' @ itoa_nat nextOffset @ '' to continue.]''"

definition oversized_line :: "nat \<Rightarrow> string \<Rightarrow> string \<Rightarrow> string" where
  "oversized_line n line path =
     ''[Line '' @ itoa_nat n @ '' is '' @ FormatSize (int (length line)) @ '', exceeds '' @ FormatSize DefaultMaxBytes
       @ '' limit. Use bash: sed -n '' @ [CHR 0x27] @ itoa_nat n @ ''p'' @ [CHR 0x27] @ '' '' @ path @ '' | head -c ''
       @ itoa DefaultMaxBytes @ '']''"

definition readTextToolResult :: "readParams \<Rightarrow> string \<Rightarrow> ToolResult option" where
  "readTextToolResult p data =
     (let allLines = split_on newline data;
          totalFileLines = length allLines;
          startLine = nat (read_start p);
          startLineDisplay = startLine + 1
      in if int totalFileLines \<le> read_start p
         then Some (error_result (''Offset '' @ itoa (rp_Offset p) @ '' is beyond end of file ('' @ itoa_nat totalFileLines @ '' lines total)''))
         else
           (let endLine = selected_end p totalFileLines;
                selectedContent = strings_join (take (endLine - startLine) (drop startLine allLines)) [newline];
                userLimitedLines = (case rp_Limit p of Some limit \<Rightarrow> endLine - startLine | None \<Rightarrow> 0)
            in case TruncateHead selectedContent no_options of
                 None \<Rightarrow> None
               | Some t \<Rightarrow>
                   if tn_FirstLineExceedsLimit t
                   then Some (ok_result (oversized_line startLineDisplay (allLines ! startLine) (rp_Path p)) (Some (marshalTruncationDetails t)))
                   else if tn_Truncated t
                   then (let endLineDisplay = startLineDisplay + tn_OutputLines t - 1;
                             nextOffset = endLineDisplay + 1
                         in Some (ok_result
                              (tn_Content t @ [newline, newline] @ ''[Showing lines '' @ itoa_nat startLineDisplay @ ''-'' @ itoa_nat endLineDisplay
                                @ '' of '' @ itoa_nat totalFileLines
                                @ (if tn_TruncatedBy t = ''lines'' then ''. '' else '' ('' @ FormatSize DefaultMaxBytes @ '' limit). '')
                                @ more_lines nextOffset)
                              (Some (marshalTruncationDetails t))))
                   else if rp_Limit p \<noteq> None \<and> startLine + userLimitedLines < totalFileLines
                   then Some (ok_result
                          (tn_Content t @ [newline, newline] @ ''['' @ itoa_nat (totalFileLines - (startLine + userLimitedLines))
                            @ '' more lines in file. '' @ more_lines (startLine + userLimitedLines + 1)) None)
                   else Some (ok_result (tn_Content t) None)))"

section \<open>Images and the tool\<close>

record ReadImageProcessorResult =
  ip_OK :: bool
  ip_Data :: string
  ip_MimeType :: string
  ip_Hints :: "string list"
  ip_Message :: string

type_synonym 'w ReadImageProcessor = "'w go_context \<Rightarrow> string \<Rightarrow> string \<Rightarrow> bool \<Rightarrow> ('w, ReadImageProcessorResult) act"

record 'w ReadToolOptions =
  ro_Env :: "'w ExecutionEnv"
  ro_AutoResizeImages :: "bool option"
  ro_ImageProcessor :: "'w ReadImageProcessor option"

definition image_result :: "string \<Rightarrow> string \<Rightarrow> string \<Rightarrow> ToolResult" where
  "image_result content data mimeType =
     (ok_result content None)\<lparr>tr_Images := [\<lparr>img_Data = data, img_MimeType = mimeType\<rparr>]\<rparr>"

definition readImageToolResult :: "'w go_context \<Rightarrow> string \<Rightarrow> string \<Rightarrow> 'w ReadImageProcessor option \<Rightarrow> bool \<Rightarrow> 'w \<Rightarrow> ToolResult \<times> 'w" where
  "readImageToolResult ctx data mimeType processor autoResizeImages w =
     (case processor of
        Some f \<Rightarrow>
          (case f ctx data mimeType autoResizeImages w of
             (Inr e, w1) \<Rightarrow> (error_result (err_msg e), w1)
           | (Inl processed, w1) \<Rightarrow>
               if \<not> ip_OK processed
               then (ok_result (''Read image file ['' @ mimeType @ '']'' @ newline # ip_Message processed) None, w1)
               else (let hints = (if ip_Hints processed \<noteq> [] then newline # strings_join (ip_Hints processed) [newline] else [])
                     in (image_result (''Read image file ['' @ ip_MimeType processed @ '']'' @ hints) (ip_Data processed) (ip_MimeType processed), w1)))
      | None \<Rightarrow>
          if mimeType = ''image/bmp''
          then (ok_result (''Read image file [image/bmp]'' @ newline # ''[Image omitted: configure an imageProcessor to convert BMP images.]'') None, w)
          else (image_result (''Read image file ['' @ mimeType @ '']'') data mimeType, w))"

definition read_Execute :: "(string \<Rightarrow> string) \<Rightarrow> 'w ReadToolOptions \<Rightarrow> 'w go_context \<Rightarrow> readParams \<Rightarrow> 'w \<Rightarrow> tool_return option \<times> 'w" where
  "read_Execute nfd opts ctx p w =
     (let env = ro_Env opts; autoResizeImages = (case ro_AutoResizeImages opts of None \<Rightarrow> True | Some b \<Rightarrow> b)
      in case ResolveReadToolPath nfd env ctx (rp_Path p) w of
           (Inr e, w1) \<Rightarrow> (Some (error_result (err_msg e), None), w1)
         | (Inl resolvedPath, w1) \<Rightarrow>
             (case ee_ReadFile env ctx resolvedPath w1 of
                (Inr e, w2) \<Rightarrow> (Some (error_result (err_msg e), None), w2)
              | (Inl data, w2) \<Rightarrow>
                  (let mimeType = DetectSupportedImageMimeType data
                   in if mimeType \<noteq> []
                      then (let (r, w3) = readImageToolResult ctx data mimeType (ro_ImageProcessor opts) autoResizeImages w2 in (Some (r, None), w3))
                      else (map_option (\<lambda>r. (r, None)) (readTextToolResult p data), w2))))"

section \<open>Paging through a file\<close>

lemma split_lines_of_joined:
  assumes "ls \<noteq> []" "\<forall>l \<in> set ls. newline \<notin> set l"
  shows "splitLinesForCounting (joined ls) = (if last ls = [] then butlast ls else ls)"
proof -
  have s: "split_on newline (joined ls) = ls" using split_on_join [OF assms(1)] assms(2) by simp
  show ?thesis
  proof (cases "joined ls = []")
    case True
    then have "ls = [[]]" using s by simp
    then show ?thesis by (simp add: splitLinesForCounting_def)
  next
    case False
    have "has_suffix (joined ls) [newline] \<longleftrightarrow> last ls = []"
    proof (cases ls rule: rev_cases)
      case (snoc us l)
      show ?thesis
      proof (cases "us = []")
        case True
        then have "joined ls = l" using snoc by simp
        then have "l \<noteq> []" "newline \<notin> set l" using False snoc assms(2) by auto
        then have "last l \<noteq> newline" by (metis last_in_set)
        then show ?thesis using False snoc \<open>joined ls = l\<close> by (simp add: has_suffix_newline)
      next
        case us: False
        then have j: "joined ls = joined us @ newline # l" using snoc by (simp add: strings_join_append)
        have "newline \<notin> set l" using snoc assms(2) by auto
        then have "l \<noteq> [] \<Longrightarrow> last l \<noteq> newline" by (metis last_in_set)
        moreover have "last ls = l" using snoc by simp
        ultimately show ?thesis by (cases "l = []") (simp_all add: has_suffix_newline j)
      qed
    qed (use assms(1) in simp)
    then show ?thesis using False s by (simp add: splitLinesForCounting_def Let_def)
  qed
qed

lemma exceeds_truncated: "TruncateHead c opts = Some t \<Longrightarrow> tn_FirstLineExceedsLimit t \<Longrightarrow> tn_Truncated t"
  by (auto simp: TruncateHead_def noTruncationResult_def Let_def split: prod.splits if_splits list.splits)

lemma truncate_window:
  assumes "ls \<noteq> []" "\<forall>l \<in> set ls. newline \<notin> set l"
  obtains t where "TruncateHead (joined ls) no_options = Some t"
    "if tn_FirstLineExceedsLimit t then DefaultMaxBytes < int (length (hd ls))
     else if tn_Truncated t
     then 0 < tn_OutputLines t \<and> tn_OutputLines t < length ls \<and> tn_Content t = joined (take (tn_OutputLines t) ls)
     else tn_Content t = joined ls"
proof -
  let ?SL = "splitLinesForCounting (joined ls)"
  have lim: "resolveLimits no_options = (DefaultMaxLines, DefaultMaxBytes)" by (simp add: resolveLimits_def no_options_def)
  obtain t where t: "TruncateHead (joined ls) no_options = Some t" and s:
    "tn_Truncated t = (\<not> (int (length ?SL) \<le> DefaultMaxLines \<and> int (length (joined ls)) \<le> DefaultMaxBytes)) \<and>
     (if tn_Truncated t
      then tn_Content t = joined (take (tn_OutputLines t) ?SL) \<and>
         most_that_fit ?SL DefaultMaxLines DefaultMaxBytes (tn_OutputLines t) \<and>
         tn_FirstLineExceedsLimit t = (int (length (hd ?SL)) > DefaultMaxBytes)
      else tn_Content t = joined ls \<and> tn_OutputLines t = length ?SL)"
    using truncate_head_spec [of no_options "joined ls"] by (auto simp: no_options_def Let_def lim [unfolded no_options_def])
  have t: "TruncateHead (joined ls) no_options = Some t"
    "tn_Truncated t = (\<not> (int (length ?SL) \<le> DefaultMaxLines \<and> int (length (joined ls)) \<le> DefaultMaxBytes))"
    "tn_Truncated t \<Longrightarrow> tn_Content t = joined (take (tn_OutputLines t) ?SL) \<and>
       most_that_fit ?SL DefaultMaxLines DefaultMaxBytes (tn_OutputLines t) \<and>
       tn_FirstLineExceedsLimit t = (int (length (hd ?SL)) > DefaultMaxBytes)"
    "\<not> tn_Truncated t \<Longrightarrow> tn_Content t = joined ls"
    using t s by (simp_all split: if_splits)
  note SL = split_lines_of_joined [OF assms]
  have "if tn_FirstLineExceedsLimit t then DefaultMaxBytes < int (length (hd ls))
     else if tn_Truncated t
     then 0 < tn_OutputLines t \<and> tn_OutputLines t < length ls \<and> tn_Content t = joined (take (tn_OutputLines t) ls)
     else tn_Content t = joined ls"
  proof (cases "tn_Truncated t")
    case False
    then show ?thesis using t(4) exceeds_truncated [OF t(1)] by auto
  next
    case True
    let ?m = "tn_OutputLines t"
    note T = t(3) [OF True]
    have ne: "?SL \<noteq> []"
    proof
      assume "?SL = []"
      moreover from this have "joined ls = []" using split_lines_joined [of "joined ls"] SL assms(1)
        by (cases ls rule: rev_cases) (auto split: if_splits)
      ultimately show False using t(2) True by (simp add: DefaultMaxLines_def DefaultMaxBytes_def)
    qed
    then have hd: "hd ?SL = hd ls" using SL by (cases ls) (auto split: if_splits)
    have pre: "take k ?SL = take k ls" if "k \<le> length ?SL" for k
      using that SL by (auto simp: butlast_conv_take min_def split: if_splits)
    have m: "?m \<le> length ?SL" using T by (simp add: most_that_fit_def fits_def)
    have len: "length ?SL \<le> length ls" using SL by (simp split: if_splits)
    show ?thesis
    proof (cases "tn_FirstLineExceedsLimit t")
      case True
      then show ?thesis using T hd by simp
    next
      case small: False
      have "0 < ?m"
      proof (rule ccontr)
        assume "\<not> 0 < ?m"
        then have "\<not> fits ?SL DefaultMaxLines DefaultMaxBytes 1" using T by (simp add: most_that_fit_def)
        then show False using ne small T by (cases ?SL) (auto simp: fits_def DefaultMaxLines_def)
      qed
      moreover have "?m \<noteq> length ls"
      proof
        assume e: "?m = length ls"
        then have l: "length ?SL = length ls" using m len by linarith
        have s: "?SL = ls" using pre [of "length ls"] l by simp
        have "fits ls DefaultMaxLines DefaultMaxBytes (length ls)" using T unfolding s e most_that_fit_def by blast
        then show False using t(2) True unfolding s by (simp add: fits_def)
      qed
      ultimately show ?thesis using small True T pre [OF m] m len by simp
    qed
  qed
  then show thesis using that t(1) by blast
qed

lemma wrap64_over: "2 ^ 63 \<le> x \<Longrightarrow> x < 2 ^ 64 \<Longrightarrow> wrap64 x = x - 2 ^ 64"
proof -
  assume x: "2 ^ 63 \<le> x" "x < 2 ^ 64"
  have "(x + 2 ^ 63) mod 2 ^ 64 = (x + 2 ^ 63 - 2 ^ 64) mod 2 ^ 64" by (rule minus_mod_self2 [symmetric])
  also have "\<dots> = x + 2 ^ 63 - 2 ^ 64" by (rule mod_pos_pos_trivial) (use x in simp_all)
  finally show ?thesis by (simp add: wrap64_def)
qed

text \<open>A result that shows \<open>k\<close> whole lines from line \<open>s\<close> on and says where to go on.\<close>

definition pages :: "string list \<Rightarrow> nat \<Rightarrow> nat \<Rightarrow> string \<Rightarrow> bool" where
  "pages lines s k t \<longleftrightarrow>
     s + k \<le> length lines \<and>
     (\<exists>notice. t = joined (take k (drop s lines)) @ notice \<and>
        (if s + k = length lines then notice = [] else \<exists>pre. notice = pre @ more_lines (s + k + 1)))"

lemma pages_end: "s + k = length lines \<Longrightarrow> pages lines s k (joined (take k (drop s lines)))"
  by (simp add: pages_def)

lemma pages_more: "s + k < length lines \<Longrightarrow> pages lines s k (joined (take k (drop s lines)) @ pre @ more_lines (s + k + 1))"
  by (auto simp: pages_def)

lemma selected_bounds:
  assumes start: "read_start p = int s" and inside: "s < length lines"
  shows "s \<le> selected_end p (length lines)" "selected_end p (length lines) \<le> length lines"
    "rp_Limit p = None \<Longrightarrow> selected_end p (length lines) = length lines"
  using inside by (auto simp: selected_end_def read_end_def start Let_def split: option.splits)

lemma selected_limit:
  assumes start: "read_start p = int s" and inside: "s < length lines" and "rp_Limit p = Some limit" "0 \<le> limit" "limit < 2 ^ 63"
  shows "int (selected_end p (length lines) - s) \<le> limit"
proof (cases "int s + limit < 2 ^ 63")
  case True
  then show ?thesis using assms inside by (simp add: selected_end_def read_end_def start wrap64_id Let_def nat_diff_distrib)
next
  case False
  moreover have "int s < 2 ^ 63" using start wrap64_range [of "rp_Offset p - 1"] by (auto simp: read_start_def Let_def split: if_splits)
  ultimately have "wrap64 (int s + limit) \<le> int s" using assms wrap64_over by simp
  then show ?thesis using assms by (simp add: selected_end_def read_end_def start Let_def)
qed

lemma text_result:
  fixes p :: readParams and lines :: "string list"
  defines "n \<equiv> selected_end p (length lines)"
  assumes lines: "split_on newline data = lines" and start: "read_start p = int s" and inside: "s < length lines"
    and t: "TruncateHead (joined (take (n - s) (drop s lines))) no_options = Some t"
  shows "tn_FirstLineExceedsLimit t \<Longrightarrow>
      \<exists>r. readTextToolResult p data = Some r \<and> \<not> tr_IsError r \<and> tr_Content r = oversized_line (s + 1) (lines ! s) (rp_Path p)"
    and "\<not> tn_FirstLineExceedsLimit t \<Longrightarrow> tn_Truncated t \<Longrightarrow>
      \<exists>r pre. readTextToolResult p data = Some r \<and> \<not> tr_IsError r \<and>
        tr_Content r = tn_Content t @ pre @ more_lines (s + tn_OutputLines t + 1)"
    and "\<not> tn_FirstLineExceedsLimit t \<Longrightarrow> \<not> tn_Truncated t \<Longrightarrow> n < length lines \<Longrightarrow>
      \<exists>r pre. readTextToolResult p data = Some r \<and> \<not> tr_IsError r \<and> tr_Content r = tn_Content t @ pre @ more_lines (n + 1)"
    and "\<not> tn_FirstLineExceedsLimit t \<Longrightarrow> \<not> tn_Truncated t \<Longrightarrow> n = length lines \<Longrightarrow>
      \<exists>r. readTextToolResult p data = Some r \<and> \<not> tr_IsError r \<and> tr_Content r = tn_Content t"
proof -
  have i: "\<not> int (length lines) \<le> int s" using inside by simp
  have b: "s \<le> n" "n \<le> length lines" "n \<noteq> length lines \<Longrightarrow> rp_Limit p \<noteq> None" using selected_bounds [OF start inside] by (auto simp: n_def)
  have u: "rp_Limit p \<noteq> None \<Longrightarrow> s + (case rp_Limit p of Some limit \<Rightarrow> n - s | None \<Rightarrow> 0) = n" using b by (cases "rp_Limit p") auto
  note def = readTextToolResult_def [of p data, unfolded Let_def lines start nat_int if_not_P [OF i] n_def [symmetric] t option.case(2)]
  show "tn_FirstLineExceedsLimit t \<Longrightarrow>
      \<exists>r. readTextToolResult p data = Some r \<and> \<not> tr_IsError r \<and> tr_Content r = oversized_line (s + 1) (lines ! s) (rp_Path p)"
    by (simp add: def)
  show "\<exists>r pre. readTextToolResult p data = Some r \<and> \<not> tr_IsError r \<and>
        tr_Content r = tn_Content t @ pre @ more_lines (s + tn_OutputLines t + 1)"
    if "\<not> tn_FirstLineExceedsLimit t" "tn_Truncated t"
    unfolding def using that by simp
  show "\<exists>r pre. readTextToolResult p data = Some r \<and> \<not> tr_IsError r \<and> tr_Content r = tn_Content t @ pre @ more_lines (n + 1)"
    if "\<not> tn_FirstLineExceedsLimit t" "\<not> tn_Truncated t" "n < length lines"
    using that b u unfolding def by simp
  show "\<exists>r. readTextToolResult p data = Some r \<and> \<not> tr_IsError r \<and> tr_Content r = tn_Content t"
    if "\<not> tn_FirstLineExceedsLimit t" "\<not> tn_Truncated t" "n = length lines"
    using that b u unfolding def by auto
qed


text \<open>
  The sum of offset and limit wraps: with the largest limit any read from the second line on selects nothing and tells the
  model to go on where it already is.
\<close>

lemma largest_limit_selects_nothing:
  assumes "read_start p = int s" "0 < s" "s < n" "int s < 2 ^ 63" "rp_Limit p = Some (2 ^ 63 - 1)"
  shows "selected_end p n = s"
  using assms wrap64_over [of "int s + (2 ^ 63 - 1)"] by (simp add: selected_end_def read_end_def Let_def)

definition demo_read :: readParams where
  "demo_read = \<lparr>rp_Path = ''a.txt'', rp_Offset = 2, rp_Limit = Some 1\<rparr>"

definition demo_lines :: "string list" where
  "demo_lines = [''one'', ''two'', ''three'']"

lemma demo_joined: "split_on newline (joined demo_lines) = demo_lines"
  by (rule split_on_join) (simp_all add: demo_lines_def)


end
