(* ===== verification/Write_Tool.thy ===== *)
theory Write_Tool
  imports Tool_Path Mutation_Queue
begin

text \<open>The write tool (tools/write.go). The outcome \<open>None\<close> is a panic of the function run in the queue; this tool has none.\<close>

record writeParams =
  wp_Path :: string
  wp_Content :: string

definition operationAbortedMessage :: string where
  "operationAbortedMessage = ''Operation aborted''"

definition aborted :: "tool_return option" where
  "aborted = Some (error_result operationAbortedMessage, None)"

text \<open>What runs while the lock is held.\<close>

definition write_locked :: "'w ExecutionEnv \<Rightarrow> 'w go_context \<Rightarrow> writeParams \<Rightarrow> string \<Rightarrow> 'w \<Rightarrow> tool_return option \<times> 'w" where
  "write_locked env ctx p absolutePath w =
     (if ctx w \<noteq> None then (aborted, w)
      else case ee_WriteFile env ctx absolutePath (wp_Content p) w of
             (Inr e, w1) \<Rightarrow> (Some (error_result (err_msg e), None), w1)
           | (Inl _, w1) \<Rightarrow>
               if ctx w1 \<noteq> None then (aborted, w1)
               else (Some (ok_result (''Successfully wrote '' @ itoa_nat (length (wp_Content p)) @ '' bytes to '' @ wp_Path p) None,
                           None), w1))"

text \<open>How the file tools run in the queue: an error of the queue becomes an error result.\<close>

definition queued :: "'w ExecutionEnv \<Rightarrow> 'w go_context \<Rightarrow> string \<Rightarrow> (string \<Rightarrow> 'w \<Rightarrow> tool_return option \<times> 'w) \<Rightarrow>
    'w \<Rightarrow> tool_return option \<times> 'w" where
  "queued env ctx path run w =
     (case ResolveToolPath env ctx path w of
        (Inr e, w1) \<Rightarrow> (Some (error_result (err_msg e), None), w1)
      | (Inl absolutePath, w1) \<Rightarrow>
          (case withFileMutationQueue env ctx absolutePath (run absolutePath) w1 of
             (Some (r, Some e), w2) \<Rightarrow> (Some (error_result (err_msg e), None), w2)
           | (x, w2) \<Rightarrow> (x, w2)))"

definition write_Execute :: "'w ExecutionEnv \<Rightarrow> 'w go_context \<Rightarrow> writeParams \<Rightarrow> 'w \<Rightarrow> tool_return option \<times> 'w" where
  "write_Execute env ctx p = queued env ctx (wp_Path p) (write_locked env ctx p)"

section \<open>What a write does\<close>

text \<open>
  The queue adds nothing: a result that is not an error comes from the function run, after the path and the key were resolved,
  and resolving changes no file. A failure before it changes none.
\<close>

context file_env
begin

lemma resolve_keeps: "ResolveToolPath env ctx path w = (x, w') \<Longrightarrow> content w' = content w"
  by (auto simp: ResolveToolPath_def dest: keeps(3))

lemma key_keeps: "mutationQueueKey env ctx path w = (x, w') \<Longrightarrow> content w' = content w"
  by (auto simp: mutationQueueKey_def bind_act_def split: prod.splits sum.splits if_splits dest!: keeps(3,4))

lemma queued_cases:
  assumes "queued env ctx path run w = (out, w')"
  obtains (failed) e :: err where "out = Some (error_result (err_msg e), None)" "content w' = content w"
  | (ran) p w1 w2 x where "ResolveToolPath env ctx path w = (Inl p, w1)" "content w2 = content w" "run p w2 = (x, w')"
      "out = (case x of Some (r, Some e) \<Rightarrow> Some (error_result (err_msg e), None) | _ \<Rightarrow> x)"
proof -
  obtain y w1 where r: "ResolveToolPath env ctx path w = (y, w1)" by force
  show thesis
  proof (cases y)
    case (Inr e)
    then show thesis using assms failed [of e] resolve_keeps [OF r] r by (simp add: queued_def)
  next
    case (Inl p)
    obtain k w2 where k: "mutationQueueKey env ctx p w1 = (k, w2)" by force
    note c = key_keeps [OF k] resolve_keeps [OF r]
    show thesis
    proof (cases k)
      case (Inr e)
      then show thesis using assms failed [of e] c r k Inl by (simp add: queued_def withFileMutationQueue_def)
    next
      case (Inl key)
      obtain x w3 where x: "run p w2 = (x, w3)" by force
      show thesis
        by (rule ran [of p w1 w2 x])
          (use assms c r k x Inl \<open>y = Inl p\<close> in \<open>auto simp: queued_def withFileMutationQueue_def split: option.splits\<close>)
    qed
  qed
qed

end

text \<open>
  The write tool never panics and never returns a bare error. A success means that the file it resolved the path to now
  has exactly the content given, and the message counts its bytes; a failure before the write, a cancellation that was
  noticed before it included, leaves every file as it was.
\<close>

theorem write_outcome:
  assumes "file_env env ctx content" "write_Execute env ctx p w = (out, w')"
  shows "\<exists>r. out = Some (r, None) \<and>
    (if tr_IsError r
     then content w' = content w \<or>
          (\<exists>q w1 w2 x. ResolveToolPath env ctx (wp_Path p) w = (Inl q, w1) \<and> content w2 = content w \<and> ctx w2 = None \<and>
             ee_WriteFile env ctx q (wp_Content p) w2 = (x, w'))
     else ctx w' = None \<and>
          tr_Content r = ''Successfully wrote '' @ itoa_nat (length (wp_Content p)) @ '' bytes to '' @ wp_Path p \<and>
          (\<exists>q w1. ResolveToolPath env ctx (wp_Path p) w = (Inl q, w1) \<and> content w' q = Some (wp_Content p)))"
proof (cases rule: file_env.queued_cases [OF assms(1) assms(2) [unfolded write_Execute_def], case_names failed ran])
  case (failed e)
  then show ?thesis by simp
next
  case (ran q w1 w2 x)
  show ?thesis
  proof (cases "ctx w2")
    case (Some e)
    then show ?thesis using ran by (auto simp: write_locked_def aborted_def)
  next
    case None
    obtain y w3 where y: "ee_WriteFile env ctx q (wp_Content p) w2 = (y, w3)" by force
    then have w3: "w3 = w'" using ran(3) None by (auto simp: write_locked_def split: sum.splits if_splits)
    show ?thesis
    proof (cases y)
      case (Inr e)
      then have "out = Some (error_result (err_msg e), None)" using ran None y w3 by (auto simp: write_locked_def)
      moreover have "ee_WriteFile env ctx q (wp_Content p) w2 = (y, w')" using y w3 by simp
      ultimately show ?thesis using ran(1,2) None by (intro exI [of _ "error_result (err_msg e)"]) (simp, blast)
    next
      case (Inl u)
      then have c: "content w' q = Some (wp_Content p)" using file_env.write_content [OF assms(1)] y w3 by blast
      have e: "ee_WriteFile env ctx q (wp_Content p) w2 = (y, w')" using y w3 by simp
      show ?thesis
      proof (cases "ctx w'")
        case None
        then have "out = Some (ok_result (''Successfully wrote '' @ itoa_nat (length (wp_Content p)) @ '' bytes to '' @ wp_Path p) None, None)"
          using ran(3,4) \<open>ctx w2 = None\<close> e Inl by (auto simp: write_locked_def)
        then show ?thesis using ran(1) None c by simp
      next
        case (Some a)
        then have "out = Some (error_result operationAbortedMessage, None)"
          using ran(3,4) None e Inl by (auto simp: write_locked_def aborted_def)
        then show ?thesis using ran(1,2) None e by (intro exI [of _ "error_result operationAbortedMessage"]) (simp, blast)
      qed
    qed
  qed
qed

text \<open>A write into a directory that is there.\<close>

definition demo_write :: writeParams where
  "demo_write = \<lparr>wp_Path = ''b.txt'', wp_Content = ''hello''\<rparr>"

lemma demo_paths:
  "NormalizeToolPath ''b.txt'' = ''b.txt''" "NormalizeToolPath ''a.txt'' = ''a.txt''"
  "absolute ''/w'' ''b.txt'' = ''/w/b.txt''" "absolute ''/w'' ''/w/b.txt'' = ''/w/b.txt''"
  "absolute ''/w'' ''a.txt'' = ''/w/a.txt''" "absolute ''/w'' ''/w/a.txt'' = ''/w/a.txt''" "filepath_Dir ''/w/b.txt'' = ''/w''"
  "filepath_Dir ''/w/a.txt'' = ''/w''"
  by (simp_all add: NormalizeToolPath_def replace_runes_def runes_Cons_ascii unicodeSpaces_def trim_prefix_def has_prefix_def
      absolute_def is_abs_def filepath_Clean_def filepath_Join_def unclean_def clean_elems_def clean_step_def filepath_Dir_def Let_def)

lemmas demo_steps = demo_paths queued_def ResolveToolPath_def withFileMutationQueue_def mutationQueueKey_def bind_act_def env_methods
  wrap_act_def check_ctx_def disk_ctx_def disk_os_def disk_write_def disk_read_def disk_stat_def disk_mkdir_def disk_put_def
  disk_file_def demo_disk_def make_parents_def

lemma itoa_5: "itoa_nat (Suc (Suc (Suc (Suc (Suc 0))))) = ''5''"
  by code_simp

lemma write_outcome_witness:
  "\<exists>w'. write_Execute (OSEnv disk_os ''/w'') disk_ctx demo_write demo_disk =
     (Some (ok_result ''Successfully wrote 5 bytes to b.txt'' None, None), w') \<and> disk_file w' ''/w/b.txt'' = Some ''hello''"
proof -
  obtain out w' where e: "write_Execute (OSEnv disk_os ''/w'') disk_ctx demo_write demo_disk = (out, w')" by force
  have out: "out = Some (ok_result ''Successfully wrote 5 bytes to b.txt'' None, None)"
    using e by (simp add: write_Execute_def write_locked_def demo_write_def demo_steps itoa_5)
  have "ResolveToolPath (OSEnv disk_os ''/w'') disk_ctx ''b.txt'' demo_disk = (Inl ''/w/b.txt'', demo_disk)"
    by (simp add: demo_steps)
  then show ?thesis
    using write_outcome [OF disk.osenv.file_env_axioms e] e out by (auto simp: demo_write_def demo_paths)
qed

end
