(* ===== verification/Edit_Tool.thy ===== *)
theory Edit_Tool
  imports Write_Tool Diff_Render Go_Decode
begin

text \<open>
  The edit tool (tools/edit.go): the preparation of loose arguments, and the run of an edit, from reading the file to the
  diffs of the result. The NFKC normalization of golang.org/x/text is the parameter \<open>nfkc\<close>. The outcome \<open>None\<close> is a panic.
  A context is looked at where the code looks at it; work that touches no file does not change the world, so two looks
  with only such work between them agree.
\<close>

section \<open>The run of an edit\<close>

record editParams =
  ep_Path :: string
  ep_Edits :: "Edit list"

definition fileErrorCode :: "err \<Rightarrow> string" where
  "fileErrorCode e =
     (if errors_is e FsNotExist then ''not_found''
      else if errors_is e FsPermission then ''permission_denied''
      else if errors_is e SysENOTDIR then ''not_directory''
      else if errors_is e SysEISDIR then ''is_directory''
      else ''unknown'')"

definition editAccessErrorMessage :: "string \<Rightarrow> err \<Rightarrow> string" where
  "editAccessErrorMessage path e = ''Could not edit file: '' @ path @ ''. Error code: '' @ fileErrorCode e @ ''.''"

definition editToolDetails :: "string \<Rightarrow> string \<Rightarrow> nat \<Rightarrow> json" where
  "editToolDetails diff patch firstChangedLine =
     JObj [(''diff'', JStr diff), (''patch'', JStr patch), (''firstChangedLine'', json_nat firstChangedLine)]"

definition edit_error :: "string \<Rightarrow> tool_return option" where
  "edit_error msg = Some (error_result msg, None)"

definition edit_result :: "editParams \<Rightarrow> string \<Rightarrow> string \<Rightarrow> tool_return option" where
  "edit_result p base new =
     (case GenerateDiffString base new of
        None \<Rightarrow> None
      | Some (diff, firstChangedLine) \<Rightarrow>
          (case GenerateUnifiedPatch (ep_Path p) base new 0 of
             None \<Rightarrow> None
           | Some patch \<Rightarrow>
               Some (ok_result (''Successfully replaced '' @ itoa_nat (length (ep_Edits p)) @ '' block(s) in '' @ ep_Path p @ ''.'')
                       (Some (json_print (editToolDetails diff patch firstChangedLine))), None)))"

text \<open>The new bytes of the file, given its old ones: the base and new text of the diff and the final content.\<close>

definition edited :: "(string \<Rightarrow> string) \<Rightarrow> editParams \<Rightarrow> string \<Rightarrow> ((string \<times> string \<times> string) + err) option" where
  "edited nfkc p data =
     (let (bom, content) = StripBOM data;
          originalEnding = DetectLineEnding content;
          normalizedContent = NormalizeToLF content
      in case ApplyEditsToNormalizedContent nfkc normalizedContent (ep_Edits p) (ep_Path p) of
           None \<Rightarrow> None
         | Some (Inr e) \<Rightarrow> Some (Inr e)
         | Some (Inl (base, new)) \<Rightarrow> Some (Inl (base, new, bom @ RestoreLineEndings new originalEnding)))"

definition write_edited :: "'w ExecutionEnv \<Rightarrow> 'w go_context \<Rightarrow> editParams \<Rightarrow> string \<Rightarrow> string \<times> string \<times> string \<Rightarrow>
    'w \<Rightarrow> tool_return option \<times> 'w" where
  "write_edited env ctx p absolutePath result w =
     (case result of (base, new, finalContent) \<Rightarrow>
       (case ee_WriteFile env ctx absolutePath finalContent w of
          (Inr e, w1) \<Rightarrow> (edit_error (editAccessErrorMessage (ep_Path p) e), w1)
        | (Inl _, w1) \<Rightarrow> if ctx w1 \<noteq> None then (aborted, w1) else (edit_result p base new, w1)))"

definition runEdit :: "(string \<Rightarrow> string) \<Rightarrow> 'w ExecutionEnv \<Rightarrow> 'w go_context \<Rightarrow> editParams \<Rightarrow> string \<Rightarrow> 'w \<Rightarrow> tool_return option \<times> 'w" where
  "runEdit nfkc env ctx p absolutePath w =
     (if ctx w \<noteq> None then (aborted, w)
      else case ee_FileInfo env ctx absolutePath w of
        (Inr e, w1) \<Rightarrow> (edit_error (editAccessErrorMessage (ep_Path p) e), w1)
      | (Inl info, w1) \<Rightarrow>
          if fi_Kind info \<noteq> FileKindFile \<and> fi_Kind info \<noteq> FileKindSymlink
          then (edit_error (''Could not edit file: '' @ ep_Path p @ ''. Path is not a file.''), w1)
          else case ee_ReadFile env ctx absolutePath w1 of
            (Inr e, w2) \<Rightarrow> (edit_error (editAccessErrorMessage (ep_Path p) e), w2)
          | (Inl data, w2) \<Rightarrow>
              if ctx w2 \<noteq> None then (aborted, w2)
              else case edited nfkc p data of
                None \<Rightarrow> (None, w2)
              | Some (Inr e) \<Rightarrow> (edit_error (err_msg e), w2)
              | Some (Inl result) \<Rightarrow>
                  if ctx w2 \<noteq> None then (aborted, w2) else write_edited env ctx p absolutePath result w2)"

definition edit_Execute :: "(string \<Rightarrow> string) \<Rightarrow> 'w ExecutionEnv \<Rightarrow> 'w go_context \<Rightarrow> editParams \<Rightarrow> 'w \<Rightarrow> tool_return option \<times> 'w" where
  "edit_Execute nfkc env ctx p w =
     (if ep_Edits p = [] then (edit_error edit_input_invalid, w)
      else queued env ctx (ep_Path p) (runEdit nfkc env ctx p) w)"

section \<open>Preparing the arguments\<close>

definition decodeJSONString :: "string option \<Rightarrow> string option" where
  "decodeJSONString raw =
     (case raw of
        None \<Rightarrow> None
      | Some r \<Rightarrow> if r = [] then None else (case json_unmarshal r of Some (JStr s) \<Rightarrow> Some s | _ \<Rightarrow> None))"

text \<open>
  \<^verbatim>\<open>json.Unmarshal\<close> into a slice of raw values: \<open>raw_elements\<close> cuts an array into the texts of its elements; \<open>None\<close> is the
  error, \<open>Some None\<close> the nil slice that null gives.
\<close>

fun raw_elements_from :: "nat \<Rightarrow> string \<Rightarrow> string list" where
  "raw_elements_from 0 s = []"
| "raw_elements_from (Suc f) s =
     (case parse_value f s of
        None \<Rightarrow> []
      | Some (v, r) \<Rightarrow>
          take (length (skip_ws s) - length r) (skip_ws s)
          # (case skip_ws r of d # u \<Rightarrow> if d = CHR '','' then raw_elements_from f u else [] | [] \<Rightarrow> []))"

definition raw_elements :: "string \<Rightarrow> string list" where
  "raw_elements s =
     (case skip_ws (tl (skip_ws s)) of
        d # u \<Rightarrow> if d = CHR '']'' then [] else raw_elements_from (2 * length s) (tl (skip_ws s))
      | [] \<Rightarrow> [])"

definition unmarshal_array :: "string \<Rightarrow> string list option option" where
  "unmarshal_array s =
     (case json_unmarshal s of
        Some (JArr _) \<Rightarrow> Some (Some (raw_elements s))
      | Some JNull \<Rightarrow> Some None
      | _ \<Rightarrow> None)"

fun compact_all :: "string list \<Rightarrow> string list option" where
  "compact_all [] = Some []"
| "compact_all (r # rs) =
     (case json_compact r of None \<Rightarrow> None | Some c \<Rightarrow> map_option (Cons c) (compact_all rs))"

definition marshal_array :: "string list option \<Rightarrow> string option" where
  "marshal_array rs =
     (case rs of
        None \<Rightarrow> Some ''null''
      | Some rs \<Rightarrow> map_option (\<lambda>cs. CHR ''['' # strings_join cs '','' @ '']'') (compact_all rs))"

definition marshal_args :: "(string \<times> string) list option \<Rightarrow> string option" where
  "marshal_args args =
     (case args of None \<Rightarrow> Some ''null'' | Some m \<Rightarrow> marshal_map (map (\<lambda>(k, r). (k, json_compact r)) m))"

text \<open>Looking up a key in a nil map gives nothing; the first step decodes edits that came as a string.\<close>

definition arg :: "(string \<times> string) list option \<Rightarrow> string \<Rightarrow> string option" where
  "arg args k = (case args of None \<Rightarrow> None | Some m \<Rightarrow> map_of m k)"

definition decode_edits :: "(string \<times> string) list option \<Rightarrow> (string \<times> string) list option" where
  "decode_edits args =
     (case decodeJSONString (arg args ''edits'') of
        None \<Rightarrow> args
      | Some editsAsString \<Rightarrow>
          (case unmarshal_array editsAsString of
             None \<Rightarrow> args
           | Some parsedArray \<Rightarrow>
               (case marshal_array parsedArray of
                  None \<Rightarrow> args
                | Some reencoded \<Rightarrow> map_option (AList.update ''edits'' reencoded) args)))"

definition legacy_edit :: "string \<Rightarrow> string \<Rightarrow> string" where
  "legacy_edit oldText newText = obj_text [(''oldText'', json_string oldText), (''newText'', json_string newText)]"

definition array_of_edits :: "string option \<Rightarrow> string list" where
  "array_of_edits raw =
     (case raw of
        None \<Rightarrow> []
      | Some r \<Rightarrow> (case unmarshal_array r of Some (Some es) \<Rightarrow> es | _ \<Rightarrow> []))"

text \<open>\<open>None\<close> is an error of a \<^verbatim>\<open>json.Marshal\<close>, which no valid argument text gives.\<close>

definition prepareEditArguments :: "string \<Rightarrow> string option" where
  "prepareEditArguments raw =
     (case unmarshal_map raw of
        None \<Rightarrow> Some raw
      | Some args \<Rightarrow>
          (let args = decode_edits args
           in case (decodeJSONString (arg args ''oldText''), decodeJSONString (arg args ''newText'')) of
                (Some oldText, Some newText) \<Rightarrow>
                  (case marshal_array (Some (array_of_edits (arg args ''edits'') @ [legacy_edit oldText newText])) of
                     None \<Rightarrow> None
                   | Some editsJSON \<Rightarrow>
                       marshal_args (map_option (\<lambda>m. AList.update ''edits'' editsJSON
                         (AList.delete ''newText'' (AList.delete ''oldText'' m))) args))
              | _ \<Rightarrow> marshal_args args))"

text \<open>
  Evaluations: a single edit in the old shape, behind an array that came as a string, is appended to it; and edits given as the
  string null, which is no array and should be left as it is, become null.
\<close>

lemma legacy_edit_appended:
  "prepareEditArguments (obj_text [(''edits'', json_string ''[1]''), (''newText'', json_string ''b''), (''oldText'', json_string ''a'')]) =
     Some (obj_text [(''edits'', ''[1,'' @ legacy_edit ''a'' ''b'' @ '']'')])"
  by code_simp

lemma edits_null_rewritten:
  "prepareEditArguments (obj_text [(''edits'', json_string ''null''), (''path'', json_string ''f'')]) =
     Some (obj_text [(''edits'', ''null''), (''path'', json_string ''f'')])"
  by code_simp

section \<open>What an edit does\<close>

context file_env
begin

lemma runEdit_cases:
  assumes "runEdit nfkc env ctx p q w = (out, w')"
  obtains (kept) msg where "out = edit_error msg" "content w' = content w"
  | (panicked) "out = None"
  | (wrote) old w2 base new final x where "content w q = Some old" "content w2 = content w"
      "edited nfkc p old = Some (Inl (base, new, final))" "ee_WriteFile env ctx q final w2 = (x, w')"
      "out = (case x of Inr e \<Rightarrow> edit_error (editAccessErrorMessage (ep_Path p) e)
                | Inl _ \<Rightarrow> if ctx w' \<noteq> None then aborted else edit_result p base new)"
proof -
  have ab: "aborted = edit_error operationAbortedMessage" by (simp add: aborted_def edit_error_def)
  obtain i w1 where i: "ee_FileInfo env ctx q w = (i, w1)" by force
  obtain d w2 where d: "ee_ReadFile env ctx q w1 = (d, w2)" by force
  have c: "content w1 = content w" "content w2 = content w" using keeps(1) [OF d] keeps(2) [OF i] by simp_all
  note run = assms [unfolded runEdit_def i d ab]
  consider (stop) msg where "out = edit_error msg" "w' = w \<or> w' = w1 \<or> w' = w2" | (panic) "out = None"
    | (go) old result where "d = Inl old" "edited nfkc p old = Some (Inl result)"
        "write_edited env ctx p q result w2 = (out, w')"
    using run by (auto simp: d split: if_splits sum.splits option.splits)
  then show thesis
  proof cases
    case stop
    then show thesis using kept c by auto
  next
    case panic
    then show thesis using panicked by simp
  next
    case go
    obtain base new final where r: "result = (base, new, final)" by (cases result) auto
    obtain x w3 where x: "ee_WriteFile env ctx q final w2 = (x, w3)" by force
    have old: "content w q = Some old" using read_content [of q w1 old w2] d go(1) c(1) by simp
    have "w3 = w'" "out = (case x of Inr e \<Rightarrow> edit_error (editAccessErrorMessage (ep_Path p) e)
        | Inl _ \<Rightarrow> if ctx w' \<noteq> None then aborted else edit_result p base new)"
      using go(3) x by (auto simp: write_edited_def r split: sum.splits if_splits)
    then show thesis using wrote [of old w2 base new final x] old c go(2) r x by simp
  qed
qed

lemma edit_cases:
  assumes "edit_Execute nfkc env ctx p w = (out, w')"
  obtains (kept) msg where "out = edit_error msg" "content w' = content w"
  | (panicked) "out = None"
  | (wrote) q w1 old w2 base new final x where "ResolveToolPath env ctx (ep_Path p) w = (Inl q, w1)" "content w q = Some old"
      "content w2 = content w" "edited nfkc p old = Some (Inl (base, new, final))" "ee_WriteFile env ctx q final w2 = (x, w')"
      "out = (case x of Inr e \<Rightarrow> edit_error (editAccessErrorMessage (ep_Path p) e)
                | Inl _ \<Rightarrow> if ctx w' \<noteq> None then aborted else edit_result p base new)"
proof (cases "ep_Edits p = []")
  case True
  then show thesis using assms kept [of edit_input_invalid] by (simp add: edit_Execute_def)
next
  case False
  then have q: "queued env ctx (ep_Path p) (runEdit nfkc env ctx p) w = (out, w')" using assms by (simp add: edit_Execute_def)
  show thesis
  proof (rule queued_cases [OF q])
    fix e :: err
    assume "out = Some (error_result (err_msg e), None)" "content w' = content w"
    then show thesis using kept [of "err_msg e"] by (simp add: edit_error_def)
  next
    fix q w1 w2 x
    assume res: "ResolveToolPath env ctx (ep_Path p) w = (Inl q, w1)" and c: "content w2 = content w"
      and run: "runEdit nfkc env ctx p q w2 = (x, w')"
      and out: "out = (case x of Some (r, Some e) \<Rightarrow> Some (error_result (err_msg e), None) | _ \<Rightarrow> x)"
    show thesis
    proof (rule runEdit_cases [OF run])
      fix msg
      assume "x = edit_error msg" "content w' = content w2"
      then show thesis using kept [of msg] c out by (simp add: edit_error_def)
    next
      assume "x = None"
      then show thesis using panicked out by simp
    next
      fix old w3 base new final y
      assume a: "content w2 q = Some old" "content w3 = content w2" "edited nfkc p old = Some (Inl (base, new, final))"
        "ee_WriteFile env ctx q final w3 = (y, w')"
        and x: "x = (case y of Inr e \<Rightarrow> edit_error (editAccessErrorMessage (ep_Path p) e)
              | Inl _ \<Rightarrow> if ctx w' \<noteq> None then aborted else edit_result p base new)"
      have "out = x"
        using out x by (auto simp: edit_error_def aborted_def edit_result_def split: sum.splits if_splits option.splits)
      then show thesis using wrote [of q w1 old w3 base new final y] res a c x by simp
    qed
  qed
qed

end

text \<open>
  C19
  An edit writes one file at most, and only with the result of applying all its edits to what that file held. A success means
  that the file now holds exactly that result, its byte order mark and its line endings restored, and the result's data are the
  listing and the patch between the two texts; every failure before the write, an edit that cannot be applied included, leaves
  all files as they were.
\<close>

theorem edit_outcome:
  assumes "file_env env ctx content" "edit_Execute nfkc env ctx p w = (Some (r, err), w')"
  shows "err = None \<and>
    (content w' = content w \<and> tr_IsError r \<or>
     (\<exists>q w1 old base new final. ResolveToolPath env ctx (ep_Path p) w = (Inl q, w1) \<and> content w q = Some old \<and>
        edited nfkc p old = Some (Inl (base, new, final)) \<and>
        (if tr_IsError r then \<exists>w2 x. content w2 = content w \<and> ee_WriteFile env ctx q final w2 = (x, w')
         else content w' q = Some final \<and>
           (\<exists>diff line patch. GenerateDiffString base new = Some (diff, line) \<and>
              GenerateUnifiedPatch (ep_Path p) base new 0 = Some patch \<and>
              tr_Data r = Some (json_print (editToolDetails diff patch line))))))"
proof (cases rule: file_env.edit_cases [OF assms, case_names kept panicked wrote])
  case (kept msg)
  then show ?thesis by (simp add: edit_error_def)
next
  case panicked
  then show ?thesis by simp
next
  case (wrote q w1 old w2 base new final x)
  show ?thesis
  proof (cases "tr_IsError r")
    case True
    moreover have "err = None"
      using wrote(6) by (auto simp: edit_error_def aborted_def edit_result_def split: sum.splits if_splits option.splits)
    ultimately show ?thesis using wrote(1-5) by auto
  next
    case False
    then obtain u where u: "x = Inl u" "ctx w' = None" "edit_result p base new = Some (r, err)"
      using wrote(6) by (auto simp: edit_error_def aborted_def split: sum.splits if_splits)
    have "content w' q = Some final" using file_env.write_content [OF assms(1)] wrote(5) u(1) by blast
    moreover have "err = None \<and> (\<exists>diff line patch. GenerateDiffString base new = Some (diff, line) \<and>
        GenerateUnifiedPatch (ep_Path p) base new 0 = Some patch \<and> tr_Data r = Some (json_print (editToolDetails diff patch line)))"
      using u(3) by (auto simp: edit_result_def split: option.splits)
    ultimately show ?thesis using wrote(1-4) False by auto
  qed
qed

end
