(* ===== verification/File_Tools.thy ===== *)
theory File_Tools
  imports Read_Tool Write_Tool Edit_Tool
begin

text \<open>The file tools one after another, over any environment that keeps the laws of a store of files.\<close>

context file_env
begin

lemma first_existing_keeps: "first_existing env ctx seen vs w = (x, w') \<Longrightarrow> content w' = content w"
proof (induction vs arbitrary: seen w)
  case (Cons v vs)
  show ?case
  proof (cases "v \<in> set seen")
    case True
    then show ?thesis using Cons by simp
  next
    case False
    obtain y w1 where y: "ee_Exists env ctx v w = (y, w1)" by force
    show ?thesis using Cons.prems Cons.IH [of "v # seen" w1] keeps(5) [OF y] False y by (auto split: sum.splits if_splits)
  qed
qed simp

lemma resolve_read_keeps: "ResolveReadToolPath nfd env ctx path w = (x, w') \<Longrightarrow> content w' = content w"
  by (auto simp: ResolveReadToolPath_def bind_act_def split: sum.splits prod.splits dest!: first_existing_keeps resolve_keeps)

lemma read_text:
  assumes "read_Execute nfd opts ctx p w = (Some (r, err), w')" "ro_Env opts = env" "\<not> tr_IsError r"
    "ResolveReadToolPath nfd env ctx (rp_Path p) w = (Inl q, v)"
  shows "\<exists>data. content w q = Some data \<and> (DetectSupportedImageMimeType data = [] \<longrightarrow> readTextToolResult p data = Some r \<and> content w' = content w)"
proof -
  obtain d w2 where d: "ee_ReadFile env ctx q v = (d, w2)" by force
  then obtain data where data: "d = Inl data" using assms by (cases d) (auto simp: read_Execute_def Let_def)
  have "content w q = Some data" "content w2 = content w"
    using read_content [of q v data w2] keeps(1) [OF d] resolve_read_keeps [OF assms(4)] d data by simp_all
  moreover have "DetectSupportedImageMimeType data = [] \<Longrightarrow> readTextToolResult p data = Some r \<and> w' = w2"
    using assms d data by (auto simp: read_Execute_def Let_def)
  ultimately show ?thesis by auto
qed

lemma written:
  assumes "write_Execute env ctx p w = (Some (r, err), w')" "\<not> tr_IsError r" "ResolveToolPath env ctx (wp_Path p) w = (Inl q, v)"
  shows "content w' q = Some (wp_Content p)"
proof (rule queued_cases [OF assms(1) [unfolded write_Execute_def]])
  fix q' w1 w2 x
  assume a: "ResolveToolPath env ctx (wp_Path p) w = (Inl q', w1)" "write_locked env ctx p q' w2 = (x, w')"
    "Some (r, err) = (case x of Some (r, Some e) \<Rightarrow> Some (error_result (err_msg e), None) | _ \<Rightarrow> x)"
  then have q: "q' = q" using assms(3) by simp
  obtain y w3 where y: "ee_WriteFile env ctx q (wp_Content p) w2 = (y, w3)" by force
  then have "y = Inl () \<and> w3 = w'"
    using a assms(2) by (cases y) (auto simp: write_locked_def aborted_def q split: if_splits)
  then show ?thesis using write_content y by blast
qed (use assms(2) in auto)

lemma edited_content:
  assumes "edit_Execute nfkc env ctx p w = (Some (r, err), w')" "\<not> tr_IsError r" "ResolveToolPath env ctx (ep_Path p) w = (Inl q, v)"
    "content w q = Some old"
  shows "\<exists>base new final. edited nfkc p old = Some (Inl (base, new, final)) \<and> content w' q = Some final"
proof (rule edit_cases [OF assms(1)])
  fix q' w1 old' w2 base new final x
  assume a: "ResolveToolPath env ctx (ep_Path p) w = (Inl q', w1)" "content w q' = Some old'"
    "edited nfkc p old' = Some (Inl (base, new, final))" "ee_WriteFile env ctx q' final w2 = (x, w')"
    "Some (r, err) = (case x of Inr e \<Rightarrow> edit_error (editAccessErrorMessage (ep_Path p) e)
       | Inl _ \<Rightarrow> if ctx w' \<noteq> None then aborted else edit_result p base new)"
  have "q' = q" "old' = old" using a(1,2) assms(3,4) by simp_all
  moreover obtain u where "x = Inl u" using a(5) assms(2) by (cases x) (auto simp: edit_error_def)
  ultimately show ?thesis using a(3,4) write_content by blast
qed (use assms(2) in \<open>auto simp: edit_error_def\<close>)

end


section \<open>A run\<close>

definition demo_new_file :: writeParams where
  "demo_new_file = \<lparr>wp_Path = ''b.txt'', wp_Content = ''ab cd''\<rparr>"

definition demo_edit :: editParams where
  "demo_edit = \<lparr>ep_Path = ''b.txt'', ep_Edits = demo_edits\<rparr>"

definition demo_read_all :: readParams where
  "demo_read_all = \<lparr>rp_Path = ''b.txt'', rp_Offset = 0, rp_Limit = None\<rparr>"

definition demo_reader :: "disk ReadToolOptions" where
  "demo_reader = \<lparr>ro_Env = OSEnv disk_os ''/w'', ro_AutoResizeImages = None, ro_ImageProcessor = None\<rparr>"

definition written_disk :: disk where
  "written_disk = snd (write_Execute (OSEnv disk_os ''/w'') disk_ctx demo_new_file demo_disk)"

definition edited_disk :: disk where
  "edited_disk = disk_put ''/w/b.txt'' (FileNode ''x y'') written_disk"

lemma written_disk: "written_disk = disk_put ''/w/b.txt'' (FileNode ''ab cd'') demo_disk"
  by (simp add: written_disk_def write_Execute_def write_locked_def demo_new_file_def demo_steps)

lemma demo_edited: "edited id demo_edit ''ab cd'' = Some (Inl (''ab cd'', ''x y'', ''x y''))"
  by (simp add: edited_def StripBOM_def bom_def has_prefix_def DetectLineEnding_def RestoreLineEndings_def 
      demo_edit_def edit_eval demo_edits_def demo_normal)

lemma demo_not_image: "DetectSupportedImageMimeType ''x y'' = []"
  by code_simp

lemma demo_edit_runs:
  "\<exists>r. edit_Execute id (OSEnv disk_os ''/w'') disk_ctx demo_edit written_disk = (Some (r, None), edited_disk) \<and> \<not> tr_IsError r"
proof -
  have "length (tokenizeLines ''ab cd'') + length (tokenizeLines ''x y'') \<le> 2 ^ 30" by (simp add: tokenizeLines_split)
  from shortest_path_finds [OF this] obtain cs where "computeLineDiff ''ab cd'' ''x y'' = Some cs"
    by (auto simp: computeLineDiff_def Let_def)
  then obtain r where r: "edit_result demo_edit ''ab cd'' ''x y'' = Some (r, None)" "\<not> tr_IsError r"
    by (auto simp: edit_result_def GenerateDiffString_def GenerateUnifiedPatch_def Let_def split: prod.split)
  have "ep_Path demo_edit = ''b.txt''" "ep_Edits demo_edit \<noteq> []" by (simp_all add: demo_edit_def demo_edits_def)
  then have "edit_Execute id (OSEnv disk_os ''/w'') disk_ctx demo_edit written_disk = (Some (r, None), edited_disk)"
    using demo_edited r(1)
    by (simp add: edit_Execute_def runEdit_def write_edited_def written_disk edited_disk_def demo_steps stat_kind_def)
  then show ?thesis using r by simp
qed

lemma demo_window: "readTextToolResult demo_read_all ''x y'' = Some (ok_result ''x y'' None)"
  by (simp add: readTextToolResult_def demo_read_all_def read_start_def selected_end_def TruncateHead_def resolveLimits_def no_options_def
      splitLinesForCounting_def has_suffix_def DefaultMaxLines_def DefaultMaxBytes_def noTruncationResult_def)

lemma demo_resolved:
  "ResolveReadToolPath id (OSEnv disk_os ''/w'') disk_ctx ''b.txt'' edited_disk = (Inl ''/w/b.txt'', edited_disk)"
  by (rule existing_path_kept [of _ _ _ _ _ edited_disk]) (simp_all add: written_disk edited_disk_def Exists_def demo_steps)

lemma demo_read_runs:
  "read_Execute id demo_reader disk_ctx demo_read_all edited_disk = (Some (ok_result ''x y'' None, None), edited_disk)"
proof -
  have "ee_ReadFile (OSEnv disk_os ''/w'') disk_ctx ''/w/b.txt'' edited_disk = (Inl ''x y'', edited_disk)"
    by (simp add: written_disk edited_disk_def demo_steps)
  then show ?thesis
    using demo_resolved demo_not_image demo_window by (simp add: read_Execute_def demo_reader_def demo_read_all_def)
qed


lemma edit_outcome_witness:
  "\<exists>r diff line patch. edit_Execute id (OSEnv disk_os ''/w'') disk_ctx demo_edit written_disk = (Some (r, None), edited_disk) \<and>
     GenerateUnifiedPatch ''b.txt'' ''ab cd'' ''x y'' 0 = Some patch \<and>
     tr_Data r = Some (json_print (editToolDetails diff patch line))"
proof -
  obtain r where e: "edit_Execute id (OSEnv disk_os ''/w'') disk_ctx demo_edit written_disk = (Some (r, None), edited_disk)" "\<not> tr_IsError r"
    using demo_edit_runs by blast
  have p: "ResolveToolPath (OSEnv disk_os ''/w'') disk_ctx ''b.txt'' written_disk = (Inl ''/w/b.txt'', written_disk)"
    by (simp add: written_disk demo_steps)
  have c: "disk_file written_disk (absolute ''/w'' ''/w/b.txt'') = Some ''ab cd''"
    by (simp add: written_disk demo_steps)
  from edit_outcome [OF disk.osenv.file_env_axioms e(1)] e(2) p c demo_edited
  show ?thesis using e(1) by (auto simp: demo_edit_def)
qed

end
