(* ===== verification/Pi_Skills.thy ===== *)
theory Pi_Skills
  imports Llm_Convert Go_Path
begin

text \<open>
  Loading skills from a directory tree (piskills/piskills.go). The tree is what the walk can see of the file system; the matcher
  of the package go-gitignore, a set of patterns and a path to a verdict, is the parameter \<open>matches\<close>. The outcome
  \<open>None\<close> is a panic.
\<close>

section \<open>Names and patterns\<close>

definition skillFileName :: string where
  "skillFileName = ''SKILL.md''"

definition ignoreFileNames :: "string list" where
  "ignoreFileNames = [''.gitignore'', ''.ignore'']"

record Diagnostic =
  dg_Path :: string
  dg_Message :: string

text \<open>\<^verbatim>\<open>filepath.Rel\<close>, element by element; the root directory alone has one empty element.\<close>

fun strip_common :: "string list \<Rightarrow> string list \<Rightarrow> string list \<times> string list" where
  "strip_common (a # as) (b # bs) = (if a = b then strip_common as bs else (a # as, b # bs))"
| "strip_common as bs = (as, bs)"

definition path_elements :: "string \<Rightarrow> string list" where
  "path_elements p = (if p = [] then [] else if p = ''/'' then [[]] else split_on CHR ''/'' p)"

definition filepath_Rel :: "string \<Rightarrow> string \<Rightarrow> string option" where
  "filepath_Rel basepath targpath =
     (let b = filepath_Clean basepath; t = filepath_Clean targpath
      in if t = b then Some ''.''
         else let b = (if b = ''.'' then [] else b)
              in if is_abs b \<noteq> is_abs t then None
                 else case strip_common (path_elements b) (path_elements t) of
                        ([], ts) \<Rightarrow> Some (strings_join ts ''/'')
                      | (b1 # bs, ts) \<Rightarrow> if b1 = ''..'' then None
                                        else Some (strings_join (replicate (Suc (length bs)) ''..'' @ ts) ''/''))"

definition relSlash :: "string \<Rightarrow> string \<Rightarrow> string" where
  "relSlash root path =
     (case filepath_Rel root path of None \<Rightarrow> path | Some rel \<Rightarrow> if rel = ''.'' then [] else rel)"

definition prefixIgnorePattern :: "string \<Rightarrow> string \<Rightarrow> string option" where
  "prefixIgnorePattern line pre =
     (let trimmed = trim_space line
      in if trimmed = [] then None
         else if has_prefix trimmed ''#'' then None
         else
           (let negated = has_prefix trimmed ''!'';
                pattern = (if negated then drop 1 trimmed
                           else if has_prefix trimmed (CHR 0x5C # ''!'') then drop 1 trimmed
                           else trimmed);
                pattern = trim_prefix pattern ''/'';
                pattern = (if pre \<noteq> [] then pre @ pattern else pattern)
            in Some (if negated then CHR ''!'' # pattern else pattern)))"

section \<open>Frontmatter\<close>

definition unquote :: "string \<Rightarrow> string" where
  "unquote s =
     (if 2 \<le> length s \<and> (hd s = CHR 0x22 \<and> last s = CHR 0x22 \<or> hd s = CHR 0x27 \<and> last s = CHR 0x27)
      then butlast (drop 1 s) else s)"

definition parseBoolFrontmatter :: "string \<Rightarrow> bool" where
  "parseBoolFrontmatter raw \<longleftrightarrow> raw = ''true'' \<or> raw = ''True'' \<or> raw = ''TRUE''"

definition parseFrontmatterLine :: "string \<Rightarrow> (string \<times> string) option" where
  "parseFrontmatterLine line =
     (let trimmed = trim_space line
      in if trimmed = [] \<or> has_prefix trimmed ''#'' then None
         else case strings_index trimmed '':'' of
                None \<Rightarrow> None
              | Some idx \<Rightarrow>
                  if idx = 0 then None
                  else Some (trim_space (take idx trimmed), trim_space (drop (idx + 1) trimmed)))"

definition skill_text :: "string \<Rightarrow> string" where
  "skill_text content =
     trim_prefix (replace_all (replace_all content [CHR 0x0D, newline] [newline]) [CHR 0x0D] [newline]) [CHR 0xEF, CHR 0xBB, CHR 0xBF]"

text \<open>The slice of the block needs its start to be no more than its end.\<close>

definition parseFrontmatter :: "string \<Rightarrow> ((string \<Rightarrow> string option) \<times> string) option" where
  "parseFrontmatter content =
     (let n = skill_text content
      in if \<not> has_prefix n ''---'' then Some (Map.empty, trim_space n)
         else case strings_index (drop 3 n) (newline # ''---'') of
                None \<Rightarrow> Some (Map.empty, trim_space n)
              | Some i \<Rightarrow>
                  (let end = i + 3
                   in if end < 4 then None
                      else
                        (let block = drop 4 (take end n);
                             body = trim_space (drop (end + 4) n);
                             kvs = List.map_filter parseFrontmatterLine (split_on newline block)
                         in Some (map_of (rev kvs), body))))"

definition field :: "(string \<Rightarrow> string option) \<Rightarrow> string \<Rightarrow> string" where
  "field fm key = (case fm key of None \<Rightarrow> [] | Some v \<Rightarrow> v)"

section \<open>The walk\<close>

text \<open>A regular file or its read error; a directory with its entries or the error of listing it.\<close>

datatype fs_tree = FileTree "string + err" | DirTree "(string \<times> fs_tree) list + err"

type_synonym listing = "(string \<times> fs_tree) list + err"

definition read_entry :: "listing \<Rightarrow> string \<Rightarrow> string option" where
  "read_entry l name =
     (case l of
        Inr e \<Rightarrow> None
      | Inl entries \<Rightarrow> (case map_of entries name of Some (FileTree (Inl content)) \<Rightarrow> Some content | _ \<Rightarrow> None))"

definition readIgnoreRules :: "listing \<Rightarrow> string \<Rightarrow> string \<Rightarrow> string list" where
  "readIgnoreRules l dir root =
     (let rel = relSlash root dir;
          pre = (if rel \<noteq> [] then rel @ ''/'' else [])
      in concat (map (\<lambda>name. case read_entry l name of
           None \<Rightarrow> []
         | Some data \<Rightarrow>
             List.map_filter (\<lambda>line. prefixIgnorePattern line pre)
               (split_on newline (replace_all data [CHR 0x0D, newline] [newline]))) ignoreFileNames))"

definition loadSkillFile :: "string \<Rightarrow> string + err \<Rightarrow> (Skill option \<times> Diagnostic list) option" where
  "loadSkillFile path data =
     (case data of
        Inr e \<Rightarrow> Some (None, [\<lparr>dg_Path = path, dg_Message = ''read failed: '' @ err_msg e\<rparr>])
      | Inl content \<Rightarrow>
          (case parseFrontmatter content of
             None \<Rightarrow> None
           | Some (frontmatter, body) \<Rightarrow>
               (let description = unquote (field frontmatter ''description'');
                    name = unquote (field frontmatter ''name'')
                in if description = [] then Some (None, [\<lparr>dg_Path = path, dg_Message = ''description is required''\<rparr>])
                   else Some (Some \<lparr>sk_Name = (if name = [] then filepath_Base (filepath_Dir path) else name), sk_Description = description,
                                    sk_Content = body, sk_FilePath = path,
                                    sk_DisableModelInvocation = parseBoolFrontmatter (field frontmatter ''disable-model-invocation'')\<rparr>,
                              []))))"

text \<open>The first entry of that name that is not a directory.\<close>

fun skill_file_entry :: "(string \<times> fs_tree) list \<Rightarrow> (string + err) option" where
  "skill_file_entry [] = None"
| "skill_file_entry ((name, FileTree data) # es) = (if name = skillFileName then Some data else skill_file_entry es)"
| "skill_file_entry ((name, DirTree l) # es) = skill_file_entry es"

fun tree_size :: "fs_tree \<Rightarrow> nat" and entries_size :: "(string \<times> fs_tree) list \<Rightarrow> nat" where
  "tree_size (FileTree d) = 1"
| "tree_size (DirTree (Inr e)) = 1"
| "tree_size (DirTree (Inl es)) = Suc (entries_size es)"
| "entries_size [] = 1"
| "entries_size ((n, t) # es) = tree_size t + entries_size es"

lemma entries_size_sum: "entries_size es = Suc (sum_list (map (tree_size \<circ> snd) es))"
  by (induction es) auto

lemma entries_size_pos: "0 < entries_size es"
  by (simp add: entries_size_sum)

lemma tree_size_pos: "0 < tree_size t"
  by (cases t rule: tree_size.cases) auto

lemma entries_size_sort [simp]: "entries_size (sort_key fst es) = entries_size es"
  unfolding entries_size_sum by (metis mset_map mset_sort sum_mset_sum_list)

definition both :: "(Skill list \<times> Diagnostic list) option \<Rightarrow> (Skill list \<times> Diagnostic list) option \<Rightarrow> (Skill list \<times> Diagnostic list) option" where
  "both a b = (case a of None \<Rightarrow> None | Some (ss, ds) \<Rightarrow> map_option (\<lambda>(ss', ds'). (ss @ ss', ds @ ds')) b)"

definition skipped_name :: "string \<Rightarrow> bool" where
  "skipped_name name \<longleftrightarrow> has_prefix name ''.'' \<or> name = ''node_modules''"

text \<open>The skills and diagnostics found, in the order of the walk, which the code appends to its two accumulators.\<close>

function load_dir :: "(string list \<Rightarrow> string \<Rightarrow> bool) \<Rightarrow> string \<Rightarrow> string list \<Rightarrow> string \<Rightarrow> listing \<Rightarrow>
    (Skill list \<times> Diagnostic list) option"
  and load_entries :: "(string list \<Rightarrow> string \<Rightarrow> bool) \<Rightarrow> string \<Rightarrow> string list \<Rightarrow> string \<Rightarrow> (string \<times> fs_tree) list \<Rightarrow>
    (Skill list \<times> Diagnostic list) option" where
  "load_dir matches root inherited dir (Inr e) = Some ([], [\<lparr>dg_Path = dir, dg_Message = ''list directory: '' @ err_msg e\<rparr>])"
| "load_dir matches root inherited dir (Inl entries) =
     (let patterns = inherited @ readIgnoreRules (Inl entries) dir root
      in case skill_file_entry entries of
           Some data \<Rightarrow>
             (let full = filepath_Join [dir, skillFileName]
              in if matches patterns (relSlash root full) then Some ([], [])
                 else map_option (\<lambda>(skill, ds). (case skill of None \<Rightarrow> [] | Some s \<Rightarrow> [s], ds)) (loadSkillFile full data))
         | None \<Rightarrow> load_entries matches root patterns dir (sort_key fst entries))"
| "load_entries matches root patterns dir [] = Some ([], [])"
| "load_entries matches root patterns dir ((name, FileTree d) # es) = load_entries matches root patterns dir es"
| "load_entries matches root patterns dir ((name, DirTree l) # es) =
     (if skipped_name name then load_entries matches root patterns dir es
      else (let full = filepath_Join [dir, name]
            in if matches patterns (relSlash root full @ ''/'') then load_entries matches root patterns dir es
               else both (load_dir matches root patterns full l) (load_entries matches root patterns dir es)))"
  by pat_completeness auto
termination
  by (relation "measure (\<lambda>x. case x of Inl (matches, root, inherited, dir, l) \<Rightarrow> tree_size (DirTree l)
                                   | Inr (matches, root, patterns, dir, es) \<Rightarrow> entries_size es)")
    (auto simp: tree_size_pos entries_size_pos)

text \<open>\<^verbatim>\<open>Load\<close>: \<open>stat\<close> is what \<^verbatim>\<open>os.Stat\<close> finds at the directory.\<close>

definition skills_Load :: "(string list \<Rightarrow> string \<Rightarrow> bool) \<Rightarrow> string \<Rightarrow> fs_tree + err \<Rightarrow> ((Skill list \<times> Diagnostic list) + err) option" where
  "skills_Load matches dir stat =
     (case stat of
        Inr e \<Rightarrow>
          if errors_is e FsNotExist then Some (Inl ([], []))
          else Some (Inr (wrap_err (''stat skills dir '' @ dir @ '': '') e))
      | Inl (FileTree d) \<Rightarrow> Some (Inl ([], []))
      | Inl (DirTree l) \<Rightarrow> map_option Inl (load_dir matches dir [] dir l))"

section \<open>What the frontmatter holds\<close>

text \<open>A file panics the loader exactly when its frontmatter block is empty: the closing line directly follows the opening one.\<close>

lemma index_zero: "strings_index s sub = Some 0 \<longleftrightarrow> has_prefix s sub"
  by (cases s) (auto simp: has_prefix_def)

lemma has_prefix_iff: "has_prefix s p \<longleftrightarrow> (\<exists>t. s = p @ t)"
  unfolding has_prefix_def by (metis append_eq_conv_conj append_take_drop_id)

lemma has_prefix_parts: "has_prefix s (p @ q) \<longleftrightarrow> has_prefix s p \<and> has_prefix (drop (length p) s) q"
  by (auto simp: has_prefix_iff)

lemma frontmatter_panics_iff: "parseFrontmatter content = None \<longleftrightarrow> has_prefix (skill_text content) (''---'' @ newline # ''---'')"
proof -
  have "has_prefix n (''---'' @ newline # ''---'') \<longleftrightarrow> has_prefix n ''---'' \<and> has_prefix (drop 3 n) (newline # ''---'')" for n
    using has_prefix_parts [of n "''---''" "newline # ''---''"] by (simp add: numeral_3_eq_3)
  then show ?thesis
    using index_zero [of "drop 3 (skill_text content)" "newline # ''---''"]
    by (auto simp: parseFrontmatter_def Let_def split: option.splits)
qed

lemma empty_frontmatter_panics: "parseFrontmatter (''---'' @ newline # ''---'' @ newline # ''body'') = None"
  by code_simp

text \<open>The escape of a leading exclamation mark is removed, after which the matcher takes the mark for a negation.\<close>

lemma escaped_negation_negates:
  "prefixIgnorePattern (CHR 0x5C # ''!a'') [] = Some ''!a''" "prefixIgnorePattern ''!a'' [] = Some ''!a''"
  "prefixIgnorePattern ''/a'' [] = Some ''a''"
  by (simp_all add: prefixIgnorePattern_def trim_space_def trim_left_def trim_right_def runes_Cons_ascii is_space_def has_prefix_def
      trim_prefix_def Let_def)

section \<open>Which skills are loaded\<close>

text \<open>
  A skill is found below a directory when it is that directory's own, which then hides everything below, or is found below
  one of its subdirectories that is neither skipped nor ignored. Ignore rules are those of the directories on the way.
\<close>

inductive found :: "(string list \<Rightarrow> string \<Rightarrow> bool) \<Rightarrow> string \<Rightarrow> string list \<Rightarrow> string \<Rightarrow> listing \<Rightarrow> Skill \<Rightarrow> bool" for matches root where
  own_skill: "skill_file_entry entries = Some data \<Longrightarrow>
    \<not> matches (inherited @ readIgnoreRules (Inl entries) dir root) (relSlash root (filepath_Join [dir, skillFileName])) \<Longrightarrow>
    loadSkillFile (filepath_Join [dir, skillFileName]) data = Some (Some s, ds) \<Longrightarrow>
    found matches root inherited dir (Inl entries) s"
| skill_below: "skill_file_entry entries = None \<Longrightarrow> (name, DirTree l) \<in> set entries \<Longrightarrow> \<not> skipped_name name \<Longrightarrow>
    \<not> matches (inherited @ readIgnoreRules (Inl entries) dir root) (relSlash root (filepath_Join [dir, name]) @ ''/'') \<Longrightarrow>
    found matches root (inherited @ readIgnoreRules (Inl entries) dir root) (filepath_Join [dir, name]) l s \<Longrightarrow>
    found matches root inherited dir (Inl entries) s"

inductive_simps found_listing: "found matches root inherited dir (Inl entries) s"
inductive_cases found_failed [elim!]: "found matches root inherited dir (Inr e) s"

definition found_in :: "(string list \<Rightarrow> string \<Rightarrow> bool) \<Rightarrow> string \<Rightarrow> string list \<Rightarrow> string \<Rightarrow> (string \<times> fs_tree) list \<Rightarrow> Skill \<Rightarrow> bool" where
  "found_in matches root patterns dir es s \<longleftrightarrow>
     (\<exists>name l. (name, DirTree l) \<in> set es \<and> \<not> skipped_name name \<and>
        \<not> matches patterns (relSlash root (filepath_Join [dir, name]) @ ''/'') \<and>
        found matches root patterns (filepath_Join [dir, name]) l s)"

lemma found_in_simps [simp]:
  "\<not> found_in matches root patterns dir [] s"
  "found_in matches root patterns dir ((name, FileTree d) # es) s \<longleftrightarrow> found_in matches root patterns dir es s"
  "found_in matches root patterns dir ((name, DirTree l) # es) s \<longleftrightarrow>
     \<not> skipped_name name \<and> \<not> matches patterns (relSlash root (filepath_Join [dir, name]) @ ''/'') \<and>
       found matches root patterns (filepath_Join [dir, name]) l s \<or> found_in matches root patterns dir es s"
  "found_in matches root patterns dir (sort_key fst es) s \<longleftrightarrow> found_in matches root patterns dir es s"
  unfolding found_in_def by auto

lemma found_unfold:
  "found matches root inherited dir (Inl entries) s \<longleftrightarrow>
     (let patterns = inherited @ readIgnoreRules (Inl entries) dir root; full = filepath_Join [dir, skillFileName]
      in case skill_file_entry entries of
           Some data \<Rightarrow> \<not> matches patterns (relSlash root full) \<and> (\<exists>ds. loadSkillFile full data = Some (Some s, ds))
         | None \<Rightarrow> found_in matches root patterns dir entries s)"
  unfolding found_listing found_in_def Let_def by (cases "skill_file_entry entries") auto

lemma both_Some: "both a b = Some (ss, ds) \<longleftrightarrow>
    (\<exists>s1 d1 s2 d2. a = Some (s1, d1) \<and> b = Some (s2, d2) \<and> ss = s1 @ s2 \<and> ds = d1 @ d2)"
  by (auto simp: both_def split: option.splits)

lemma load_finds:
  "load_dir matches root inherited dir l = Some (ss, ds) \<Longrightarrow> s \<in> set ss \<longleftrightarrow> found matches root inherited dir l s"
  "load_entries matches root patterns dir es = Some (ss, ds) \<Longrightarrow> s \<in> set ss \<longleftrightarrow> found_in matches root patterns dir es s"
proof (induction matches root inherited dir l and matches root patterns dir es arbitrary: ss ds and ss ds
    rule: load_dir_load_entries.induct)
  case (2 matches root inherited dir entries)
  show ?case
  proof (cases "skill_file_entry entries")
    case None
    then show ?thesis using 2 by (simp add: found_unfold Let_def)
  next
    case (Some data)
    then show ?thesis using "2.prems" by (auto simp: found_unfold Let_def split: if_splits option.splits)
  qed
next
  case (5 matches root patterns dir name l es)
  show ?case
  proof (cases "skipped_name name \<or> matches patterns (relSlash root (filepath_Join [dir, name]) @ ''/'')")
    case True
    then have e: "load_entries matches root patterns dir es = Some (ss, ds)" using "5.prems" by (auto simp: Let_def split: if_splits)
    have "s \<in> set ss \<longleftrightarrow> found_in matches root patterns dir es s"
      using 5(1) [OF _ e] 5(2) [OF _ refl _ e] True by blast
    then show ?thesis using True by auto
  next
    case False
    then obtain s1 d1 s2 d2 where "load_dir matches root patterns (filepath_Join [dir, name]) l = Some (s1, d1)"
      "load_entries matches root patterns dir es = Some (s2, d2)" "ss = s1 @ s2"
      using "5.prems" by (auto simp: Let_def both_Some)
    then show ?thesis using 5(3) [OF _ refl] 5(4) [OF _ refl] False by simp
  qed
qed auto

lemma loaded_described: "loadSkillFile path data = Some (Some s, ds) \<Longrightarrow> sk_Description s \<noteq> [] \<and> sk_FilePath s = path \<and> ds = []"
  by (auto simp: loadSkillFile_def Let_def split: sum.splits option.splits if_splits)

lemma found_described: "found matches root inherited dir l s \<Longrightarrow> sk_Description s \<noteq> []"
  by (induction rule: found.induct) (auto dest: loaded_described)

text \<open>
  C34
  Loading a directory returns exactly the skills of the tree: those whose file is readable, described and not ignored, in a directory
  reached without passing a hidden, ignored or \<^verbatim>\<open>node_modules\<close> directory and without passing a directory that has a skill of its
  own. Each has a description.
\<close>

theorem skills_loaded:
  assumes "skills_Load matches dir (Inl (DirTree l)) = Some (Inl (ss, ds))"
  shows "(s \<in> set ss \<longleftrightarrow> found matches dir [] dir l s) \<and> (s \<in> set ss \<longrightarrow> sk_Description s \<noteq> [])"
  using assms load_finds(1) [of matches dir "[]" dir l ss ds s] found_described [of matches dir "[]" dir l s]
  by (auto simp: skills_Load_def)

definition demo_skill :: string where
  "demo_skill = ''---'' @ newline # ''description: d'' @ newline # ''---'' @ newline # ''body''"

definition demo_tree :: listing where
  "demo_tree = Inl [(''b'', DirTree (Inl [(''SKILL.md'', FileTree (Inl demo_skill)), (''sub'', DirTree (Inl []))])),
     (''.git'', DirTree (Inl [(''SKILL.md'', FileTree (Inl demo_skill))]))]"

definition demo_found :: Skill where
  "demo_found = \<lparr>sk_Name = ''b'', sk_Description = ''d'', sk_Content = ''body'', sk_FilePath = ''/r/b/SKILL.md'', sk_DisableModelInvocation = False\<rparr>"

lemma demo_path: "filepath_Join [''/r'', ''b''] = ''/r/b''" "filepath_Join [''/r/b'', ''SKILL.md''] = ''/r/b/SKILL.md''"
  "filepath_Base (filepath_Dir ''/r/b/SKILL.md'') = ''b''"
  by (simp_all add: filepath_Join_def filepath_Clean_def unclean_def clean_elems_def clean_step_def is_abs_def has_prefix_def
      filepath_Dir_def filepath_Base_def)

lemma demo_frontmatter: "parseFrontmatter demo_skill = Some ([''description'' \<mapsto> ''d''], ''body'')"
  by (simp add: parseFrontmatter_def skill_text_def demo_skill_def parseFrontmatterLine_def trim_space_def trim_left_def trim_right_def
      runes_Cons_ascii is_space_def has_prefix_def trim_prefix_def replace_all_def map_filter_def Let_def)

lemma demo_loaded: "skills_Load (\<lambda>ps p. False) ''/r'' (Inl (DirTree demo_tree)) = Some (Inl ([demo_found], []))"
proof -
  have "loadSkillFile ''/r/b/SKILL.md'' (Inl demo_skill) = Some (Some demo_found, [])"
    by (simp add: loadSkillFile_def demo_frontmatter field_def unquote_def parseBoolFrontmatter_def demo_found_def demo_path Let_def)
  then show ?thesis
    by (simp add: skills_Load_def demo_tree_def both_def skipped_name_def has_prefix_def skillFileName_def demo_path Let_def)
qed

lemma skills_loaded_witness: "found (\<lambda>ps p. False) ''/r'' [] ''/r'' demo_tree demo_found"
  using skills_loaded [OF demo_loaded, of demo_found] by simp

end
