(* ===== verification/Spec2Isabelle.thy ===== *)
theory Spec2Isabelle
  imports Go_Prelude Go_Utf8 Go_Json Go_Compact Go_Decode Go_Fmt Go_Path Messages Tools
    Session_Repo Session_Jsonl Compaction Llm_Convert Agent_Config
    Summary_Prompts Summarize Prompt_Run Tool_Batch Prompt_Loop Prompt_Props Agent_Start Agent_Props Prompt_Correct
    Truncate Line_Diff Edit_Text Diff_Render Exec_Env Shell_Capture Bash_Tool Tool_Path Mutation_Queue
    Image_Sniff Read_Tool Write_Tool Edit_Tool File_Tools Pi_Skills
begin

text \<open>
  A verification library for the agent core: the package \<^verbatim>\<open>pi\<close> at the root of the repository, its session backends
  (session/), the built-in tools (tools/) and the skill loader (piskills/).

  \<^bold>\<open>The program.\<close> An \<^verbatim>\<open>Agent\<close> holds a configuration, the registered and active tools and a session backend. \<^verbatim>\<open>Prompt\<close>
  starts a run: a goroutine that alternates provider requests and batches of tool calls, appends what happens to the session
  and to a transcript in memory, emits events and finally delivers one result. \<^verbatim>\<open>Steer\<close>, \<^verbatim>\<open>FollowUp\<close>, \<^verbatim>\<open>Stop\<close> and the
  setters act on it from outside. \<^verbatim>\<open>Compact\<close> has the provider summarize the older part of a session; the context of a request is
  built from the transcript and the summaries. The built-in tools read, write and edit files and run commands through the
  interface \<^verbatim>\<open>ExecutionEnv\<close>, whose implementation \<^verbatim>\<open>OSEnv\<close> calls the operating system.

  \<^bold>\<open>The model.\<close> Strings are lists of bytes. A Go error is its text and the sentinels on its wrap chain (\<open>err\<close>, \<open>errors_is\<close>);
  a function that returns an error has a sum type or returns an optional error beside its state. Code that can panic returns an
  option, \<open>None\<close> being the panic. Sizes and positions are natural numbers where the code keeps them in range; where a sum could
  leave the 64 bits of \<^verbatim>\<open>int\<close> the wrap-around is written out (\<open>wrap64\<close>). State is passed explicitly; what runs concurrently is a
  step relation whose steps are the atomic operations of the code.

  \<^bold>\<open>Go and its standard library\<close>: \<open>Go_Prelude\<close> (errors, string functions, \<open>itoa\<close>), \<open>Go_Utf8\<close> (decoding and encoding of runes),
  \<open>Go_Json\<close>, \<open>Go_Compact\<close> and \<open>Go_Decode\<close> (encoding/json: printing, parsing, compacting, raw values, structs and maps, base64),
  \<open>Go_Fmt\<close> (quoting), \<open>Go_Path\<close> (path/filepath on Unix), \<open>Go_Int\<close>, \<open>Go_Float\<close> (rounding and shortest decimal form of float64). The
  JSON parser takes fuel, twice the length of the text and two, and \<open>json_unmarshal_fuel\<close> shows that more never changes
  the result; \<open>unmarshal_print\<close> and \<open>json_compact_value\<close> are the round trips the components use.

  \<^bold>\<open>Data and storage.\<close>
  \<^item> \<open>Messages\<close> (message.go): the constructors and accessors over byte-exact JSON bodies.
  \<^item> \<open>Tools\<close> (tool.go, active_tools.go): registered tools, typed and dynamic, validation and filtering of tool sets.
  \<^item> \<open>Session_Repo\<close> (session.go, session/memory.go, the backend inside agent.go): the locale \<open>session_repo\<close> states what a backend
    promises; both in-memory backends are interpretations, and a simulation shows that they answer alike.
  \<^item> \<open>Session_Jsonl\<close> (session/jsonl.go): the file backend over a directory of byte contents; the locale \<open>image_codec\<close> is the JSON
    form of image parts, a sublocale derives the laws of \<open>session_repo\<close> for sessions whose lines fit the scanner's limit.
  \<^item> \<open>Compaction\<close>, \<open>Summary_Prompts\<close>, \<open>Summarize\<close> (compact.go, summarize_retry.go): the token estimate, the cut point, the context
    built from a transcript and its summaries, the retried summarization calls with the waits of the policy, \<^verbatim>\<open>Compact\<close>.
  \<^item> \<open>Llm_Convert\<close> (agent.go \<^verbatim>\<open>DefaultConvertToLLM\<close>, skill.go): the messages of a request and the index of skills in it.

  \<^bold>\<open>Prompts.\<close>
  \<^item> \<open>Agent_Config\<close> (agent.go, config.go, snapshot.go, setters.go, hooks.go): the agent object, \<^verbatim>\<open>NewAgent\<close>, the setters.
  \<^item> \<open>Prompt_Run\<close> (prompt.go, event.go, agent_state.go): the record of a run, \<^verbatim>\<open>emit\<close>, \<^verbatim>\<open>finish\<close>, the operations on the transcript. A
    run keeps the list of all events emitted and the list of those delivered, which a full buffer can make shorter.
  \<^item> \<open>Tool_Batch\<close> (prompt.go \<^verbatim>\<open>executeTools\<close>): the goroutines of a batch as steps, with the semaphore, streams and leaks.
  \<^item> \<open>Prompt_Loop\<close> (prompt.go \<^verbatim>\<open>loop\<close>, \<^verbatim>\<open>runOneTurn\<close>): the loop as a step relation over a program counter; provider events, results of
    tools and hooks, the clock and the calls of other goroutines are chosen freely by the steps. \<open>reach\<close> covers one prompt from
    its launch to its exit, with the callers interleaved anywhere.
  \<^item> \<open>Prompt_Props\<close>, \<open>Prompt_Correct\<close>: the invariant of the loop and what follows from it for every execution: the grammar of the
    events, the single result, the agreement of transcript and store (locale \<open>prompt_store\<close>, interpreted on both in-memory
    backends), the effect of cancelling, the order of tool results, progress, the cap a stop hook sets.
  \<^item> \<open>Agent_Start\<close>, \<open>Agent_Props\<close> (agent.go, event_stream.go): \<^verbatim>\<open>Prompt\<close>, \<^verbatim>\<open>Resume\<close>, \<^verbatim>\<open>Stop\<close>, \<^verbatim>\<open>Steer\<close>, \<^verbatim>\<open>FollowUp\<close>, restoring the active tools
    (locale \<open>prompt_repo\<close>), and orders of events across two prompts in which the agent does not do what its comments say
    (\<open>late_flush_misroutes\<close>, \<open>steer_after_end\<close>).

  \<^bold>\<open>Tools.\<close>
  \<^item> \<open>Exec_Env\<close> (tools/env.go, tools/env_unix.go): the interface as a record of actions on a world, \<^verbatim>\<open>OSEnv\<close> over a record of system
    calls. The locale \<open>os_files\<close> states the laws of a store of files for system calls, \<open>file_env\<close> those a tool relies on; the
    sublocale shows that \<^verbatim>\<open>OSEnv\<close> gives the second from the first, and a disk with directories interprets them.
  \<^item> \<open>Truncate\<close> (tools/truncate.go): what the head and the tail of a text keep, shown to be the most that both limits allow.
  \<^item> \<open>Line_Diff\<close>, \<open>Diff_Render\<close>, \<open>Edit_Text\<close> (tools/editdiff.go): the search for an edit script (total, faithful, minimal; the sentinel
    of the code bounds the lines by 2^30), the unified patch (applying it gives the new text), the listing, and the matching and
    applying of edits, exact and fuzzy.
  \<^item> \<open>Shell_Capture\<close>, \<open>Bash_Tool\<close> (tools/shell_output.go, tools/bash.go): the capture of a command's output with its bounded tail and
    spill file, the throttle of partial results as a state machine, the result of a command. What happens while a command runs
    is a list of events, chunks of output and timer callbacks.
  \<^item> \<open>Tool_Path\<close>, \<open>Mutation_Queue\<close> (tools/path.go, tools/mutation_queue.go): the paths a model gives, and the queue that lets calls on one
    file run one at a time, as steps over the map of locks: mutual exclusion and progress.
  \<^item> \<open>Image_Sniff\<close>, \<open>Read_Tool\<close>, \<open>Write_Tool\<close>, \<open>Edit_Tool\<close> (tools/image.go, read.go, write.go, edit.go) and \<open>File_Tools\<close>: each tool over any
    \<open>file_env\<close>, and the three one after another on one file.
  \<^item> \<open>Pi_Skills\<close> (piskills/piskills.go): frontmatter, ignore patterns and the walk over a directory tree.

  \<^bold>\<open>Parameters.\<close> Code that is not in the repository is an argument: the provider and its stream, the clock and the timer of the
  summarization, hooks and user tools, the NFKC and NFD normalizations, the matcher of ignore patterns, the image processor, the
  operating system. Hypotheses on them are named: \<open>file_env\<close> and \<open>os_files\<close> for files, \<open>timely\<close> for timers, that a normal form is its own
  normal form for the fuzzy search.

  \<^bold>\<open>Not modelled.\<close> The JSON schemas of tools (reflection) and constrained sampling; the decoding of tool parameters from JSON, which
  is a parameter of \<open>typed_execute\<close>; times carried by events and results; the Windows parts of paths; the process group calls of
  env_unix.go beyond kill and wait. The context of the file tools is looked at where the code looks, and changes only with the world.
  agenttest/, examples/ and internal/harness/ hold helpers and examples without logic of the library.
\<close>

end
